(* ===== verification/Prelude.thy ===== *)
theory Prelude
  imports Main "HOL-Library.Word"
begin

text \<open>
  Shared ground of the development: the byte and machine-word types, C string literals as byte
  lists, the arithmetic of the bit masks the UTF-8 code uses, and small lemmas on lists that
  several components need.

  A C buffer \<open>(const char *s, size_t len)\<close> is a \<open>byte list\<close> whose length is \<open>len\<close>; a scan at an
  index \<open>i\<close> that only looks at \<open>s[i..len)\<close> is a recursion on the remaining suffix, so a read past
  the end is a missing list cell and never an unspecified value.
  \<open>size_t\<close> counts are \<open>nat\<close>, with every overflow check of the code written out against the
  platform's limits.
\<close>

unbundle bit_operations_syntax

type_synonym byte = "8 word"
type_synonym bytes = "byte list"

named_theorems byte_arith \<open>translates byte comparisons and masks to arithmetic on naturals\<close>

text \<open>A C string literal, without its terminating NUL.\<close>

definition ascii :: "string \<Rightarrow> bytes" where
  "ascii s = map of_char s"

lemma length_ascii [simp]: "length (ascii s) = length s"
  by (simp add: ascii_def)

subsection \<open>Bit masks on naturals\<close>

lemma nat_and_contig: "(x::nat) AND (2 ^ k * (2 ^ j - 1)) = 2 ^ k * (x div 2 ^ k mod 2 ^ j)"
proof -
  have "x AND push_bit k (mask j) = push_bit k (take_bit j (drop_bit k x))"
    by (rule bit_eqI) (auto simp: bit_simps)
  then show ?thesis
    by (simp add: push_bit_eq_mult take_bit_eq_mod drop_bit_eq_div mask_eq_exp_minus_1 mult.commute)
qed

lemma nat_or_shift: "a < 2 ^ k \<Longrightarrow> (2 ^ k * b) OR a = 2 ^ k * b + (a::nat)"
proof -
  assume "a < 2 ^ k"
  then have t: "take_bit k a = a" by (simp add: take_bit_nat_eq_self_iff)
  have "(push_bit k b) AND (take_bit k a) = 0"
    by (rule bit_eqI) (auto simp: bit_simps)
  with t show ?thesis by (metis disjunctive_add_eq_or push_bit_eq_mult mult.commute)
qed

lemma unat_byte_less [simp]: "unat (c::byte) < 256"
  using unsigned_less [of c, where 'a = nat] by simp

lemma unat_byte_mod [simp]:
  "unat (c::byte) mod 4294967296 = unat c"
  "unat c mod 65536 = unat c"
  using unat_byte_less [of c] by (simp_all del: unat_byte_less)

lemma unat_byte_and:
  "unat d = 2 ^ k * (2 ^ j - 1) \<Longrightarrow> unat ((c::byte) AND d) = 2 ^ k * (unat c div 2 ^ k mod 2 ^ j)"
  by (simp only: unsigned_and_eq nat_and_contig)

lemma unat_byte_and_masks [byte_arith]:
  "unat ((c::byte) AND 0xE0) = 32 * (unat c div 32 mod 8)"
  "unat ((c::byte) AND 0xC0) = 64 * (unat c div 64 mod 4)"
  "unat ((c::byte) AND 0xF0) = 16 * (unat c div 16 mod 16)"
  "unat ((c::byte) AND 0xF8) = 8 * (unat c div 8 mod 32)"
  "unat ((c::byte) AND 0x1E) = 2 * (unat c div 2 mod 16)"
  "unat ((c::byte) AND 0x20) = 32 * (unat c div 32 mod 2)"
  "unat ((c::byte) AND 0x30) = 16 * (unat c div 16 mod 4)"
  "unat ((c::byte) AND 0x04) = 4 * (unat c div 4 mod 2)"
  "unat ((c::byte) AND 0x0F) = unat c mod 16"
  "unat ((c::byte) AND 0x07) = unat c mod 8"
  "unat ((c::byte) AND 0x03) = unat c mod 4"
  "unat ((c::byte) AND 0x1F) = unat c mod 32"
  "unat ((c::byte) AND 0x3F) = unat c mod 64"
  subgoal using unat_byte_and [of "0xE0" 5 3 c] by simp
  subgoal using unat_byte_and [of "0xC0" 6 2 c] by simp
  subgoal using unat_byte_and [of "0xF0" 4 4 c] by simp
  subgoal using unat_byte_and [of "0xF8" 3 5 c] by simp
  subgoal using unat_byte_and [of "0x1E" 1 4 c] by simp
  subgoal using unat_byte_and [of "0x20" 5 1 c] by simp
  subgoal using unat_byte_and [of "0x30" 4 2 c] by simp
  subgoal using unat_byte_and [of "0x04" 2 1 c] by simp
  subgoal using unat_byte_and [of "0x0F" 0 4 c] by simp
  subgoal using unat_byte_and [of "0x07" 0 3 c] by simp
  subgoal using unat_byte_and [of "0x03" 0 2 c] by simp
  subgoal using unat_byte_and [of "0x1F" 0 5 c] by simp
  subgoal using unat_byte_and [of "0x3F" 0 6 c] by simp
  done

lemma byte_eq_unat [byte_arith]: "(c::byte) = d \<longleftrightarrow> unat c = unat d"
  by (rule word_unat_eq_iff)

declare word_le_nat_alt [byte_arith] word_less_nat_alt [byte_arith]

text \<open>The masked bytes of a multi-byte sequence, widened to \<open>unsigned int\<close>.\<close>

lemma unat_ucast32_masks [byte_arith]:
  "unat (ucast (c::byte) AND 0x1f :: 32 word) = unat c mod 32"
  "unat (ucast (c::byte) AND 0x0f :: 32 word) = unat c mod 16"
  "unat (ucast (c::byte) AND 0x07 :: 32 word) = unat c mod 8"
  "unat (ucast (c::byte) AND 0x3f :: 32 word) = unat c mod 64"
  using nat_and_contig [of "unat c" 0 5] nat_and_contig [of "unat c" 0 4]
    nat_and_contig [of "unat c" 0 3] nat_and_contig [of "unat c" 0 6]
    unat_byte_less [of c]
  by (simp_all add: unsigned_and_eq unsigned_ucast_eq take_bit_eq_mod)

lemma nat_or_shift6: "a < 64 \<Longrightarrow> (64 * b) OR a = 64 * b + (a::nat)"
  using nat_or_shift [of a 6 b] by simp

lemma nat_or_shift12: "a < 4096 \<Longrightarrow> (4096 * b) OR a = 4096 * b + (a::nat)"
  using nat_or_shift [of a 12 b] by simp

lemma nat_or_shift18: "a < 262144 \<Longrightarrow> (262144 * b) OR a = 262144 * b + (a::nat)"
  using nat_or_shift [of a 18 b] by simp

lemma unat_push_bit32: "unat (push_bit k (w :: 32 word)) = (2 ^ k * unat w) mod 2 ^ 32"
  by (simp only: unsigned_push_bit_eq) (simp add: take_bit_eq_mod push_bit_eq_mult mult.commute)

subsection \<open>Appending to a result\<close>

lemma map_option_append [simp]:
  "map_option ((@) []) v = v"
  "map_option ((#) a) (map_option ((@) x) v) = map_option ((@) (a # x)) v"
  "map_option ((@) x) (map_option ((@) y) v) = map_option ((@) (x @ y)) v"
  by (cases v; simp)+

lemma map_option_append_single: "map_option ((@) [a]) v = map_option ((#) a) v"
  by (cases v) simp_all

end
