(* ===== verification/Swar.thy ===== *)
theory Swar
  imports Prelude
begin

text \<open>
  The eight-bytes-at-a-time tests of the string scanners. The code loads a 64-bit word with
  \<open>memcpy\<close> (on a little-endian machine, or byte-swapped to that order) and decides with
  subtractions and masks whether one of its bytes is a newline, a quote, a control character and
  so on. The lemmas reduce each test to a statement on the eight bytes.
\<close>

fun load_le :: "bytes \<Rightarrow> 64 word" where
  "load_le [] = 0"
| "load_le (b # r) = ucast b OR push_bit 8 (load_le r)"

definition ones :: "64 word" where "ones = 0x0101010101010101"
definition highs :: "64 word" where "highs = 0x8080808080808080"

text \<open>The two shapes of the test: a byte below \<open>k\<close>, and a byte equal to \<open>q\<close>.\<close>

definition has_less :: "64 word \<Rightarrow> 64 word \<Rightarrow> bool" where
  "has_less w k \<longleftrightarrow> ((w - ones * k) AND NOT w) AND highs \<noteq> 0"

definition has_byte :: "64 word \<Rightarrow> 64 word \<Rightarrow> bool" where
  "has_byte w q \<longleftrightarrow> (let x = w XOR (ones * q) in ((x - ones) AND NOT x) AND highs \<noteq> 0)"

subsection \<open>The word as a number\<close>

fun bytes_val :: "bytes \<Rightarrow> int" where
  "bytes_val [] = 0"
| "bytes_val (b # r) = uint b + 256 * bytes_val r"

lemma uint_byte_bounds: "0 \<le> uint (b::byte)" "uint b < 256"
  using uint_lt2p [of b] by simp_all

lemma digit_bound: "b < 256 \<Longrightarrow> v < p \<Longrightarrow> b + 256 * v < 256 * (p::int)"
  by linarith

lemma bytes_val_bounds: "0 \<le> bytes_val bs" "bytes_val bs < 256 ^ length bs"
proof (induction bs)
  case (Cons b r)
  case 1 show ?case using Cons.IH uint_byte_bounds [of b] by simp
  case 2 show ?case using Cons.IH uint_byte_bounds [of b] by (simp add: digit_bound)
qed simp_all

lemma int_or_shift8: "0 \<le> a \<Longrightarrow> a < 256 \<Longrightarrow> a OR (256 * b) = a + 256 * (b::int)"
proof -
  assume "0 \<le> a" "a < 256"
  then have t: "take_bit 8 a = a" by (simp add: take_bit_int_eq_self_iff)
  have "take_bit 8 a AND push_bit 8 b = 0"
    by (rule bit_eqI) (auto simp: bit_simps)
  with t have "a AND push_bit 8 b = 0" by simp
  then show ?thesis
    using disjunctive_add_eq_or [of a "push_bit 8 b"] by (simp add: push_bit_eq_mult mult.commute)
qed

lemma uint_load_le: "length bs \<le> 8 \<Longrightarrow> uint (load_le bs) = bytes_val bs"
proof (induction bs)
  case (Cons b r)
  have "(256::int) ^ length r \<le> 256 ^ 7"
    using Cons.prems by (intro power_increasing) auto
  then have "256 * bytes_val r < 18446744073709551616"
    using bytes_val_bounds [of r] by simp
  then have "uint (push_bit 8 (load_le r)) = 256 * bytes_val r"
    using Cons bytes_val_bounds [of r]
    by (simp only: unsigned_push_bit_eq) (simp add: take_bit_eq_mod push_bit_eq_mult mult.commute)
  moreover have "uint (ucast b :: 64 word) = uint b"
    by (simp add: unsigned_ucast_eq take_bit_int_eq_self_iff uint_byte_bounds
        order_less_trans [OF uint_byte_bounds(2)])
  ultimately show ?case
    by (simp add: unsigned_or_eq int_or_shift8 uint_byte_bounds)
qed simp

subsection \<open>Borrow propagation\<close>

lemma bit_low: "0 \<le> c \<Longrightarrow> c < 256 \<Longrightarrow> bit (c + 256 * z) (7::nat) \<longleftrightarrow> 128 \<le> (c::int)"
proof -
  assume c: "0 \<le> c" "c < 256"
  have "(c + 256 * z) div 128 = c div 128 + 2 * z"
    using div_mult_self1 [of 128 c "2 * z"] by (simp add: algebra_simps)
  then have "bit (c + 256 * z) 7 \<longleftrightarrow> odd (c div 128)"
    by (simp add: bit_iff_odd)
  also have "c div 128 = (if 128 \<le> c then 1 else 0)"
    using c int_div_pos_eq [of c 128 1 "c - 128"] by (simp add: div_pos_pos_trivial)
  also have "odd \<dots> \<longleftrightarrow> 128 \<le> c" by simp
  finally show ?thesis .
qed

lemma bit_high: "0 \<le> c \<Longrightarrow> c < 256 \<Longrightarrow> bit (c + 256 * z) (8 + n) \<longleftrightarrow> bit (z::int) n"
proof -
  assume c: "0 \<le> c" "c < 256"
  then have "(c + 256 * z) div 256 = z" by simp
  then have "drop_bit 8 (c + 256 * z) = z" by (simp add: drop_bit_eq_div)
  then show ?thesis by (metis bit_drop_bit_eq comp_apply)
qed

primrec rep_val :: "int \<Rightarrow> nat \<Rightarrow> int" where
  "rep_val k 0 = 0"
| "rep_val k (Suc n) = k + 256 * rep_val k n"

lemma borrow_bits:
  assumes "1 \<le> k" and "k \<le> 128"
  shows "(\<exists>i < length bs. bit (bytes_val bs - rep_val k (length bs)) (8 * i + 7) \<and> \<not> bit (bytes_val bs) (8 * i + 7))
    \<longleftrightarrow> (\<exists>b \<in> set bs. uint b < k)"
proof (induction bs)
  case (Cons b r)
  let ?w = "bytes_val (b # r)" and ?d = "bytes_val (b # r) - rep_val k (length (b # r))"
  let ?P = "\<lambda>v d i. bit d (8 * i + 7) \<and> \<not> bit (v::int) (8 * i + (7::nat))"
  have split: "(\<exists>i < length (b # r). ?P ?w ?d i) \<longleftrightarrow> ?P ?w ?d 0 \<or> (\<exists>i < length r. ?P ?w ?d (Suc i))"
    by (auto simp: less_Suc_eq_0_disj simp del: bytes_val.simps rep_val.simps)
  have w0: "bit ?w (7::nat) \<longleftrightarrow> 128 \<le> uint b"
    unfolding bytes_val.simps by (rule bit_low [OF uint_byte_bounds])
  show ?case
  proof (cases "uint b < k")
    case True
    have d: "?d = (uint b - k + 256) + 256 * (bytes_val r - rep_val k (length r) - 1)"
      by (simp add: algebra_simps)
    have c: "128 \<le> uint b - k + 256" "uint b - k + 256 < 256"
      using True assms uint_byte_bounds(1) [of b] by linarith+
    then have "bit ?d (7::nat)"
      unfolding d by (subst bit_low) simp_all
    with w0 True assms have "?P ?w ?d 0" by simp
    with split True show ?thesis by (auto simp del: bytes_val.simps rep_val.simps)
  next
    case False
    have d: "?d = (uint b - k) + 256 * (bytes_val r - rep_val k (length r))"
      by (simp add: algebra_simps)
    have c: "0 \<le> uint b - k" "uint b - k < 256"
      using False assms uint_byte_bounds [of b] by simp_all
    have "bit ?d (7::nat) \<longleftrightarrow> 128 \<le> uint b - k"
      unfolding d by (rule bit_low [OF c])
    with w0 assms(1) have "\<not> ?P ?w ?d 0"
      by (simp del: bytes_val.simps rep_val.simps)
    moreover have "?P ?w ?d (Suc i) \<longleftrightarrow> ?P (bytes_val r) (bytes_val r - rep_val k (length r)) i" for i
    proof -
      have i: "8 * Suc i + 7 = 8 + (8 * i + 7)" by simp
      show ?thesis
        unfolding i d unfolding bytes_val.simps
        by (simp only: bit_high [OF c] bit_high [OF uint_byte_bounds])
    qed
    ultimately show ?thesis
      using split Cons.IH False by (auto simp del: bytes_val.simps rep_val.simps)
  qed
qed simp

subsection \<open>What the masks decide\<close>

lemma highs_or:
  "highs = push_bit 7 1 OR (push_bit 15 1 OR (push_bit 23 1 OR (push_bit 31 1 OR
     (push_bit 39 1 OR (push_bit 47 1 OR (push_bit 55 1 OR push_bit 63 1))))))"
  by (simp add: highs_def)

lemma bit_one_at: "j < 64 \<Longrightarrow> bit (push_bit j (1 :: 64 word)) n \<longleftrightarrow> n = j"
  by (auto simp: bit_simps)

lemma ex_less_8:
  "(\<exists>i < (8::nat). P i) \<longleftrightarrow> P 0 \<or> P 1 \<or> P 2 \<or> P 3 \<or> P 4 \<or> P 5 \<or> P 6 \<or> P 7"
  by (auto simp: numeral_eq_Suc less_Suc_eq)

lemma bit_highs: "bit highs n \<longleftrightarrow> (\<exists>i < 8. n = 8 * i + 7)"
proof -
  have b: "(7::nat) < 64" "(15::nat) < 64" "(23::nat) < 64" "(31::nat) < 64" "(39::nat) < 64"
      "(47::nat) < 64" "(55::nat) < 64" "(63::nat) < 64" by simp_all
  have "bit highs n \<longleftrightarrow> n = 7 \<or> n = 15 \<or> n = 23 \<or> n = 31 \<or> n = 39 \<or> n = 47 \<or> n = 55 \<or> n = 63"
    unfolding highs_or bit_or_iff
    by (simp only: bit_one_at [OF b(1)] bit_one_at [OF b(2)] bit_one_at [OF b(3)] bit_one_at [OF b(4)]
        bit_one_at [OF b(5)] bit_one_at [OF b(6)] bit_one_at [OF b(7)] bit_one_at [OF b(8)])
  also have "\<dots> \<longleftrightarrow> (\<exists>i < 8. n = 8 * i + 7)"
    by (simp add: ex_less_8)
  finally show ?thesis .
qed

lemma and_highs: "x AND highs \<noteq> 0 \<longleftrightarrow> (\<exists>i < 8. bit x (8 * i + 7))"
proof
  assume "x AND highs \<noteq> 0"
  then obtain n where "bit (x AND highs) n"
    by (metis bit_0_eq bit_eqI bot_apply bot_bool_def)
  then show "\<exists>i < 8. bit x (8 * i + 7)"
    by (auto simp: bit_and_iff bit_highs)
next
  assume "\<exists>i < 8. bit x (8 * i + 7)"
  then obtain i where "bit (x AND highs) (8 * i + 7)"
    by (auto simp: bit_and_iff bit_highs)
  then show "x AND highs \<noteq> 0" by auto
qed

lemma bit_sub_word: "n < 64 \<Longrightarrow> bit (v - w :: 64 word) n \<longleftrightarrow> bit (uint v - uint w) n"
proof -
  assume n: "n < 64"
  have "v - w = word_of_int (uint v - uint w)" by simp
  then have "bit (v - w) n = bit (word_of_int (uint v - uint w) :: 64 word) n" by (rule arg_cong)
  with n show ?thesis by (simp only: bit_word_of_int_iff) simp
qed

lemma ones_mult: "1 \<le> k \<Longrightarrow> k \<le> 128 \<Longrightarrow> uint (ones * word_of_int k) = rep_val k 8"
proof -
  assume k: "1 \<le> k" "k \<le> 128"
  have r: "rep_val k 8 = 72340172838076673 * k"
    by (simp add: numeral_eq_Suc)
  have "uint (word_of_int k :: 64 word) = k"
    using k by (simp add: uint_word_of_int)
  then show ?thesis
    using k r by (simp add: ones_def uint_word_ariths)
qed

lemma bit_load_le: "length bs = 8 \<Longrightarrow> i < 8 \<Longrightarrow> bit (load_le bs) (8 * i + 7) \<longleftrightarrow> bit (bytes_val bs) (8 * i + 7)"
  using uint_load_le [of bs] bit_uint_iff [of "load_le bs" "8 * i + 7"] by simp

lemma has_less_iff:
  assumes "length bs = 8" and "1 \<le> k" and "k \<le> 128"
  shows "has_less (load_le bs) (word_of_int k) \<longleftrightarrow> (\<exists>b \<in> set bs. uint b < k)"
proof -
  let ?x = "load_le bs" and ?v = "bytes_val bs"
  have v: "uint ?x = ?v" using uint_load_le assms(1) by simp
  have "has_less ?x (word_of_int k) \<longleftrightarrow>
      (\<exists>i < 8. bit ((?x - ones * word_of_int k) AND NOT ?x) (8 * i + 7))"
    unfolding has_less_def by (rule and_highs)
  also have "\<dots> \<longleftrightarrow> (\<exists>i < 8. bit (?x - ones * word_of_int k) (8 * i + 7) \<and> \<not> bit ?x (8 * i + 7))"
    by (auto simp: bit_simps)
  also have "\<dots> \<longleftrightarrow> (\<exists>i < 8. bit (?v - rep_val k 8) (8 * i + 7) \<and> \<not> bit ?v (8 * i + 7))"
    using ones_mult [OF assms(2,3)] v bit_load_le [OF assms(1)] by (auto simp: bit_sub_word)
  also have "\<dots> \<longleftrightarrow> (\<exists>b \<in> set bs. uint b < k)"
    using borrow_bits [OF assms(2,3), of bs] assms(1) by simp
  finally show ?thesis .
qed

lemma bit_bytes_val: "i < length bs \<Longrightarrow> bit (bytes_val bs) (8 * i + 7) \<longleftrightarrow> 0x80 \<le> bs ! i"
proof (induction bs arbitrary: i)
  case (Cons b r)
  show ?case
  proof (cases i)
    case 0
    have "bit (uint b + 256 * bytes_val r) (7::nat) \<longleftrightarrow> 0x80 \<le> b"
      by (simp only: bit_low [OF uint_byte_bounds] word_le_def) simp
    with 0 show ?thesis by simp
  next
    case (Suc j)
    then have i: "8 * i + 7 = 8 + (8 * j + 7)" by simp
    show ?thesis
      unfolding i bytes_val.simps bit_high [OF uint_byte_bounds] using Cons Suc by simp
  qed
qed simp

lemma load_highs: "length bs = 8 \<Longrightarrow> load_le bs AND highs \<noteq> 0 \<longleftrightarrow> (\<exists>b \<in> set bs. 0x80 \<le> b)"
  unfolding and_highs by (auto simp: bit_load_le bit_bytes_val in_set_conv_nth Bex_def)

subsection \<open>A byte equal to a given one\<close>

lemma load_le_xor:
  "length bs = length cs \<Longrightarrow> load_le bs XOR load_le cs = load_le (map2 (XOR) bs cs)"
proof (induction bs cs rule: list_induct2)
  case (Cons b bs c cs)
  have "(ucast b OR push_bit 8 (load_le bs)) XOR (ucast c OR push_bit 8 (load_le cs))
      = ucast (b XOR c) OR push_bit 8 (load_le bs XOR load_le cs)"
    by (rule bit_word_eqI) (auto simp: bit_simps dest: bit_imp_le_length)
  with Cons.IH show ?case by simp
qed simp

definition rep8 :: "byte \<Rightarrow> bytes" where
  "rep8 q = [q, q, q, q, q, q, q, q]"

lemma has_byte_iff:
  assumes "length bs = 8" and "ones * ucast q = load_le (rep8 q)"
  shows "has_byte (load_le bs) (ucast q) \<longleftrightarrow> q \<in> set bs"
proof -
  let ?xs = "map2 (XOR) bs (rep8 q)"
  have "load_le bs XOR (ones * ucast q) = load_le ?xs"
    using assms(1) by (simp only: assms(2)) (rule load_le_xor, simp add: rep8_def)
  then have "has_byte (load_le bs) (ucast q) \<longleftrightarrow> has_less (load_le ?xs) (word_of_int 1)"
    by (simp only: has_byte_def has_less_def Let_def) simp
  also have "\<dots> \<longleftrightarrow> (\<exists>b \<in> set ?xs. uint b < 1)"
    using assms(1) by (subst has_less_iff) (simp_all add: rep8_def)
  also have "\<dots> \<longleftrightarrow> (\<exists>b \<in> set bs. b XOR q = 0)"
  proof -
    have "?xs = map (\<lambda>b. b XOR q) bs"
      using assms(1) by (auto simp: rep8_def length_Suc_conv numeral_eq_Suc)
    moreover have "uint x < 1 \<longleftrightarrow> x = 0" for x :: byte
      unfolding word_uint_eq_iff unsigned_0
      by (rule iffI; insert uint_byte_bounds(1) [of x]; linarith)
    ultimately show ?thesis by (simp add: image_iff eq_commute [of 0])
  qed
  also have "\<dots> \<longleftrightarrow> q \<in> set bs"
    by (metis xor_self_eq xor.assoc xor.right_neutral xor.left_neutral)
  finally show ?thesis .
qed

end
