(* ===== verification/Utf8.thy ===== *)
theory Utf8
  imports Swar
begin

text \<open>
  UTF-8 validation and sanitising (fastjson.c, lines 206 to 406).

  The first part is the abstract side: \<open>utf8_next\<close> is Table 3-7 of the Unicode standard
  (well-formed byte sequences) as a function on a suffix of the input, and \<open>utf8_wf\<close> the
  strings that split into such sequences. The model of the code follows: the byte-pattern test
  \<open>fastjson_byte_is_valid_utf8_start\<close>, the scanner \<open>fastjson_utf8_well_formed\<close> with its eight-byte
  ASCII skip, and the rewriting \<open>fastjson_sanitize_utf8\<close> with its two modes.
\<close>

subsection \<open>The standard's table of well-formed sequences\<close>

definition utf8_trail :: "byte \<Rightarrow> bool" where
  "utf8_trail c \<longleftrightarrow> 0x80 \<le> c \<and> c \<le> 0xBF"

definition utf8_lead :: "byte \<Rightarrow> bool" where
  "utf8_lead c \<longleftrightarrow> c < 0x80 \<or> (0xC2 \<le> c \<and> c \<le> 0xF4)"

definition second_ok :: "byte \<Rightarrow> byte \<Rightarrow> bool" where
  "second_ok a b \<longleftrightarrow> utf8_trail b \<and> (a = 0xE0 \<longrightarrow> 0xA0 \<le> b) \<and> (a = 0xED \<longrightarrow> b \<le> 0x9F)
     \<and> (a = 0xF0 \<longrightarrow> 0x90 \<le> b) \<and> (a = 0xF4 \<longrightarrow> b \<le> 0x8F)"

text \<open>The trailing bytes after a lead byte \<open>a\<close>, for the two-, three- and four-byte forms.\<close>

definition trail2 :: "byte \<Rightarrow> bytes \<Rightarrow> bool" where
  "trail2 a r \<longleftrightarrow> 1 \<le> length r \<and> second_ok a (r ! 0)"

definition trail3 :: "byte \<Rightarrow> bytes \<Rightarrow> bool" where
  "trail3 a r \<longleftrightarrow> 2 \<le> length r \<and> second_ok a (r ! 0) \<and> utf8_trail (r ! 1)"

definition trail4 :: "byte \<Rightarrow> bytes \<Rightarrow> bool" where
  "trail4 a r \<longleftrightarrow> 3 \<le> length r \<and> second_ok a (r ! 0) \<and> utf8_trail (r ! 1) \<and> utf8_trail (r ! 2)"

lemmas trail_defs = trail2_def trail3_def trail4_def

lemma trail_length:
  "trail2 a r \<Longrightarrow> 1 \<le> length r" "trail3 a r \<Longrightarrow> 2 \<le> length r" "trail4 a r \<Longrightarrow> 3 \<le> length r"
  by (simp_all add: trail_defs)

lemma trail_append:
  "trail2 a r \<Longrightarrow> trail2 a (r @ t)" "trail3 a r \<Longrightarrow> trail3 a (r @ t)"
  "trail4 a r \<Longrightarrow> trail4 a (r @ t)"
  by (auto simp: trail_defs nth_append)

lemma trail_take:
  "trail2 a r \<Longrightarrow> 1 \<le> n \<Longrightarrow> trail2 a (take n r)"
  "trail3 a r \<Longrightarrow> 2 \<le> n \<Longrightarrow> trail3 a (take n r)"
  "trail4 a r \<Longrightarrow> 3 \<le> n \<Longrightarrow> trail4 a (take n r)"
  by (auto simp: trail_defs)

text \<open>The length of the well-formed sequence at the head of the input, 0 if there is none.\<close>

fun utf8_next :: "bytes \<Rightarrow> nat" where
  "utf8_next [] = 0"
| "utf8_next (a # r) =
     (if a < 0x80 then 1
      else if a < 0xC2 then 0
      else if a < 0xE0 then (if trail2 a r then 2 else 0)
      else if a < 0xF0 then (if trail3 a r then 3 else 0)
      else if a < 0xF5 then (if trail4 a r then 4 else 0)
      else 0)"

lemma utf8_next_le: "utf8_next r \<le> length r"
  by (cases r) (auto dest: trail_length)

lemma utf8_next_le4: "utf8_next r \<le> 4"
  by (cases r) auto

function utf8_wf :: "bytes \<Rightarrow> bool" where
  "utf8_wf r = (if r = [] then True
     else if utf8_next r = 0 then False else utf8_wf (drop (utf8_next r) r))"
  by pat_completeness auto
termination
  by (relation "measure length") (auto simp: le_neq_implies_less)

declare utf8_wf.simps [simp del]

lemma utf8_wf_Nil [simp]: "utf8_wf []"
  by (simp add: utf8_wf.simps)

lemma utf8_wf_step: "utf8_next r \<noteq> 0 \<Longrightarrow> utf8_wf r = utf8_wf (drop (utf8_next r) r)"
  by (subst utf8_wf.simps) (cases r, auto)

lemma utf8_wf_stuck: "r \<noteq> [] \<Longrightarrow> utf8_next r = 0 \<Longrightarrow> \<not> utf8_wf r"
  by (subst utf8_wf.simps) simp

lemma utf8_wf_ascii [simp]: "a < 0x80 \<Longrightarrow> utf8_wf (a # r) = utf8_wf r"
  by (simp add: utf8_wf_step)

lemma utf8_wf_cases:
  assumes "utf8_wf r" and "r \<noteq> []"
  shows "utf8_next r \<noteq> 0" and "utf8_wf (drop (utf8_next r) r)"
  using assms by (auto simp: utf8_wf.simps [of r] split: if_splits)

text \<open>A sequence is recognised whatever follows it.\<close>

lemma utf8_next_append: "utf8_next r \<noteq> 0 \<Longrightarrow> utf8_next (r @ t) = utf8_next r"
  by (cases r) (auto simp: trail_append split: if_split_asm)

lemma utf8_next_take:
  "utf8_next r \<noteq> 0 \<Longrightarrow> utf8_next r \<le> n \<Longrightarrow> utf8_next (take n r) = utf8_next r"
  by (cases r; cases n) (auto simp: trail_take split: if_split_asm)

lemma utf8_wf_append: "utf8_wf r \<Longrightarrow> utf8_wf (r @ t) = utf8_wf t"
proof (induction r rule: utf8_wf.induct)
  case (1 r)
  show ?case
  proof (cases "r = []")
    case False
    with "1.prems" have n: "utf8_next r \<noteq> 0" and w: "utf8_wf (drop (utf8_next r) r)"
      by (rule utf8_wf_cases)+
    have "utf8_wf (r @ t) = utf8_wf (drop (utf8_next r) r @ t)"
      using n utf8_next_le [of r] by (simp add: utf8_wf_step [of "r @ t"] utf8_next_append)
    with "1.IH" [OF False n w] show ?thesis by simp
  qed simp
qed

subsection \<open>Code points of the byte patterns\<close>

text \<open>The \<open>unsigned int cp\<close> the code assembles from two, three and four bytes.\<close>

definition cp2 :: "byte \<Rightarrow> byte \<Rightarrow> 32 word" where
  "cp2 c d = push_bit 6 (ucast c AND 0x1f) OR (ucast d AND 0x3f)"

definition cp3 :: "byte \<Rightarrow> byte \<Rightarrow> byte \<Rightarrow> 32 word" where
  "cp3 c d e = push_bit 12 (ucast c AND 0x0f) OR (push_bit 6 (ucast d AND 0x3f) OR (ucast e AND 0x3f))"

definition cp4 :: "byte \<Rightarrow> byte \<Rightarrow> byte \<Rightarrow> byte \<Rightarrow> 32 word" where
  "cp4 c d e f = push_bit 18 (ucast c AND 0x07) OR (push_bit 12 (ucast d AND 0x3f)
     OR (push_bit 6 (ucast e AND 0x3f) OR (ucast f AND 0x3f)))"

lemma unat_cp2: "unat (cp2 c d) = 64 * (unat c mod 32) + unat d mod 64"
  by (simp only: cp2_def unsigned_or_eq unat_push_bit32 unat_ucast32_masks)
    (simp add: nat_or_shift6)

lemma unat_cp3: "unat (cp3 c d e) = 4096 * (unat c mod 16) + (64 * (unat d mod 64) + unat e mod 64)"
proof -
  have "64 * (unat d mod 64) + unat e mod 64 < 4096"
    using mod_less_divisor [of 64 "unat d"] mod_less_divisor [of 64 "unat e"] by linarith
  then show ?thesis
    by (simp only: cp3_def unsigned_or_eq unat_push_bit32 unat_ucast32_masks)
      (simp add: nat_or_shift6 nat_or_shift12)
qed

lemma unat_cp4:
  "unat (cp4 c d e f) = 262144 * (unat c mod 8) + (4096 * (unat d mod 64) +
     (64 * (unat e mod 64) + unat f mod 64))"
proof -
  have a: "64 * (unat e mod 64) + unat f mod 64 < 4096"
    using mod_less_divisor [of 64 "unat e"] mod_less_divisor [of 64 "unat f"] by linarith
  then have "4096 * (unat d mod 64) + (64 * (unat e mod 64) + unat f mod 64) < 262144"
    using mod_less_divisor [of 64 "unat d"] by linarith
  with a show ?thesis
    by (simp only: cp4_def unsigned_or_eq unat_push_bit32 unat_ucast32_masks)
      (simp add: nat_or_shift6 nat_or_shift12 nat_or_shift18)
qed

lemma mod_trail:
  "128 \<le> n \<Longrightarrow> n \<le> 191 \<Longrightarrow> n mod 64 = n - (128::nat)"
  "192 \<le> n \<Longrightarrow> n < 224 \<Longrightarrow> n mod 32 = n - (192::nat)"
  "224 \<le> n \<Longrightarrow> n < 240 \<Longrightarrow> n mod 16 = n - (224::nat)"
  "240 \<le> n \<Longrightarrow> n < 248 \<Longrightarrow> n mod 8 = n - (240::nat)"
  by (rule mod_nat_eqI; simp)+

lemma cp2_range:
  assumes "0xC2 \<le> c" and "c < 0xE0" and "utf8_trail d"
  shows "\<not> cp2 c d < 0x80"
proof -
  have "2 \<le> unat c mod 32"
    using assms by (simp add: byte_arith mod_trail)
  then show ?thesis
    by (simp add: word_less_nat_alt unat_cp2)
qed

lemma second_ok_2: "0xC2 \<le> c \<Longrightarrow> c < 0xE0 \<Longrightarrow> second_ok c d = utf8_trail d"
  by (auto simp: byte_arith second_ok_def)

lemma second_ok_3:
  assumes "0xE0 \<le> c" and "c < 0xF0" and "utf8_trail d" and "utf8_trail e"
  shows "second_ok c d \<longleftrightarrow> \<not> cp3 c d e < 0x800 \<and> \<not> (0xD800 \<le> cp3 c d e \<and> cp3 c d e \<le> 0xDFFF)"
proof -
  define x y z where xyz: "x = unat c - 224" "y = unat d - 128" "z = unat e - 128"
  from assms have b: "unat c = 224 + x" "unat d = 128 + y" "unat e = 128 + z"
      "x < 16" "y < 64" "z < 64"
    by (auto simp: byte_arith utf8_trail_def xyz)
  have "unat (cp3 c d e) = 4096 * x + 64 * y + z"
    using b(4-6) by (simp add: unat_cp3 b(1-3) mod_trail)
  moreover have "second_ok c d \<longleftrightarrow> (x = 0 \<longrightarrow> 32 \<le> y) \<and> (x = 13 \<longrightarrow> y \<le> 31)"
    using assms(3) b(4-6) by (auto simp: second_ok_def byte_arith b(1-3))
  moreover consider "x = 0" | "0 < x" "x < 13" | "x = 13" | "13 < x"
    by linarith
  then have "(x = 0 \<longrightarrow> 32 \<le> y) \<and> (x = 13 \<longrightarrow> y \<le> 31) \<longleftrightarrow>
      2048 \<le> 4096 * x + 64 * y + z \<and> \<not> (55296 \<le> 4096 * x + 64 * y + z \<and> 4096 * x + 64 * y + z \<le> 57343)"
    by cases (use b(4-6) in auto)
  ultimately show ?thesis
    by (simp add: word_le_nat_alt word_less_nat_alt not_less)
qed

lemma second_ok_4:
  assumes "0xF0 \<le> c" and "c < 0xF5" and "utf8_trail d" and "utf8_trail e" and "utf8_trail f"
  shows "second_ok c d \<longleftrightarrow> \<not> (cp4 c d e f < 0x10000 \<or> cp4 c d e f > 0x10FFFF)"
proof -
  define x y z w where xyz: "x = unat c - 240" "y = unat d - 128" "z = unat e - 128" "w = unat f - 128"
  from assms have b: "unat c = 240 + x" "unat d = 128 + y" "unat e = 128 + z" "unat f = 128 + w"
      "x < 5" "y < 64" "z < 64" "w < 64"
    by (auto simp: byte_arith utf8_trail_def xyz)
  have "unat (cp4 c d e f) = 262144 * x + 4096 * y + 64 * z + w"
    using b(5-8) by (simp add: unat_cp4 b(1-4) mod_trail)
  moreover have "second_ok c d \<longleftrightarrow> (x = 0 \<longrightarrow> 16 \<le> y) \<and> (x = 4 \<longrightarrow> y \<le> 15)"
    using assms(3) b(5-8) by (auto simp: second_ok_def byte_arith b(1-4))
  moreover consider "x = 0" | "0 < x" "x < 4" | "x = 4"
    using b(5) by linarith
  then have "(x = 0 \<longrightarrow> 16 \<le> y) \<and> (x = 4 \<longrightarrow> y \<le> 15) \<longleftrightarrow>
      65536 \<le> 262144 * x + 4096 * y + 64 * z + w \<and> 262144 * x + 4096 * y + 64 * z + w \<le> 1114111"
    by cases (use b(6-8) in auto)
  ultimately show ?thesis
    by (simp add: word_le_nat_alt word_less_nat_alt not_less)
qed

subsection \<open>The code: one sequence at a position\<close>

text \<open>\<open>fastjson_byte_is_valid_utf8_start(s, len, pos)\<close>.\<close>

definition fastjson_byte_is_valid_utf8_start :: "bytes \<Rightarrow> nat \<Rightarrow> bool" where
  "fastjson_byte_is_valid_utf8_start s pos =
    (if length s \<le> pos then False
     else let c0 = s ! pos in
       if c0 < 0x80 then True
       else if c0 < 0xC2 then False
       else case (if c0 < 0xE0 then Some (1::nat)
                  else if c0 < 0xF0 then Some 2
                  else if c0 < 0xF5 then Some 3
                  else None) of
         None \<Rightarrow> False
       | Some need \<Rightarrow>
           if length s \<le> pos + need then False
           else if \<not> list_all (\<lambda>i. (s ! (pos + i)) AND 0xC0 = 0x80) [1..<need + 1] then False
           else let c1 = s ! (pos + 1) in
             if need = 2 then
               (if c0 = 0xE0 \<and> c1 < 0xA0 then False
                else if c0 = 0xED \<and> c1 \<ge> 0xA0 then False else True)
             else if need = 3 then
               (if c0 = 0xF0 \<and> c1 < 0x90 then False
                else if c0 = 0xF4 \<and> c1 \<ge> 0x90 then False else True)
             else True)"

subsection \<open>The code: the validating scan\<close>

text \<open>The bulk skip: eight bytes at a time while none has its top bit set.\<close>

function utf8_ascii_skip :: "bytes \<Rightarrow> bytes" where
  "utf8_ascii_skip r =
    (if 8 \<le> length r then
       (if load_le (take 8 r) AND highs \<noteq> 0 then r else utf8_ascii_skip (drop 8 r))
     else r)"
  by pat_completeness auto
termination
  by (relation "measure length") auto

declare utf8_ascii_skip.simps [simp del]

text \<open>One turn of the main loop: the bytes the sequence at the head occupies, or rejection.\<close>

definition wf_step :: "bytes \<Rightarrow> nat option" where
  "wf_step r =
    (let c = r ! 0; avail = length r in
     if c < 0x80 then Some 1
     else if c < 0xC2 then None
     else if c < 0xE0 then
       (if avail \<le> 1 then None
        else if \<not> utf8_trail (r ! 1) then None
        else if cp2 c (r ! 1) < 0x80 then None
        else Some 2)
     else if c < 0xF0 then
       (if avail < 3 then None
        else if \<not> utf8_trail (r ! 1) \<or> \<not> utf8_trail (r ! 2) then None
        else let cp = cp3 c (r ! 1) (r ! 2) in
          if cp < 0x800 then None
          else if 0xD800 \<le> cp \<and> cp \<le> 0xDFFF then None
          else Some 3)
     else if c < 0xF5 then
       (if avail < 4 then None
        else if \<not> utf8_trail (r ! 1) \<or> \<not> utf8_trail (r ! 2) \<or> \<not> utf8_trail (r ! 3) then None
        else let cp = cp4 c (r ! 1) (r ! 2) (r ! 3) in
          if cp < 0x10000 \<or> cp > 0x10FFFF then None
          else Some 4)
     else None)"

lemma wf_step_positive: "wf_step r = Some n \<Longrightarrow> 0 < n"
  by (auto simp: wf_step_def Let_def split: if_splits)

function utf8_wf_loop :: "bytes \<Rightarrow> bool" where
  "utf8_wf_loop r =
    (if r = [] then True
     else case wf_step r of None \<Rightarrow> False | Some n \<Rightarrow> utf8_wf_loop (drop n r))"
  by pat_completeness auto
termination
  by (relation "measure length") (auto dest: wf_step_positive)

declare utf8_wf_loop.simps [simp del]

definition fastjson_utf8_well_formed :: "bytes \<Rightarrow> bool" where
  "fastjson_utf8_well_formed s = utf8_wf_loop (utf8_ascii_skip s)"

subsection \<open>The code: sanitising\<close>

type_synonym zend_long = "64 word"

definition has_flag :: "zend_long \<Rightarrow> zend_long \<Rightarrow> bool" where
  "has_flag flags m \<longleftrightarrow> flags AND m \<noteq> 0"

definition FASTJSON_INVALID_UTF8_IGNORE :: zend_long where
  "FASTJSON_INVALID_UTF8_IGNORE = 0x100000"
definition FASTJSON_INVALID_UTF8_SUBSTITUTE :: zend_long where
  "FASTJSON_INVALID_UTF8_SUBSTITUTE = 0x200000"

datatype fj_sanitize_mode = FJ_SAN_ENCODE | FJ_SAN_DECODE

text \<open>One turn of the loop: how many bytes to advance and whether they are a good sequence.\<close>

definition san_step :: "bytes \<Rightarrow> nat \<times> bool" where
  "san_step r =
    (let c = r ! 0; avail = length r in
     if c < 0x80 then (1, True)
     else if c < 0xC2 then (1, False)
     else if c < 0xE0 then
       (if avail \<le> 1 \<or> \<not> utf8_trail (r ! 1) then
          (if avail \<le> 1 \<or> utf8_lead (r ! 1) then 1 else 2, False)
        else if cp2 c (r ! 1) < 0x80 then (2, False)
        else (2, True))
     else if c < 0xF0 then
       (if avail < 3 \<or> \<not> utf8_trail (r ! 1) \<or> \<not> utf8_trail (r ! 2) then
          (if avail < 2 \<or> utf8_lead (r ! 1) then 1
           else if avail < 3 \<or> utf8_lead (r ! 2) then 2
           else 3, False)
        else let cp = cp3 c (r ! 1) (r ! 2) in
          if cp < 0x800 then (3, False)
          else if 0xD800 \<le> cp \<and> cp \<le> 0xDFFF then (3, False)
          else (3, True))
     else if c < 0xF5 then
       (if avail < 4 \<or> \<not> utf8_trail (r ! 1) \<or> \<not> utf8_trail (r ! 2) \<or> \<not> utf8_trail (r ! 3) then
          (if avail < 2 \<or> utf8_lead (r ! 1) then 1
           else if avail < 3 \<or> utf8_lead (r ! 2) then 2
           else if avail < 4 \<or> utf8_lead (r ! 3) then 3
           else 4, False)
        else let cp = cp4 c (r ! 1) (r ! 2) (r ! 3) in
          if cp < 0x10000 \<or> cp > 0x10FFFF then (4, False)
          else (4, True))
     else (1, False))"

definition replacement_char :: bytes where
  "replacement_char = [0xEF, 0xBF, 0xBD]"

lemma san_step_positive: "0 < fst (san_step r)"
  by (auto simp: san_step_def Let_def)

function sanitize_loop :: "bool \<Rightarrow> bool \<Rightarrow> bytes \<Rightarrow> bytes" where
  "sanitize_loop substitute encode_advance r =
    (if r = [] then []
     else let adv = fst (san_step r); good = snd (san_step r) in
       if good then take adv r @ sanitize_loop substitute encode_advance (drop adv r)
       else let adv' = (if \<not> encode_advance then 1 else adv) in
         (if substitute then replacement_char else [])
           @ sanitize_loop substitute encode_advance (drop adv' r))"
  by pat_completeness auto
termination
  by (relation "measure (\<lambda>(_, _, r). length r)") (use san_step_positive in \<open>auto simp: Let_def\<close>)

declare sanitize_loop.simps [simp del]

definition fastjson_sanitize_utf8 :: "bytes \<Rightarrow> zend_long \<Rightarrow> fj_sanitize_mode \<Rightarrow> bytes" where
  "fastjson_sanitize_utf8 s flags mode =
    (let has_ignore = has_flag flags FASTJSON_INVALID_UTF8_IGNORE;
         has_subst = has_flag flags FASTJSON_INVALID_UTF8_SUBSTITUTE;
         substitute = (if mode = FJ_SAN_DECODE then has_subst else has_subst \<and> \<not> has_ignore);
         encode_advance = (mode = FJ_SAN_ENCODE)
     in sanitize_loop substitute encode_advance s)"

subsection \<open>The three tests agree with the table\<close>

lemma second_ok_trail: "second_ok a d \<Longrightarrow> utf8_trail d"
  by (simp add: second_ok_def)

lemma trail2_code:
  "0xC2 \<le> a \<Longrightarrow> a < 0xE0 \<Longrightarrow> trail2 a t \<longleftrightarrow> t \<noteq> [] \<and> utf8_trail (t ! 0)"
  by (auto simp: trail2_def second_ok_2 Suc_le_eq)

lemma trail3_code:
  "0xE0 \<le> a \<Longrightarrow> a < 0xF0 \<Longrightarrow> trail3 a t \<longleftrightarrow>
    2 \<le> length t \<and> utf8_trail (t ! 0) \<and> utf8_trail (t ! 1) \<and>
    \<not> cp3 a (t ! 0) (t ! 1) < 0x800 \<and>
    \<not> (0xD800 \<le> cp3 a (t ! 0) (t ! 1) \<and> cp3 a (t ! 0) (t ! 1) \<le> 0xDFFF)"
  using second_ok_3 [of a "t ! 0" "t ! 1"] second_ok_trail [of a "t ! 0"]
  unfolding trail3_def by blast

lemma trail4_code:
  "0xF0 \<le> a \<Longrightarrow> a < 0xF5 \<Longrightarrow> trail4 a t \<longleftrightarrow>
    3 \<le> length t \<and> utf8_trail (t ! 0) \<and> utf8_trail (t ! 1) \<and> utf8_trail (t ! 2) \<and>
    \<not> (cp4 a (t ! 0) (t ! 1) (t ! 2) < 0x10000 \<or> cp4 a (t ! 0) (t ! 1) (t ! 2) > 0x10FFFF)"
  using second_ok_4 [of a "t ! 0" "t ! 1" "t ! 2"] second_ok_trail [of a "t ! 0"]
  unfolding trail4_def by blast

lemma lead_classes:
  fixes a :: byte
  obtains (low) "a < 0x80" | (bad) "\<not> a < 0x80" "a < 0xC2"
  | (two) "\<not> a < 0x80" "\<not> a < 0xC2" "0xC2 \<le> a" "a < 0xE0"
  | (three) "\<not> a < 0x80" "\<not> a < 0xC2" "\<not> a < 0xE0" "0xE0 \<le> a" "a < 0xF0"
  | (four) "\<not> a < 0x80" "\<not> a < 0xC2" "\<not> a < 0xE0" "\<not> a < 0xF0" "0xF0 \<le> a" "a < 0xF5"
  | (high) "\<not> a < 0x80" "\<not> a < 0xC2" "\<not> a < 0xE0" "\<not> a < 0xF0" "\<not> a < 0xF5"
proof -
  have "a < 0x80 \<or> (\<not> a < 0x80 \<and> a < 0xC2) \<or> (\<not> a < 0x80 \<and> \<not> a < 0xC2 \<and> 0xC2 \<le> a \<and> a < 0xE0)
      \<or> (\<not> a < 0x80 \<and> \<not> a < 0xC2 \<and> \<not> a < 0xE0 \<and> 0xE0 \<le> a \<and> a < 0xF0)
      \<or> (\<not> a < 0x80 \<and> \<not> a < 0xC2 \<and> \<not> a < 0xE0 \<and> \<not> a < 0xF0 \<and> 0xF0 \<le> a \<and> a < 0xF5)
      \<or> (\<not> a < 0x80 \<and> \<not> a < 0xC2 \<and> \<not> a < 0xE0 \<and> \<not> a < 0xF0 \<and> \<not> a < 0xF5)"
    by (cases "a < 0x80"; cases "a < 0xC2"; cases "a < 0xE0"; cases "a < 0xF0"; cases "a < 0xF5")
      (auto simp: byte_arith)
  then show thesis using that by blast
qed

lemma wf_step_next:
  assumes "r \<noteq> []"
  shows "wf_step r = (if utf8_next r = 0 then None else Some (utf8_next r))"
proof -
  obtain a t where r: "r = a # t" using assms by (cases r) auto
  have n: "r ! Suc 0 = t ! 0" "r ! 2 = t ! 1" "r ! 3 = t ! 2" "length r = Suc (length t)"
    by (simp_all add: r)
  show ?thesis
    by (cases a rule: lead_classes)
      (auto simp: r wf_step_def Let_def trail2_code trail3_code trail4_code cp2_range)
qed

lemma san_step_next:
  assumes "r \<noteq> []"
  shows "snd (san_step r) \<longleftrightarrow> utf8_next r \<noteq> 0"
    and "snd (san_step r) \<Longrightarrow> fst (san_step r) = utf8_next r"
    and "fst (san_step r) \<le> length r"
proof -
  obtain a t where r: "r = a # t" using assms by (cases r) auto
  have "(snd (san_step r) \<longleftrightarrow> utf8_next r \<noteq> 0) \<and>
      (snd (san_step r) \<longrightarrow> fst (san_step r) = utf8_next r) \<and> fst (san_step r) \<le> length r"
    by (cases a rule: lead_classes)
      (simp_all add: r san_step_def Let_def trail2_code trail3_code trail4_code cp2_range Suc_le_eq)
  then show "snd (san_step r) \<longleftrightarrow> utf8_next r \<noteq> 0"
    and "snd (san_step r) \<Longrightarrow> fst (san_step r) = utf8_next r"
    and "fst (san_step r) \<le> length r"
    by blast+
qed

text \<open>The continuation test by mask.\<close>

lemma trail_mask: "(c AND 0xC0 = 0x80) \<longleftrightarrow> utf8_trail c"
proof -
  have "unat c div 64 mod 4 = unat c div 64"
    using unat_byte_less [of c] by (simp add: div_less_iff_less_mult)
  then show ?thesis
    using unat_byte_less [of c]
    by (simp add: byte_arith utf8_trail_def del: unat_byte_less) linarith
qed

lemma second_ok_bytes3:
  "0xE0 \<le> a \<Longrightarrow> a < 0xF0 \<Longrightarrow>
   second_ok a b \<longleftrightarrow> utf8_trail b \<and> (a = 0xE0 \<longrightarrow> \<not> b < 0xA0) \<and> (a = 0xED \<longrightarrow> \<not> 0xA0 \<le> b)"
  by (auto simp: second_ok_def byte_arith)

lemma second_ok_bytes4:
  "0xF0 \<le> a \<Longrightarrow> a < 0xF5 \<Longrightarrow>
   second_ok a b \<longleftrightarrow> utf8_trail b \<and> (a = 0xF0 \<longrightarrow> \<not> b < 0x90) \<and> (a = 0xF4 \<longrightarrow> \<not> 0x90 \<le> b)"
  by (auto simp: second_ok_def byte_arith)

lemma start_next: "fastjson_byte_is_valid_utf8_start s pos \<longleftrightarrow> utf8_next (drop pos s) \<noteq> 0"
proof (cases "length s \<le> pos")
  case True
  then show ?thesis by (simp add: fastjson_byte_is_valid_utf8_start_def)
next
  case False
  then obtain a t where t: "drop pos s = a # t" by (cases "drop pos s") auto
  then have a: "s ! pos = a"
    using False by (metis hd_drop_conv_nth list.sel(1) not_le)
  have len: "length s = pos + Suc (length t)"
    using t False by (metis length_drop length_Cons le_add_diff_inverse not_le order.strict_implies_order)
  have nth: "s ! Suc (pos + i) = t ! i" for i
  proof -
    have "t = drop (Suc pos) s"
      using t by (metis drop_Suc tl_drop list.sel(3))
    with False show ?thesis by simp
  qed
  have n1: "s ! Suc pos = t ! 0" "s ! Suc (Suc pos) = t ! 1" "s ! (pos + 2) = t ! 1" "s ! (pos + 3) = t ! 2"
    using nth [of 0] nth [of 1] nth [of 2] by (simp_all add: numeral_eq_Suc)
  have u: "[Suc 0..<2] = [1]" "[Suc 0..<3] = [1, 2]" "[Suc 0..<4] = [1, 2, 3]"
    by (simp_all add: upt_rec)
  show ?thesis
    using False
    by (cases a rule: lead_classes)
      (simp_all add: fastjson_byte_is_valid_utf8_start_def a t len n1 u trail_mask trail_defs
        second_ok_2 second_ok_bytes3 second_ok_bytes4 Let_def Suc_le_eq)
qed

subsection \<open>A scanner that agrees with the table\<close>

text \<open>
  The interface between a one-sequence test and the loops built on it: a test that accepts exactly
  the sequences of the table, with their lengths. Any predicate that consumes the input by such a
  test is \<open>utf8_wf\<close>.
\<close>

locale utf8_scanner =
  fixes accept :: "bytes \<Rightarrow> nat option"
  assumes accept_next: "r \<noteq> [] \<Longrightarrow> accept r = (if utf8_next r = 0 then None else Some (utf8_next r))"
begin

lemma accept_None: "r \<noteq> [] \<Longrightarrow> accept r = None \<longleftrightarrow> utf8_next r = 0"
  by (simp add: accept_next)

lemma accept_Some: "r \<noteq> [] \<Longrightarrow> accept r = Some n \<longleftrightarrow> n \<noteq> 0 \<and> utf8_next r = n"
  by (auto simp: accept_next)

lemma scan_is_wf:
  assumes nil: "w []"
    and step: "\<And>r. r \<noteq> [] \<Longrightarrow> w r = (case accept r of None \<Rightarrow> False | Some n \<Rightarrow> w (drop n r))"
  shows "w r = utf8_wf r"
proof (induction r rule: utf8_wf.induct)
  case (1 r)
  show ?case
  proof (cases "r = []")
    case True
    with nil show ?thesis by simp
  next
    case False
    then show ?thesis
      using "1" [OF False] by (simp add: step accept_next utf8_wf.simps [of r])
  qed
qed

end

interpretation wf_scan: utf8_scanner wf_step
  by unfold_locales (rule wf_step_next)

interpretation san_scan: utf8_scanner "\<lambda>r. if snd (san_step r) then Some (fst (san_step r)) else None"
  by unfold_locales (simp add: san_step_next)

lemma utf8_wf_loop_wf: "utf8_wf_loop r = utf8_wf r"
  by (rule wf_scan.scan_is_wf) (simp_all add: utf8_wf_loop.simps)

lemma utf8_wf_ascii_block: "\<forall>b \<in> set p. b < 0x80 \<Longrightarrow> utf8_wf (p @ r) = utf8_wf r"
  by (induction p) simp_all

lemma utf8_ascii_skip_wf: "utf8_wf (utf8_ascii_skip r) = utf8_wf r"
proof (induction r rule: utf8_ascii_skip.induct)
  case (1 r)
  show ?case
  proof (cases "8 \<le> length r \<and> load_le (take 8 r) AND highs = 0")
    case True
    then have "\<forall>b \<in> set (take 8 r). b < 0x80"
      using load_highs [of "take 8 r"] by (auto simp: not_le)
    then have "utf8_wf (take 8 r @ drop 8 r) = utf8_wf (drop 8 r)"
      by (rule utf8_wf_ascii_block)
    with True "1" show ?thesis
      by (simp add: utf8_ascii_skip.simps [of r])
  next
    case False
    then show ?thesis by (auto simp: utf8_ascii_skip.simps [of r])
  qed
qed

lemma well_formed_wf: "fastjson_utf8_well_formed s = utf8_wf s"
  by (simp add: fastjson_utf8_well_formed_def utf8_wf_loop_wf utf8_ascii_skip_wf)

subsection \<open>Sanitising\<close>

lemma utf8_next_take_self: "utf8_next r \<noteq> 0 \<Longrightarrow> utf8_wf (take (utf8_next r) r)"
  using utf8_next_take [of r "utf8_next r"] by (subst utf8_wf_step) auto

lemma utf8_wf_replacement: "utf8_wf replacement_char"
  by (subst utf8_wf_step) (simp_all add: replacement_char_def trail_defs second_ok_def utf8_trail_def)

lemma sanitize_loop_wf: "utf8_wf (sanitize_loop sb ea r)"
proof (induction sb ea r rule: sanitize_loop.induct)
  case (1 sb ea r)
  show ?case
  proof (cases "r = []")
    case True
    then show ?thesis by (simp add: sanitize_loop.simps)
  next
    case False
    show ?thesis
    proof (cases "snd (san_step r)")
      case True
      then have "utf8_wf (take (fst (san_step r)) r)"
        using san_step_next [OF False] utf8_next_take_self by simp
      with False True "1" show ?thesis
        by (simp add: sanitize_loop.simps [of sb ea r] Let_def utf8_wf_append)
    next
      case bad: False
      with False "1" show ?thesis
        by (simp add: sanitize_loop.simps [of sb ea r] Let_def utf8_wf_append utf8_wf_replacement)
    qed
  qed
qed

lemma sanitize_loop_id: "utf8_wf r \<Longrightarrow> sanitize_loop sb ea r = r"
proof (induction sb ea r rule: sanitize_loop.induct)
  case (1 sb ea r)
  show ?case
  proof (cases "r = []")
    case True
    then show ?thesis by (simp add: sanitize_loop.simps)
  next
    case False
    with "1.prems" have n: "utf8_next r \<noteq> 0" and w: "utf8_wf (drop (utf8_next r) r)"
      by (auto dest: utf8_wf_cases)
    have g: "snd (san_step r)" "fst (san_step r) = utf8_next r"
      using n san_step_next [OF False] by blast+
    have "sanitize_loop sb ea (drop (utf8_next r) r) = drop (utf8_next r) r"
      using "1.IH"(1) [OF False refl refl g(1)] g(2) w by simp
    with False g show ?thesis
      by (simp add: sanitize_loop.simps [of sb ea r] Let_def)
  qed
qed

subsection \<open>The encoding of a scalar value\<close>

definition scalar_value :: "nat \<Rightarrow> bool" where
  "scalar_value cp \<longleftrightarrow> cp < 0xD800 \<or> (0xE000 \<le> cp \<and> cp \<le> 0x10FFFF)"

definition byte_of :: "nat \<Rightarrow> byte" where
  "byte_of n = word_of_nat n"

lemma unat_byte_of [simp]: "n < 256 \<Longrightarrow> unat (byte_of n) = n"
  by (simp add: byte_of_def unat_of_nat)

lemma byte_of_unat [simp]: "byte_of (unat b) = b"
  by (simp add: byte_of_def)

definition utf8_encode :: "nat \<Rightarrow> bytes" where
  "utf8_encode cp =
    (if cp < 0x80 then [byte_of cp]
     else if cp < 0x800 then [byte_of (0xC0 + cp div 64), byte_of (0x80 + cp mod 64)]
     else if cp < 0x10000 then
       [byte_of (0xE0 + cp div 4096), byte_of (0x80 + cp div 64 mod 64), byte_of (0x80 + cp mod 64)]
     else
       [byte_of (0xF0 + cp div 262144), byte_of (0x80 + cp div 4096 mod 64),
        byte_of (0x80 + cp div 64 mod 64), byte_of (0x80 + cp mod 64)])"

text \<open>A code point in base 64: the digits the bytes carry.\<close>

lemma div_eqI: "k * q \<le> m \<Longrightarrow> m < k * q + k \<Longrightarrow> m div k = (q::nat)"
  by (rule div_nat_eqI) simp_all

lemma mod_eqI: "m = k * q + r \<Longrightarrow> r < k \<Longrightarrow> m mod k = (r::nat)"
  by simp

lemma encode_digits:
  "x < 16 \<Longrightarrow> y < 64 \<Longrightarrow> z < 64 \<Longrightarrow> cp = 4096 * x + 64 * y + (z::nat) \<Longrightarrow>
    cp div 4096 = x \<and> cp div 64 mod 64 = y \<and> cp mod 64 = z"
  "y < 64 \<Longrightarrow> z < 64 \<Longrightarrow> w < 64 \<Longrightarrow> cp = 262144 * x + 4096 * y + 64 * z + (w::nat) \<Longrightarrow>
    cp div 262144 = x \<and> cp div 4096 mod 64 = y \<and> cp div 64 mod 64 = z \<and> cp mod 64 = w"
proof -
  assume b: "x < 16" "y < 64" "z < 64" and cp: "cp = 4096 * x + 64 * y + z"
  have "cp div 64 = 64 * x + y" unfolding cp using b by (intro div_eqI) simp_all
  moreover have "cp div 4096 = x" unfolding cp using b by (intro div_eqI) simp_all
  moreover have "cp mod 64 = z" using b cp by (intro mod_eqI [of _ _ "64 * x + y"]) simp_all
  ultimately show "cp div 4096 = x \<and> cp div 64 mod 64 = y \<and> cp mod 64 = z" using b by simp
next
  assume b: "y < 64" "z < 64" "w < 64" and cp: "cp = 262144 * x + 4096 * y + 64 * z + w"
  have "cp div 64 = 64 * (64 * x + y) + z" unfolding cp using b by (intro div_eqI) simp_all
  moreover have "(64 * (64 * x + y) + z) mod 64 = z" using b by (intro mod_eqI [of _ _ "64 * x + y"]) simp_all
  moreover have "cp div 4096 = 64 * x + y" unfolding cp using b by (intro div_eqI) simp_all
  moreover have "cp div 262144 = x" unfolding cp using b by (intro div_eqI) simp_all
  moreover have "cp mod 64 = w"
    using b cp by (intro mod_eqI [of _ _ "64 * (64 * x + y) + z"]) simp_all
  ultimately show "cp div 262144 = x \<and> cp div 4096 mod 64 = y \<and> cp div 64 mod 64 = z \<and> cp mod 64 = w"
    using b by (simp del: distrib_left add_mult_distrib2)
qed

lemma digits_exist:
  "cp < 65536 \<Longrightarrow> \<exists>x y z. x < 16 \<and> y < 64 \<and> z < 64 \<and> cp = 4096 * x + 64 * y + (z::nat)"
  "cp \<le> 1114111 \<Longrightarrow> \<exists>x y z w. x < 5 \<and> y < 64 \<and> z < 64 \<and> w < 64 \<and>
     cp = 262144 * x + 4096 * y + 64 * z + (w::nat)"
proof -
  define a where "a = cp div 64"
  define b where "b = a div 64"
  define x where "x = b div 64"
  define y where "y = b mod 64"
  define z where "z = a mod 64"
  define w where "w = cp mod 64"
  have d: "cp = 64 * a + w" "a = 64 * b + z" "b = 64 * x + y"
    by (simp_all add: a_def w_def b_def z_def x_def y_def)
  have m: "y < 64" "z < 64" "w < 64" by (simp_all add: y_def z_def w_def)
  { assume c: "cp < 65536"
    have "b < 16" "cp = 4096 * b + 64 * z + w" using c d by linarith+
    with m show "\<exists>x y z. x < 16 \<and> y < 64 \<and> z < 64 \<and> cp = 4096 * x + 64 * y + (z::nat)"
      by blast }
  { assume c: "cp \<le> 1114111"
    have "x < 5" "cp = 262144 * x + 4096 * y + 64 * z + w" using c d by linarith+
    with m show "\<exists>x y z w. x < 5 \<and> y < 64 \<and> z < 64 \<and> w < 64 \<and>
        cp = 262144 * x + 4096 * y + 64 * z + (w::nat)"
      by blast }
qed

lemma next_encode:
  assumes "scalar_value cp"
  shows "utf8_next (utf8_encode cp @ t) = length (utf8_encode cp)"
proof -
  consider (1) "cp < 0x80" | (2) "0x80 \<le> cp" "cp < 0x800" | (3) "0x800 \<le> cp" "cp < 0x10000"
    | (4) "0x10000 \<le> cp" "cp \<le> 1114111" using assms by (force simp: scalar_value_def)
  then show ?thesis
  proof cases
    case 1
    then show ?thesis by (simp add: utf8_encode_def word_less_nat_alt)
  next
    case 2
    have "2 \<le> cp div 64" "cp div 64 < 32"
      using 2 by (simp_all add: less_eq_div_iff_mult_less_eq div_less_iff_less_mult)
    with 2 show ?thesis
      by (simp add: utf8_encode_def byte_arith trail_defs second_ok_def utf8_trail_def)
  next
    case 3
    obtain x y z where d: "x < 16" "y < 64" "z < 64" "cp = 4096 * x + 64 * y + z"
      using digits_exist(1) [OF 3(2)] by blast
    have "x = 0 \<Longrightarrow> 32 \<le> y" "x = 13 \<Longrightarrow> y \<le> 31"
      using 3 d assms unfolding scalar_value_def by linarith+
    with 3 d(1-3) encode_digits(1) [OF d] show ?thesis
      by (simp add: utf8_encode_def byte_arith trail_defs second_ok_def utf8_trail_def)
  next
    case 4
    obtain x y z w where d: "x < 5" "y < 64" "z < 64" "w < 64" "cp = 262144 * x + 4096 * y + 64 * z + w"
      using digits_exist(2) [OF 4(2)] by blast
    have "x = 0 \<Longrightarrow> 16 \<le> y" "x = 4 \<Longrightarrow> y \<le> 15"
      using 4 d by linarith+
    with 4 d(1-4) encode_digits(2) [OF d(2-5)] show ?thesis
      by (simp add: utf8_encode_def byte_arith trail_defs second_ok_def utf8_trail_def)
  qed
qed

lemma encode_bytes3:
  "x < 16 \<Longrightarrow> y < 64 \<Longrightarrow> z < 64 \<Longrightarrow> 2048 \<le> 4096 * x + 64 * y + z \<Longrightarrow>
   utf8_encode (4096 * x + 64 * y + z) = [byte_of (224 + x), byte_of (128 + y), byte_of (128 + z)]"
  using encode_digits(1) [of x y z "4096 * x + 64 * y + z"] by (simp add: utf8_encode_def)

lemma encode_bytes4:
  "x < 5 \<Longrightarrow> y < 64 \<Longrightarrow> z < 64 \<Longrightarrow> w < 64 \<Longrightarrow> 65536 \<le> 262144 * x + 4096 * y + 64 * z + w \<Longrightarrow>
   utf8_encode (262144 * x + 4096 * y + 64 * z + w) =
     [byte_of (240 + x), byte_of (128 + y), byte_of (128 + z), byte_of (128 + w)]"
  using encode_digits(2) [of y z w "262144 * x + 4096 * y + 64 * z + w" x]
  by (simp add: utf8_encode_def)

lemma trail_digit: "utf8_trail b \<Longrightarrow> \<exists>y < 64. b = byte_of (128 + y)"
proof -
  assume "utf8_trail b"
  then have "unat b - 128 < 64" "b = byte_of (128 + (unat b - 128))"
    by (auto simp: utf8_trail_def byte_arith)
  then show ?thesis by blast
qed

lemma next_is_encoding:
  assumes "utf8_next r \<noteq> 0"
  shows "\<exists>cp. scalar_value cp \<and> take (utf8_next r) r = utf8_encode cp"
proof -
  obtain a t where r: "r = a # t" using assms by (cases r) auto
  show ?thesis
  proof (cases a rule: lead_classes)
    case low
    then show ?thesis
      by (intro exI [of _ "unat a"]) (simp add: r scalar_value_def utf8_encode_def word_less_nat_alt)
  next
    case two
    with assms r have t: "t \<noteq> []" "utf8_trail (t ! 0)"
      by (auto simp: trail2_code split: if_splits)
    then obtain y where y: "y < 64" "t ! 0 = byte_of (128 + y)" using trail_digit by blast
    let ?x = "unat a - 192" and ?cp = "64 * (unat a - 192) + y"
    have x: "2 \<le> ?x" "?x < 32" "unat a = 192 + ?x" using two by (auto simp: byte_arith)
    have "?cp div 64 = ?x" "?cp mod 64 = y" using y by simp_all
    with x y t have "utf8_encode ?cp = [a, t ! 0]" "scalar_value ?cp"
      by (simp_all add: utf8_encode_def scalar_value_def)
    with assms two t show ?thesis
      by (intro exI [of _ ?cp]) (cases t; simp add: r trail2_code)
  next
    case three
    with assms r have t: "trail3 a t" by (auto split: if_splits)
    then obtain y z where y: "y < 64" "t ! 0 = byte_of (128 + y)" and z: "z < 64" "t ! 1 = byte_of (128 + z)"
      and len: "2 \<le> length t"
      using trail_digit trail3_code [OF three(4,5)] by metis
    let ?x = "unat a - 224"
    let ?cp = "4096 * ?x + 64 * y + z"
    have x: "?x < 16" "unat a = 224 + ?x" using three by (auto simp: byte_arith)
    have c: "unat (cp3 a (t ! 0) (t ! 1)) = ?cp"
      unfolding unat_cp3 using x y z by (simp add: mod_trail)
    have s: "2048 \<le> ?cp" "\<not> (55296 \<le> ?cp \<and> ?cp \<le> 57343)"
      using t trail3_code [OF three(4,5)] c by (simp_all add: word_less_nat_alt word_le_nat_alt)
    have "utf8_encode ?cp = [a, t ! 0, t ! 1]"
      using encode_bytes3 [OF x(1) y(1) z(1) s(1)] x(2) y z by simp
    moreover have "scalar_value ?cp"
      using s x y z unfolding scalar_value_def by linarith
    moreover have "take 2 t = [t ! 0, t ! 1]"
      using len by (cases t; cases "tl t") auto
    ultimately show ?thesis
      using t three by (intro exI [of _ ?cp]) (simp add: r)
  next
    case four
    with assms r have t: "trail4 a t" by (auto split: if_splits)
    then obtain y z w where y: "y < 64" "t ! 0 = byte_of (128 + y)" and z: "z < 64" "t ! 1 = byte_of (128 + z)"
      and w: "w < 64" "t ! 2 = byte_of (128 + w)" and len: "3 \<le> length t"
      using trail_digit trail4_code [OF four(5,6)] by metis
    let ?x = "unat a - 240"
    let ?cp = "262144 * ?x + 4096 * y + 64 * z + w"
    have x: "?x < 5" "unat a = 240 + ?x" using four by (auto simp: byte_arith)
    have c: "unat (cp4 a (t ! 0) (t ! 1) (t ! 2)) = ?cp"
      unfolding unat_cp4 using x y z w by (simp add: mod_trail)
    have s: "65536 \<le> ?cp" "?cp \<le> 1114111"
      using t trail4_code [OF four(5,6)] c by (simp_all add: word_less_nat_alt)
    have "utf8_encode ?cp = [a, t ! 0, t ! 1, t ! 2]"
      using encode_bytes4 [OF x(1) y(1) z(1) w(1) s(1)] x(2) y z w by simp
    moreover have "scalar_value ?cp"
      using s unfolding scalar_value_def by linarith
    moreover have "take 3 t = [t ! 0, t ! 1, t ! 2]"
      using len by (cases t; cases "tl t"; cases "tl (tl t)") (auto simp: numeral_eq_Suc)
    ultimately show ?thesis
      using t four by (intro exI [of _ ?cp]) (simp add: r)
  qed (use assms r in auto)
qed


lemma utf8_wf_encode: "scalar_value cp \<Longrightarrow> utf8_wf (utf8_encode cp @ t) = utf8_wf t"
proof -
  assume cp: "scalar_value cp"
  have "utf8_encode cp \<noteq> []" by (simp add: utf8_encode_def)
  with next_encode [OF cp, of t] show ?thesis by (subst utf8_wf_step) simp_all
qed

lemma utf8_wf_concat: "list_all scalar_value cps \<Longrightarrow> utf8_wf (concat (map utf8_encode cps))"
  by (induction cps) (simp_all add: utf8_wf_encode)

lemma utf8_wf_decode: "utf8_wf r \<Longrightarrow> \<exists>cps. list_all scalar_value cps \<and> r = concat (map utf8_encode cps)"
proof (induction r rule: utf8_wf.induct)
  case (1 r)
  show ?case
  proof (cases "r = []")
    case True
    then show ?thesis by (intro exI [of _ "[]"]) simp
  next
    case False
    have n: "utf8_next r \<noteq> 0" and w: "utf8_wf (drop (utf8_next r) r)"
      using utf8_wf_cases [OF "1.prems" False] by blast+
    obtain cps where c: "list_all scalar_value cps" "drop (utf8_next r) r = concat (map utf8_encode cps)"
      using "1.IH" [OF False n w] by blast
    obtain cp where d: "scalar_value cp" "take (utf8_next r) r = utf8_encode cp"
      using next_is_encoding [OF n] by blast
    have "r = take (utf8_next r) r @ drop (utf8_next r) r" by simp
    also have "\<dots> = concat (map utf8_encode (cp # cps))" using c d by simp
    finally show ?thesis using c d by (intro exI [of _ "cp # cps"]) simp
  qed
qed

lemma utf8_wf_scalars: "utf8_wf r \<longleftrightarrow> (\<exists>cps. list_all scalar_value cps \<and> r = concat (map utf8_encode cps))"
  using utf8_wf_decode utf8_wf_concat by blast

lemma next_scalar: "utf8_next r \<noteq> 0 \<longleftrightarrow> (\<exists>cp t. scalar_value cp \<and> r = utf8_encode cp @ t)"
proof
  assume n: "utf8_next r \<noteq> 0"
  then obtain cp where "scalar_value cp" "take (utf8_next r) r = utf8_encode cp"
    using next_is_encoding by blast
  then have "scalar_value cp \<and> r = utf8_encode cp @ drop (utf8_next r) r"
    by (metis append_take_drop_id)
  then show "\<exists>cp t. scalar_value cp \<and> r = utf8_encode cp @ t" by blast
next
  assume "\<exists>cp t. scalar_value cp \<and> r = utf8_encode cp @ t"
  then show "utf8_next r \<noteq> 0" using next_encode by (auto simp: utf8_encode_def)
qed

subsection \<open>How much the sanitiser writes\<close>

lemma sanitize_loop_length: "length (sanitize_loop sb ea r) \<le> (if sb then 3 else 1) * length r"
proof (induction sb ea r rule: sanitize_loop.induct)
  case (1 sb ea r)
  let ?k = "if sb then 3 else 1 :: nat"
  show ?case
  proof (cases "r = []")
    case True
    then show ?thesis by (simp add: sanitize_loop.simps)
  next
    case False
    let ?adv = "fst (san_step r)"
    have le: "?adv \<le> length r" "0 < ?adv" using san_step_next(3) [OF False] san_step_positive by blast+
    show ?thesis
    proof (cases "snd (san_step r)")
      case good: True
      have "length (sanitize_loop sb ea (drop ?adv r)) \<le> ?k * (length r - ?adv)"
        using "1.IH"(1) [OF False refl refl good] by simp
      then have "length (sanitize_loop sb ea r) \<le> ?adv + ?k * (length r - ?adv)"
        using False good by (simp add: sanitize_loop.simps [of sb ea r] Let_def)
      also have "\<dots> \<le> ?k * ?adv + ?k * (length r - ?adv)" by simp
      also have "\<dots> = ?k * length r" using le(1) by (metis distrib_left le_add_diff_inverse)
      finally show ?thesis .
    next
      case bad: False
      let ?a = "if \<not> ea then 1 else ?adv"
      have a: "?a \<le> length r" "1 \<le> ?a" using le False by auto
      have "length (sanitize_loop sb ea (drop ?a r)) \<le> ?k * (length r - ?a)"
        using "1.IH"(2) [OF False refl refl bad refl] by simp
      then have "length (sanitize_loop sb ea r) \<le> (if sb then 3 else 0) + ?k * (length r - ?a)"
        using False bad
        by (cases ea; cases sb) (simp_all add: sanitize_loop.simps [of _ _ r] Let_def replacement_char_def)
      also have "\<dots> \<le> ?k * ?a + ?k * (length r - ?a)" using a(2) by auto
      also have "\<dots> = ?k * length r" using a(1) by (metis distrib_left le_add_diff_inverse)
      finally show ?thesis .
    qed
  qed
qed

subsection \<open>Properties\<close>

text \<open>C10: the validator accepts exactly the concatenations of encoded Unicode scalar values: overlong
  forms, surrogates, values above U+10FFFF and truncated sequences are all rejected, and
  everything else is accepted, the eight-byte ASCII skip notwithstanding.\<close>

theorem well_formed_iff_scalars:
  "fastjson_utf8_well_formed s \<longleftrightarrow> (\<exists>cps. list_all scalar_value cps \<and> s = concat (map utf8_encode cps))"
  unfolding well_formed_wf by (rule utf8_wf_scalars)

text \<open>The byte-pattern test used to classify reader errors holds at a position exactly when an
  encoded scalar value starts there; it never looks past the end.\<close>

theorem valid_start_iff_scalar:
  "fastjson_byte_is_valid_utf8_start s pos \<longleftrightarrow>
     (\<exists>cp t. scalar_value cp \<and> drop pos s = utf8_encode cp @ t)"
  unfolding start_next by (rule next_scalar)

text \<open>C17: whatever the flags and the mode, the sanitiser returns well-formed UTF-8, and it leaves exactly
  the well-formed inputs unchanged, so sanitising twice (in any modes) is sanitising once.\<close>

theorem sanitize_well_formed:
  "fastjson_utf8_well_formed (fastjson_sanitize_utf8 s flags mode) \<and>
   fastjson_sanitize_utf8 (fastjson_sanitize_utf8 s flags mode) flags' mode'
     = fastjson_sanitize_utf8 s flags mode \<and>
   (fastjson_sanitize_utf8 s flags mode = s \<longleftrightarrow> fastjson_utf8_well_formed s)"
proof -
  have "utf8_wf (fastjson_sanitize_utf8 s flags mode)"
    by (simp add: fastjson_sanitize_utf8_def Let_def sanitize_loop_wf)
  moreover have "utf8_wf r \<Longrightarrow> fastjson_sanitize_utf8 r fl m = r" for r fl m
    by (simp add: fastjson_sanitize_utf8_def Let_def sanitize_loop_id)
  ultimately show ?thesis unfolding well_formed_wf by metis
qed

text \<open>The output fits the buffer the code allocates, three bytes per input byte, and when
  substitution is not asked for it is no longer than the input.\<close>

theorem sanitize_length:
  "length (fastjson_sanitize_utf8 s flags mode) \<le>
     (if has_flag flags FASTJSON_INVALID_UTF8_SUBSTITUTE then 3 else 1) * length s"
proof -
  obtain sb ea where f: "fastjson_sanitize_utf8 s flags mode = sanitize_loop sb ea s"
      and "sb \<le> has_flag flags FASTJSON_INVALID_UTF8_SUBSTITUTE"
    by (auto simp: fastjson_sanitize_utf8_def Let_def)
  then show ?thesis
    using sanitize_loop_length [of sb ea s] by (auto split: if_splits)
qed

lemma sanitize_loop_append: "utf8_wf p \<Longrightarrow> sanitize_loop sb ea (p @ r) = p @ sanitize_loop sb ea r"
proof (induction p rule: utf8_wf.induct)
  case (1 p)
  show ?case
  proof (cases "p = []")
    case False
    with "1.prems" have n: "utf8_next p \<noteq> 0" and w: "utf8_wf (drop (utf8_next p) p)"
      by (auto dest: utf8_wf_cases)
    have ne: "p @ r \<noteq> []" using False by simp
    have m: "utf8_next (p @ r) = utf8_next p" by (rule utf8_next_append [OF n])
    have g: "snd (san_step (p @ r))" "fst (san_step (p @ r)) = utf8_next p"
      using n m san_step_next [OF ne] by simp_all
    have "sanitize_loop sb ea (p @ r) = take (utf8_next p) p @ sanitize_loop sb ea (drop (utf8_next p) p @ r)"
      using False g utf8_next_le [of p] by (simp add: sanitize_loop.simps [of sb ea "p @ r"] Let_def)
    also have "\<dots> = p @ sanitize_loop sb ea r"
      using "1.IH" [OF False n w] by simp
    finally show ?thesis .
  qed simp
qed

text \<open>Decode mode works byte by byte: after a well-formed prefix, a byte at which no encoded
  scalar starts is dropped, or replaced by U+FFFD when substitution is asked for, and scanning
  resumes at the very next byte.\<close>

theorem sanitize_decode_bad_byte:
  assumes "fastjson_utf8_well_formed p" and "\<not> fastjson_byte_is_valid_utf8_start (p @ b # t) (length p)"
  shows "fastjson_sanitize_utf8 (p @ b # t) flags FJ_SAN_DECODE =
    p @ (if has_flag flags FASTJSON_INVALID_UTF8_SUBSTITUTE then [0xEF, 0xBF, 0xBD] else []) @
      fastjson_sanitize_utf8 t flags FJ_SAN_DECODE"
proof -
  have "\<not> snd (san_step (b # t))"
    using assms(2) san_step_next(1) [of "b # t"] by (simp add: start_next)
  then show ?thesis
    using assms(1)
    by (simp add: fastjson_sanitize_utf8_def well_formed_wf sanitize_loop_append Let_def
        sanitize_loop.simps [of _ _ "b # t"] replacement_char_def)
qed

lemma sanitize_decode_bad_byte_witness:
  "fastjson_sanitize_utf8 ([0x41] @ 0xC3 # [0x42]) FASTJSON_INVALID_UTF8_SUBSTITUTE FJ_SAN_DECODE =
    [0x41] @ [0xEF, 0xBF, 0xBD] @ fastjson_sanitize_utf8 [0x42] FASTJSON_INVALID_UTF8_SUBSTITUTE FJ_SAN_DECODE"
  using sanitize_decode_bad_byte [of "[0x41]" "0xC3" "[0x42]" FASTJSON_INVALID_UTF8_SUBSTITUTE]
  by (simp add: well_formed_wf start_next trail2_def second_ok_def utf8_trail_def has_flag_def
      FASTJSON_INVALID_UTF8_SUBSTITUTE_def)

end
