(* ===== verification/Position.thy ===== *)
theory Position
  imports Utf8 Swar
begin

text \<open>
  Line and column of a parse error (fastjson.c and the vendored \<open>yyjson_locate_pos\<close>): a scan eight bytes
  at a time for ASCII input, and the character count otherwise. A leading byte order mark is not
  counted.
\<close>

definition is_utf8_bom :: "bytes \<Rightarrow> bool" where
  "is_utf8_bom json \<longleftrightarrow> json ! 0 = 0xEF \<and> json ! 1 = 0xBB \<and> json ! 2 = 0xBF"

subsection \<open>The ASCII scan\<close>

text \<open>Newlines in \<open>json[i..]\<close>: the line count and the start of the last line.\<close>

fun newline_scan :: "bytes \<Rightarrow> nat \<Rightarrow> nat \<Rightarrow> nat \<Rightarrow> nat \<times> nat" where
  "newline_scan [] i line_count line_start = (line_count, line_start)"
| "newline_scan (c # r) i line_count line_start =
    (if c = 0x0A then newline_scan r (i + 1) (line_count + 1) (i + 1)
     else newline_scan r (i + 1) line_count line_start)"

fun locate_tail :: "bytes \<Rightarrow> nat \<Rightarrow> nat \<Rightarrow> nat \<Rightarrow> (nat \<times> nat) option" where
  "locate_tail [] i line_count line_start = Some (line_count, line_start)"
| "locate_tail (c # r) i line_count line_start =
    (if 0x80 \<le> c then None
     else if c = 0x0A then locate_tail r (i + 1) (line_count + 1) (i + 1)
     else locate_tail r (i + 1) line_count line_start)"

text \<open>The word loop; \<open>r\<close> is \<open>json[i..pos)\<close>.\<close>

function locate_words :: "bytes \<Rightarrow> nat \<Rightarrow> nat \<Rightarrow> nat \<Rightarrow> (nat \<times> nat) option" where
  "locate_words r i line_count line_start =
    (if 8 \<le> length r then
       (let word = load_le (take 8 r) in
        if word AND highs \<noteq> 0 then None
        else let (line_count, line_start) =
               (if has_byte word 0x0A then newline_scan (take 8 r) i line_count line_start
                else (line_count, line_start))
             in locate_words (drop 8 r) (i + 8) line_count line_start)
     else locate_tail r i line_count line_start)"
  by pat_completeness auto
termination
  by (relation "measure (\<lambda>(r, _). length r)") auto

declare locate_words.simps [simp del]

definition fastjson_locate_ascii_pos :: "bytes \<Rightarrow> nat \<Rightarrow> (nat \<times> nat) option" where
  "fastjson_locate_ascii_pos json pos =
    (let start = (if 3 \<le> pos \<and> is_utf8_bom json then 3 else 0) in
     case locate_words (take (pos - start) (drop start json)) start 0 start of
       None \<Rightarrow> None
     | Some (line_count, line_start) \<Rightarrow> Some (line_count + 1, pos - line_start + 1))"

subsection \<open>The character count\<close>

function locate_loop :: "bytes \<Rightarrow> nat \<Rightarrow> nat \<Rightarrow> nat \<Rightarrow> nat \<Rightarrow> nat \<Rightarrow> nat \<times> nat \<times> nat" where
  "locate_loop str fin cur line_sum line_pos chr_sum =
    (if cur < fin then
       (let c = str ! cur; chr_sum = chr_sum + 1 in
        if c < 0x80 then
          (if c = 0x0A then locate_loop str fin (cur + 1) (line_sum + 1) chr_sum chr_sum
           else locate_loop str fin (cur + 1) line_sum line_pos chr_sum)
        else if c < 0xC0 then locate_loop str fin (cur + 1) line_sum line_pos chr_sum
        else if c < 0xE0 then locate_loop str fin (cur + 2) line_sum line_pos chr_sum
        else if c < 0xF0 then locate_loop str fin (cur + 3) line_sum line_pos chr_sum
        else if c < 0xF8 then locate_loop str fin (cur + 4) line_sum line_pos chr_sum
        else locate_loop str fin (cur + 1) line_sum line_pos chr_sum)
     else (line_sum, line_pos, chr_sum))"
  by pat_completeness auto
termination
  by (relation "measure (\<lambda>(_, fin, cur, _). fin - cur)") auto

declare locate_loop.simps [simp del]

definition yyjson_locate_pos :: "bytes \<Rightarrow> nat \<Rightarrow> (nat \<times> nat) option" where
  "yyjson_locate_pos str pos =
    (if length str < pos then None
     else let cur = (if 3 \<le> pos \<and> is_utf8_bom str then 3 else 0);
              (line_sum, line_pos, chr_sum) = locate_loop str pos cur 0 0 0
       in Some (line_sum + 1, chr_sum - line_pos + 1))"

subsection \<open>Lines of a text\<close>

text \<open>The number of newlines, and the length of what follows the last one.\<close>

definition last_line :: "'a \<Rightarrow> 'a list \<Rightarrow> nat" where
  "last_line nl xs = length (takeWhile (\<lambda>x. x \<noteq> nl) (rev xs))"

lemma last_line_Cons:
  "last_line nl (x # xs) = (if nl \<in> set xs then last_line nl xs else if x = nl then length xs else Suc (length xs))"
  by (auto simp: last_line_def takeWhile_append)

lemma last_line_le: "last_line nl xs \<le> length xs"
  using length_takeWhile_le [of "\<lambda>x. x \<noteq> nl" "rev xs"] by (simp add: last_line_def)

lemma newline_scan_lines:
  "newline_scan r i lc ls =
    (lc + count_list r 0x0A, if 0x0A \<in> set r then i + length r - last_line 0x0A r else ls)"
  by (induction r i lc ls rule: newline_scan.induct) (auto simp: last_line_Cons)

lemma newline_scan_append:
  "newline_scan (a @ b) i lc ls = (let (lc, ls) = newline_scan a i lc ls in newline_scan b (i + length a) lc ls)"
  by (induction a i lc ls rule: newline_scan.induct) simp_all

lemma locate_tail_scan:
  "locate_tail r i lc ls = (if list_all (\<lambda>c. c < 0x80) r then Some (newline_scan r i lc ls) else None)"
  by (induction r i lc ls rule: locate_tail.induct) auto

lemma newline_word: "length bs = 8 \<Longrightarrow> has_byte (load_le bs) 0x0A \<longleftrightarrow> 0x0A \<in> set bs"
proof -
  have "ones * ucast (0x0A :: byte) = load_le (rep8 0x0A)" by (simp add: ones_def rep8_def push_bit_eq_mult)
  then show "length bs = 8 \<Longrightarrow> ?thesis" using has_byte_iff [of bs "0x0A"] by simp
qed

lemma locate_words_scan:
  "locate_words r i lc ls = (if list_all (\<lambda>c. c < 0x80) r then Some (newline_scan r i lc ls) else None)"
proof (induction r i lc ls rule: locate_words.induct)
  case (1 r i lc ls)
  show ?case
  proof (cases "8 \<le> length r")
    case False
    then show ?thesis by (subst locate_words.simps) (simp add: locate_tail_scan)
  next
    case True
    have r: "r = take 8 r @ drop 8 r" "length (take 8 r) = 8" using True by simp_all
    have ascii: "load_le (take 8 r) AND highs \<noteq> 0 \<longleftrightarrow> \<not> list_all (\<lambda>c. c < 0x80) (take 8 r)"
      using load_highs [OF r(2)] by (auto simp: list_all_iff not_less)
    have scan: "(if has_byte (load_le (take 8 r)) 0x0A then newline_scan (take 8 r) i lc ls else (lc, ls)) = newline_scan (take 8 r) i lc ls"
      using newline_word [OF r(2)] by (simp add: newline_scan_lines)
    obtain lc' ls' where n: "newline_scan (take 8 r) i lc ls = (lc', ls')" by fastforce
    have split: "list_all (\<lambda>c. c < 0x80) r \<longleftrightarrow> list_all (\<lambda>c. c < 0x80) (take 8 r) \<and> list_all (\<lambda>c. c < 0x80) (drop 8 r)"
      using r(1) list_all_append by metis
    have "newline_scan r i lc ls = newline_scan (drop 8 r) (i + 8) lc' ls'"
      using newline_scan_append [of "take 8 r" "drop 8 r" i lc ls] r n by simp
    then show ?thesis
      using True "1.IH" [OF True refl] ascii scan n split
      by (subst locate_words.simps) (auto simp: Let_def)
  qed
qed

subsection \<open>The character count of a text\<close>

definition lead_advance :: "byte \<Rightarrow> nat" where
  "lead_advance c = (if c < 0x80 then 1 else if c < 0xC0 then 1 else if c < 0xE0 then 2
     else if c < 0xF0 then 3 else if c < 0xF8 then 4 else 1)"

lemma locate_step:
  "cur < fin \<Longrightarrow> locate_loop str fin cur line_sum line_pos chr_sum =
    (if str ! cur = 0x0A then locate_loop str fin (cur + 1) (line_sum + 1) (chr_sum + 1) (chr_sum + 1)
     else locate_loop str fin (cur + lead_advance (str ! cur)) line_sum line_pos (chr_sum + 1))"
  by (subst locate_loop.simps) (auto simp: lead_advance_def Let_def)

lemma encode_lead:
  assumes "scalar_value cp"
  shows "utf8_encode cp \<noteq> []" "lead_advance (utf8_encode cp ! 0) = length (utf8_encode cp)"
    "utf8_encode cp ! 0 = 0x0A \<longleftrightarrow> cp = 10"
proof -
  consider "cp < 0x80" | "0x80 \<le> cp" "cp < 0x800" | "0x800 \<le> cp" "cp < 0x10000" | "0x10000 \<le> cp" "cp \<le> 0x10FFFF"
    using assms by (cases "cp < 0x80"; cases "cp < 0x800"; cases "cp < 0x10000") (auto simp: scalar_value_def)
  then have "utf8_encode cp \<noteq> [] \<and> lead_advance (utf8_encode cp ! 0) = length (utf8_encode cp) \<and>
      (utf8_encode cp ! 0 = 0x0A \<longleftrightarrow> cp = 10)"
  proof cases
    case 1
    then show ?thesis by (simp add: utf8_encode_def lead_advance_def byte_arith)
  next
    case 2
    then have "cp div 64 < 32" by (simp add: less_mult_imp_div_less)
    with 2 show ?thesis by (simp add: utf8_encode_def lead_advance_def byte_arith)
  next
    case 3
    then have "cp div 4096 < 16" by (simp add: less_mult_imp_div_less)
    with 3 show ?thesis by (simp add: utf8_encode_def lead_advance_def byte_arith)
  next
    case 4
    then have "cp div 262144 < 8" by (simp add: less_mult_imp_div_less)
    with 4 show ?thesis by (simp add: utf8_encode_def lead_advance_def byte_arith)
  qed
  then show "utf8_encode cp \<noteq> []" "lead_advance (utf8_encode cp ! 0) = length (utf8_encode cp)"
    "utf8_encode cp ! 0 = 0x0A \<longleftrightarrow> cp = 10" by simp_all
qed

lemma locate_scalars:
  "list_all scalar_value cps \<Longrightarrow> take (fin - cur) (drop cur str) = concat (map utf8_encode cps) \<Longrightarrow> cur \<le> fin \<Longrightarrow>
   fin \<le> length str \<Longrightarrow>
   locate_loop str fin cur line_sum line_pos chr_sum =
     (line_sum + count_list cps 10, if 10 \<in> set cps then chr_sum + length cps - last_line 10 cps else line_pos,
      chr_sum + length cps)"
proof (induction cps arbitrary: cur line_sum line_pos chr_sum)
  case Nil
  then have "length (take (fin - cur) (drop cur str)) = 0" by (simp only: list.map concat.simps list.size)
  then have "min (fin - cur) (length str - cur) = 0" by (simp only: length_take length_drop min.commute)
  then have "cur = fin" using Nil.prems(3,4) by linarith
  then show ?case by (subst locate_loop.simps) simp
next
  case (Cons cp cps)
  let ?e = "utf8_encode cp"
  note e = encode_lead [of cp]
  have sv: "scalar_value cp" using Cons.prems(1) by simp
  have tx: "take (fin - cur) (drop cur str) = ?e @ concat (map utf8_encode cps)" using Cons.prems(2) by simp
  have len: "length (take (fin - cur) (drop cur str)) = fin - cur" using Cons.prems(3,4) by simp
  then have le: "length ?e \<le> fin - cur" unfolding tx by simp
  have cur: "cur < fin" using le e(1) [OF sv] by (cases ?e) auto
  have "(take (fin - cur) (drop cur str)) ! 0 = str ! cur" using cur Cons.prems(4) by simp
  then have c: "str ! cur = ?e ! 0" unfolding tx using e(1) [OF sv] by (simp add: nth_append)
  have "drop (length ?e) (take (fin - cur) (drop cur str)) = concat (map utf8_encode cps)" unfolding tx by simp
  then have rest: "take (fin - (cur + length ?e)) (drop (cur + length ?e) str) = concat (map utf8_encode cps)"
    by (simp add: drop_take add.commute)
  note IH = Cons.IH [OF _ rest _ Cons.prems(4)]
  have le': "cur + length ?e \<le> fin" using le cur by simp
  show ?case
  proof (cases "cp = 10")
    case True
    then have "length ?e = 1" by (simp add: utf8_encode_def)
    with True IH [of "line_sum + 1" "chr_sum + 1" "chr_sum + 1"] Cons.prems(1) e(3) [OF sv] c le' last_line_le [of 10 cps] show ?thesis
      unfolding locate_step [OF cur] by (auto simp: last_line_Cons)
  next
    case False
    with IH [of line_sum line_pos "chr_sum + 1"] Cons.prems(1) e(2,3) [OF sv] c le' last_line_le [of 10 cps] show ?thesis
      unfolding locate_step [OF cur] by (auto simp: last_line_Cons)
  qed
qed

text \<open>An ASCII text is its bytes as scalar values.\<close>

lemma ascii_scalars:
  "list_all (\<lambda>c. c < 0x80) r \<Longrightarrow> list_all scalar_value (map unat r) \<and> concat (map utf8_encode (map unat r)) = r"
  by (induction r) (auto simp: scalar_value_def utf8_encode_def byte_arith)

lemma ascii_count: "count_list (map unat r) 10 = count_list (r :: bytes) 0x0A" "10 \<in> unat ` set r \<longleftrightarrow> 0x0A \<in> set (r :: bytes)"
  "last_line 10 (map unat r) = last_line 0x0A (r :: bytes)"
proof -
  have eq: "unat b = 10 \<longleftrightarrow> b = 0x0A" for b :: byte by (simp add: byte_arith)
  show "count_list (map unat r) 10 = count_list r 0x0A" by (induction r) (simp_all add: eq)
  show "10 \<in> unat ` set r \<longleftrightarrow> 0x0A \<in> set r" by (induction r) (auto simp: eq)
  show "last_line 10 (map unat r) = last_line 0x0A r"
    unfolding last_line_def rev_map takeWhile_map by (simp add: comp_def eq)
qed

text \<open>What is counted: the bytes before the position, less a byte order mark.\<close>

definition text_before :: "bytes \<Rightarrow> nat \<Rightarrow> bytes" where
  "text_before json pos =
    (let start = (if 3 \<le> pos \<and> is_utf8_bom json then 3 else 0) in take (pos - start) (drop start json))"

lemma locate_text:
  assumes "pos \<le> length json" "list_all scalar_value cps" "text_before json pos = concat (map utf8_encode cps)"
  shows "yyjson_locate_pos json pos = Some (count_list cps 10 + 1, last_line 10 cps + 1)"
proof -
  define start :: nat where "start = (if 3 \<le> pos \<and> is_utf8_bom json then 3 else 0)"
  have "start \<le> pos" by (simp add: start_def)
  moreover have "take (pos - start) (drop start json) = concat (map utf8_encode cps)"
    using assms(3) by (simp add: text_before_def start_def Let_def)
  ultimately have l: "locate_loop json pos start 0 0 0 =
      (count_list cps 10, if 10 \<in> set cps then length cps - last_line 10 cps else 0, length cps)"
    using locate_scalars [OF assms(2), of pos start json 0 0 0] assms(1) by simp
  have "10 \<notin> set cps \<Longrightarrow> last_line 10 cps = length cps"
    unfolding last_line_def by (subst takeWhile_eq_all_conv [THEN iffD2]) auto
  then show ?thesis
    using assms(1) l last_line_le [of 10 cps]
    by (auto simp: yyjson_locate_pos_def start_def [symmetric] simp del: if_split_asm)
qed

lemma locate_ascii:
  assumes "pos \<le> length json"
  shows "fastjson_locate_ascii_pos json pos =
    (if list_all (\<lambda>c. c < 0x80) (text_before json pos) then yyjson_locate_pos json pos else None)"
proof -
  define start :: nat where "start = (if 3 \<le> pos \<and> is_utf8_bom json then 3 else 0)"
  define r where "r = text_before json pos"
  have r: "take (pos - start) (drop start json) = r" "length r = pos - start" "start \<le> pos"
    using assms by (auto simp: r_def text_before_def start_def Let_def)
  have a: "fastjson_locate_ascii_pos json pos =
      (if list_all (\<lambda>c. c < 0x80) r
       then Some (count_list r 0x0A + 1, pos - (if 0x0A \<in> set r then pos - last_line 0x0A r else start) + 1)
       else None)"
    using r by (simp add: fastjson_locate_ascii_pos_def start_def [symmetric] locate_words_scan newline_scan_lines Let_def)
  show ?thesis
  proof (cases "list_all (\<lambda>c. c < 0x80) r")
    case True
    have "text_before json pos = concat (map utf8_encode (map unat r))" using ascii_scalars [OF True] r_def by simp
    from locate_text [OF assms _ this] ascii_scalars [OF True]
    have "yyjson_locate_pos json pos = Some (count_list r 0x0A + 1, last_line 0x0A r + 1)"
      by (simp add: ascii_count del: map_map)
    moreover have "0x0A \<notin> set r \<Longrightarrow> last_line 0x0A r = length r"
      unfolding last_line_def by (subst takeWhile_eq_all_conv [THEN iffD2]) auto
    moreover have "last_line 0x0A r \<le> pos" using last_line_le [of "0x0A" r] r by simp
    ultimately show ?thesis using a True r by (auto simp: r_def [symmetric])
  next
    case False
    with a show ?thesis by (simp add: r_def [symmetric])
  qed
qed

end
