(* ===== verification/ErrorState.thy ===== *)
theory ErrorState
  imports Position
begin

text \<open>
  The module's last-error state and the two ways to report a failure (fastjson.c, php_fastjson.h).
  \<open>FASTJSON_G(...)\<close> is the record \<open>fj_globals\<close>, passed through every function; later components extend
  it. A message is \<open>None\<close> for \<open>NULL\<close>. An entry point ends with a \<open>php_result\<close>: a value, a
  \<open>JsonException\<close> with message and code, a \<open>ValueError\<close> for an argument, or an exception of the
  caller's own code that is passed on.
\<close>

definition FASTJSON_ERROR_NONE :: int where "FASTJSON_ERROR_NONE = 0"
definition FASTJSON_ERROR_DEPTH :: int where "FASTJSON_ERROR_DEPTH = 1"
definition FASTJSON_ERROR_SYNTAX :: int where "FASTJSON_ERROR_SYNTAX = 4"
definition FASTJSON_ERROR_UTF8 :: int where "FASTJSON_ERROR_UTF8 = 5"
definition FASTJSON_ERROR_RECURSION :: int where "FASTJSON_ERROR_RECURSION = 6"
definition FASTJSON_ERROR_INF_OR_NAN :: int where "FASTJSON_ERROR_INF_OR_NAN = 7"
definition FASTJSON_ERROR_UNSUPPORTED_TYPE :: int where "FASTJSON_ERROR_UNSUPPORTED_TYPE = 8"
definition FASTJSON_ERROR_INVALID_PROPERTY_NAME :: int where "FASTJSON_ERROR_INVALID_PROPERTY_NAME = 9"
definition FASTJSON_ERROR_NON_BACKED_ENUM :: int where "FASTJSON_ERROR_NON_BACKED_ENUM = 11"

lemmas error_code_defs = FASTJSON_ERROR_NONE_def FASTJSON_ERROR_DEPTH_def FASTJSON_ERROR_SYNTAX_def
  FASTJSON_ERROR_UTF8_def FASTJSON_ERROR_RECURSION_def FASTJSON_ERROR_INF_OR_NAN_def
  FASTJSON_ERROR_UNSUPPORTED_TYPE_def FASTJSON_ERROR_INVALID_PROPERTY_NAME_def FASTJSON_ERROR_NON_BACKED_ENUM_def

record fastjson_error_state =
  es_code :: int
  es_msg :: "string option"
  es_pos :: int
  es_line :: int
  es_col :: int

record fj_globals =
  last_err :: fastjson_error_state

datatype 'v php_result =
    Returned 'v
  | JsonException string int
  | ValueError nat string
  | HostException

subsection \<open>Reader errors\<close>

type_synonym yyjson_read_code = "32 word"

definition YYJSON_READ_SUCCESS :: yyjson_read_code where "YYJSON_READ_SUCCESS = 0"
definition YYJSON_READ_ERROR_INVALID_PARAMETER :: yyjson_read_code where "YYJSON_READ_ERROR_INVALID_PARAMETER = 1"
definition YYJSON_READ_ERROR_INVALID_NUMBER :: yyjson_read_code where "YYJSON_READ_ERROR_INVALID_NUMBER = 9"
definition YYJSON_READ_ERROR_INVALID_STRING :: yyjson_read_code where "YYJSON_READ_ERROR_INVALID_STRING = 10"

record yyjson_read_err =
  re_code :: yyjson_read_code
  re_msg :: string
  re_pos :: nat

definition fastjson_translate_read_code :: "yyjson_read_code \<Rightarrow> int" where
  "fastjson_translate_read_code yy =
    (if yy = YYJSON_READ_SUCCESS then FASTJSON_ERROR_NONE
     else if yy = YYJSON_READ_ERROR_INVALID_STRING then FASTJSON_ERROR_UTF8
     else FASTJSON_ERROR_SYNTAX)"

definition fastjson_set_read_error :: "bytes \<Rightarrow> yyjson_read_err \<Rightarrow> 'a fj_globals_scheme \<Rightarrow> 'a fj_globals_scheme" where
  "fastjson_set_read_error json err g =
    (let e = \<lparr>es_code = fastjson_translate_read_code (re_code err), es_msg = Some (re_msg err),
              es_pos = -1, es_line = 0, es_col = 0\<rparr>;
         e = (if re_code err \<noteq> YYJSON_READ_SUCCESS \<and> re_pos err \<le> length json then
                (let e = e\<lparr>es_pos := int (re_pos err)\<rparr>;
                     at = (case fastjson_locate_ascii_pos json (re_pos err) of
                         Some lc \<Rightarrow> Some lc
                       | None \<Rightarrow> yyjson_locate_pos json (re_pos err))
                 in case at of None \<Rightarrow> e | Some (line, col) \<Rightarrow> e\<lparr>es_line := int line, es_col := int col\<rparr>)
              else e)
     in g\<lparr>last_err := e\<rparr>)"

subsection \<open>Setting, saving and restoring\<close>

definition fastjson_error_state_set :: "int \<Rightarrow> string option \<Rightarrow> fastjson_error_state" where
  "fastjson_error_state_set code msg = \<lparr>es_code = code, es_msg = msg, es_pos = -1, es_line = 0, es_col = 0\<rparr>"

definition fastjson_error_state_clear :: fastjson_error_state where
  "fastjson_error_state_clear =
    \<lparr>es_code = FASTJSON_ERROR_NONE, es_msg = None, es_pos = -1, es_line = 0, es_col = 0\<rparr>"

definition fastjson_error_globals_set :: "int \<Rightarrow> string option \<Rightarrow> 'a fj_globals_scheme \<Rightarrow> 'a fj_globals_scheme" where
  "fastjson_error_globals_set code msg g =
    g\<lparr>last_err := \<lparr>es_code = code, es_msg = msg, es_pos = -1, es_line = 0, es_col = 0\<rparr>\<rparr>"

definition fastjson_clear_error :: "'a fj_globals_scheme \<Rightarrow> 'a fj_globals_scheme" where
  "fastjson_clear_error g = fastjson_error_globals_set FASTJSON_ERROR_NONE None g"

definition fastjson_set_error_code :: "int \<Rightarrow> string \<Rightarrow> 'a fj_globals_scheme \<Rightarrow> 'a fj_globals_scheme" where
  "fastjson_set_error_code code msg g = fastjson_error_globals_set code (Some msg) g"

definition fastjson_save_error_state :: "'a fj_globals_scheme \<Rightarrow> fastjson_error_state" where
  "fastjson_save_error_state g =
    \<lparr>es_code = es_code (last_err g), es_msg = es_msg (last_err g), es_pos = es_pos (last_err g),
     es_line = es_line (last_err g), es_col = es_col (last_err g)\<rparr>"

definition fastjson_restore_error_state :: "fastjson_error_state \<Rightarrow> 'a fj_globals_scheme \<Rightarrow> 'a fj_globals_scheme" where
  "fastjson_restore_error_state state g =
    g\<lparr>last_err := \<lparr>es_code = es_code state, es_msg = es_msg state, es_pos = es_pos state,
      es_line = es_line state, es_col = es_col state\<rparr>\<rparr>"

definition fastjson_throw_mode_init :: "bool \<Rightarrow> 'a fj_globals_scheme \<Rightarrow> fastjson_error_state \<times> 'a fj_globals_scheme" where
  "fastjson_throw_mode_init throw_mode g =
    (fastjson_save_error_state g, if \<not> throw_mode then fastjson_clear_error g else g)"

subsection \<open>Throwing\<close>

definition fastjson_throw_error :: "int \<Rightarrow> string option \<Rightarrow> string option \<Rightarrow> fastjson_error_state option
    \<Rightarrow> 'a fj_globals_scheme \<Rightarrow> 'v php_result \<times> 'a fj_globals_scheme" where
  "fastjson_throw_error code msg fallback_msg saved_err g =
    (let msg = (case msg of Some m \<Rightarrow> m | None \<Rightarrow> (case fallback_msg of Some m \<Rightarrow> m | None \<Rightarrow> ''fastjson error''))
     in (JsonException msg code,
         case saved_err of Some saved \<Rightarrow> fastjson_restore_error_state saved g | None \<Rightarrow> g))"

definition fastjson_throw_current_error :: "string option \<Rightarrow> fastjson_error_state option
    \<Rightarrow> 'a fj_globals_scheme \<Rightarrow> 'v php_result \<times> 'a fj_globals_scheme" where
  "fastjson_throw_current_error fallback_msg saved_err g =
    fastjson_throw_error (es_code (last_err g)) (es_msg (last_err g)) fallback_msg saved_err g"

definition fastjson_throw_read_error :: "yyjson_read_err \<Rightarrow> fastjson_error_state option
    \<Rightarrow> 'a fj_globals_scheme \<Rightarrow> 'v php_result \<times> 'a fj_globals_scheme" where
  "fastjson_throw_read_error err saved_err g =
    fastjson_throw_error (fastjson_translate_read_code (re_code err)) (Some (re_msg err)) (Some ''JSON parse error'') saved_err g"

subsection \<open>The prologue of an entry point\<close>

definition INT_MAX :: int where "INT_MAX = 2147483647"

definition FASTJSON_VALIDATE_DEPTH :: "int \<Rightarrow> nat \<Rightarrow> 'v php_result option" where
  "FASTJSON_VALIDATE_DEPTH depth argno =
    (if depth \<le> 0 then Some (ValueError argno ''must be greater than 0'')
     else if INT_MAX < depth then Some (ValueError argno ''must be less than 2147483647'')
     else None)"

definition fastjson_entry_prologue :: "zend_long \<Rightarrow> zend_long \<Rightarrow> int \<Rightarrow> nat \<Rightarrow> 'a fj_globals_scheme
    \<Rightarrow> ('v php_result + bool \<times> fastjson_error_state) \<times> 'a fj_globals_scheme" where
  "fastjson_entry_prologue flags throw_bit depth depth_argno g =
    (let throw_mode = has_flag flags throw_bit;
         (saved, g) = fastjson_throw_mode_init throw_mode g
     in if depth \<le> 0 then (Inl (ValueError depth_argno ''must be greater than 0''), g)
        else if INT_MAX < depth then (Inl (ValueError depth_argno ''must be less than 2147483647''), g)
        else (Inr (throw_mode, saved), g))"

subsection \<open>Reading the error state from PHP\<close>

definition fastjson_last_error :: "'a fj_globals_scheme \<Rightarrow> int" where
  "fastjson_last_error g = es_code (last_err g)"

definition fastjson_last_error_msg :: "'a fj_globals_scheme \<Rightarrow> string" where
  "fastjson_last_error_msg g =
    (if es_code (last_err g) = FASTJSON_ERROR_NONE then ''No error''
     else case es_msg (last_err g) of None \<Rightarrow> ''No error'' | Some m \<Rightarrow> m)"

definition fastjson_last_error_pos :: "'a fj_globals_scheme \<Rightarrow> int" where
  "fastjson_last_error_pos g = es_pos (last_err g)"

record last_error_info =
  info_code :: int
  info_msg :: string
  info_pos :: int
  info_line :: int
  info_col :: int

definition fastjson_last_error_info :: "'a fj_globals_scheme \<Rightarrow> last_error_info" where
  "fastjson_last_error_info g =
    \<lparr>info_code = es_code (last_err g),
     info_msg = (if es_code (last_err g) = FASTJSON_ERROR_NONE then ''No error''
       else case es_msg (last_err g) of None \<Rightarrow> ''No error'' | Some m \<Rightarrow> m),
     info_pos = es_pos (last_err g), info_line = es_line (last_err g), info_col = es_col (last_err g)\<rparr>"

subsection \<open>Lemmas\<close>

lemma save_is_state [simp]: "fastjson_save_error_state g = last_err g"
  by (simp add: fastjson_save_error_state_def)

lemma restore_is_update [simp]: "fastjson_restore_error_state s g = g\<lparr>last_err := s\<rparr>"
  by (simp add: fastjson_restore_error_state_def)

lemma clear_is_state: "fastjson_clear_error g = g\<lparr>last_err := fastjson_error_state_clear\<rparr>"
  by (simp add: fastjson_clear_error_def fastjson_error_globals_set_def fastjson_error_state_clear_def)

lemma set_code_is_state: "fastjson_set_error_code code msg g = g\<lparr>last_err := fastjson_error_state_set code (Some msg)\<rparr>"
  by (simp add: fastjson_set_error_code_def fastjson_error_globals_set_def fastjson_error_state_set_def)

lemma throw_error_saved [simp]:
  "fastjson_throw_error code (Some m) fb (Some s) g = (JsonException m code, g\<lparr>last_err := s\<rparr>)"
  by (simp add: fastjson_throw_error_def)

lemma read_code_error: "fastjson_translate_read_code c = FASTJSON_ERROR_NONE \<longleftrightarrow> c = YYJSON_READ_SUCCESS"
  by (simp add: fastjson_translate_read_code_def error_code_defs)

subsection \<open>Properties\<close>

text \<open>C38: for a reader error inside a document that is UTF-8 up to the error, the reported line is one more
  than the newlines before it and the column one more than the characters after the last of them; a leading
  byte order mark counts for nothing. The offset and the message are the reader's.\<close>

theorem read_error_position:
  assumes "re_code err \<noteq> YYJSON_READ_SUCCESS" "re_pos err \<le> length json" "list_all scalar_value cps"
    "text_before json (re_pos err) = concat (map utf8_encode cps)"
  shows "fastjson_last_error_info (fastjson_set_read_error json err g) =
    \<lparr>info_code = (if re_code err = YYJSON_READ_ERROR_INVALID_STRING then FASTJSON_ERROR_UTF8 else FASTJSON_ERROR_SYNTAX),
     info_msg = re_msg err, info_pos = int (re_pos err),
     info_line = int (count_list cps 10) + 1, info_col = int (last_line 10 cps) + 1\<rparr>"
proof -
  have "yyjson_locate_pos json (re_pos err) = Some (count_list cps 10 + 1, last_line 10 cps + 1)"
    using locate_text [OF assms(2-4)] .
  then have "(case fastjson_locate_ascii_pos json (re_pos err) of Some lc \<Rightarrow> Some lc
      | None \<Rightarrow> yyjson_locate_pos json (re_pos err)) = Some (count_list cps 10 + 1, last_line 10 cps + 1)"
    using locate_ascii [OF assms(2)] by simp
  then show ?thesis
    using assms(1,2) by (simp add: fastjson_last_error_info_def fastjson_set_read_error_def Let_def
        fastjson_translate_read_code_def error_code_defs)
qed

lemma read_error_position_witness:
  "fastjson_last_error_info (fastjson_set_read_error [0x5B, 0x0A, 0x61] \<lparr>re_code = 6, re_msg = ''x'', re_pos = 2\<rparr>
      \<lparr>last_err = fastjson_error_state_clear\<rparr>) =
    \<lparr>info_code = 4, info_msg = ''x'', info_pos = 2, info_line = 2, info_col = 1\<rparr>"
proof -
  have "text_before [0x5B, 0x0A, 0x61] 2 = concat (map utf8_encode [0x5B, 10])"
    by (simp add: text_before_def utf8_encode_def byte_of_def)
  from read_error_position [of "\<lparr>re_code = 6, re_msg = ''x'', re_pos = 2\<rparr>" "[0x5B, 0x0A, 0x61]" "[0x5B, 10]"
      "\<lparr>last_err = fastjson_error_state_clear\<rparr>"] this
  show ?thesis
    by (simp add: YYJSON_READ_SUCCESS_def YYJSON_READ_ERROR_INVALID_STRING_def error_code_defs scalar_value_def last_line_def)
qed

text \<open>The word-at-a-time position scan agrees with the character count on ASCII text and gives up exactly
  when a byte before the position is not ASCII.\<close>

theorem ascii_position_agrees:
  assumes "pos \<le> length json"
  shows "fastjson_locate_ascii_pos json pos =
    (if list_all (\<lambda>c. c < 0x80) (text_before json pos) then yyjson_locate_pos json pos else None)"
  using assms by (rule locate_ascii)

lemma ascii_position_agrees_witness:
  "fastjson_locate_ascii_pos [0x61, 0x0A, 0x62] 3 =
    (if list_all (\<lambda>c. c < 0x80) (text_before [0x61, 0x0A, 0x62] 3) then yyjson_locate_pos [0x61, 0x0A, 0x62] 3 else None)"
  by (rule ascii_position_agrees) simp

end
