(* ===== verification/KeyCache.thy ===== *)
theory KeyCache
  imports ErrorState
begin

text \<open>
  The decoder's key cache (fastjson_decode.c): one string per distinct member name of a document, in a
  fixed open-addressed table. A table slot is a record \<open>fj_key_slot\<close>; \<open>used\<close> lists the occupied slots in
  the order they were filled, and its length is the code's \<open>count\<close>. A key handed out is a \<open>key_ref\<close>: a
  string shared through a slot, or one of the caller's own. Reference counts are not modelled beyond
  the list of strings that the end of a walk releases.

  The module globals of ErrorState are extended by \<open>key_share\<close>, the cache of the walk in progress. The
  engine's hash function is a parameter.
\<close>

definition FJ_SHARE_KEY_MAX :: nat where "FJ_SHARE_KEY_MAX = 64"
definition FJ_SHARE_SLOTS :: nat where "FJ_SHARE_SLOTS = 512"
definition FJ_SHARE_KEY_CAP :: nat where "FJ_SHARE_KEY_CAP = 256"
definition FJ_SHARE_MISS_MARGIN :: "32 word" where "FJ_SHARE_MISS_MARGIN = 1024"
definition FJ_SHARE_MIN_INPUT :: nat where "FJ_SHARE_MIN_INPUT = 4096"

record fj_key_slot =
  slot_str :: "bytes option"
  slot_h :: "64 word"

record fj_key_cache =
  slots :: "fj_key_slot list"
  used :: "nat list"
  full_hits :: "32 word"
  full_misses :: "32 word"
  off :: bool

record fj_request_globals = fj_globals +
  key_share :: "fj_key_cache option"

datatype key_ref = Resident nat bytes | Private bytes

fun key_bytes :: "key_ref \<Rightarrow> bytes" where
  "key_bytes (Resident i s) = s"
| "key_bytes (Private s) = s"

type_synonym hash_func = "bytes \<Rightarrow> 64 word"

subsection \<open>Lookup\<close>

definition slot_index :: "64 word \<Rightarrow> nat" where
  "slot_index h = unat ((ucast h :: 32 word) AND 511)"

definition next_slot :: "nat \<Rightarrow> nat" where
  "next_slot i = unat ((of_nat (i + 1) :: 32 word) AND 511)"

text \<open>The probe loop, \<open>n\<close> iterations left. \<open>None\<close> is its end without a result.\<close>

fun probe_loop :: "nat \<Rightarrow> bool \<Rightarrow> bytes \<Rightarrow> 64 word \<Rightarrow> nat \<Rightarrow> fj_key_cache \<Rightarrow> (key_ref \<times> fj_key_cache) option" where
  "probe_loop 0 full str h i share = None"
| "probe_loop (Suc n) full str h i share =
    (let slot = slots share ! i in
     case slot_str slot of
       None \<Rightarrow>
         if full then None
         else Some (Resident i str,
           share\<lparr>slots := (slots share)[i := \<lparr>slot_str = Some str, slot_h = h\<rparr>], used := used share @ [i]\<rparr>)
     | Some s \<Rightarrow>
         if slot_h slot = h \<and> length s = length str \<and> s = str then
           Some (Resident i s, share\<lparr>full_hits := full_hits share + of_bool full\<rparr>)
         else probe_loop n full str h (next_slot i) share)"

definition fj_share_key_slow :: "hash_func \<Rightarrow> fj_key_cache \<Rightarrow> bytes \<Rightarrow> key_ref option \<times> fj_key_cache" where
  "fj_share_key_slow hash share str =
    (let full = FJ_SHARE_KEY_CAP \<le> length (used share) in
     if full \<and> full_hits share + FJ_SHARE_MISS_MARGIN < full_misses share then
       (None, share\<lparr>off := True\<rparr>)
     else
       let h = hash str in
       case probe_loop 8 full str h (slot_index h) share of
         Some (r, share) \<Rightarrow> (Some r, share)
       | None \<Rightarrow> (Some (Private str), share\<lparr>full_misses := full_misses share + of_bool full\<rparr>))"

definition fj_share_key :: "hash_func \<Rightarrow> bytes \<Rightarrow> fj_key_cache option \<Rightarrow> key_ref option \<times> fj_key_cache option" where
  "fj_share_key hash str share =
    (case share of
       None \<Rightarrow> (None, share)
     | Some c \<Rightarrow>
         if off c \<or> FJ_SHARE_KEY_MAX < length str then (None, share)
         else let (r, c) = fj_share_key_slow hash c str in (r, Some c))"

subsection \<open>Installing and removing the cache\<close>

definition fresh_cache :: fj_key_cache where
  "fresh_cache = \<lparr>slots = replicate FJ_SHARE_SLOTS \<lparr>slot_str = None, slot_h = 0\<rparr>, used = [],
    full_hits = 0, full_misses = 0, off = False\<rparr>"

text \<open>The caller's \<open>prev\<close> is the first component.\<close>

definition fj_key_share_push :: "nat \<Rightarrow> 'a fj_request_globals_scheme
    \<Rightarrow> fj_key_cache option \<times> 'a fj_request_globals_scheme" where
  "fj_key_share_push input_len g =
    (key_share g,
     if input_len < FJ_SHARE_MIN_INPUT then g\<lparr>key_share := None\<rparr> else g\<lparr>key_share := Some fresh_cache\<rparr>)"

text \<open>The strings released, and the globals. The walk between push and pop never replaces the
  pointer, so \<open>fj_key_share () \<noteq> cache\<close> is the case of a walk without a cache.\<close>

definition fj_key_share_pop :: "fj_key_cache option \<Rightarrow> 'a fj_request_globals_scheme
    \<Rightarrow> bytes option list \<times> 'a fj_request_globals_scheme" where
  "fj_key_share_pop prev g =
    (case key_share g of
       None \<Rightarrow> ([], g\<lparr>key_share := prev\<rparr>)
     | Some cache \<Rightarrow> (map (\<lambda>i. slot_str (slots cache ! i)) (used cache), g\<lparr>key_share := prev\<rparr>))"

subsection \<open>The table invariant\<close>

lemma mask511: "unat ((w :: 32 word) AND 511) = unat w mod 512"
  using nat_and_contig [of "unat w" 0 9] by (simp add: unsigned_and_eq)

lemma slot_index_less [simp]: "slot_index h < 512"
  by (simp add: slot_index_def mask511)

lemma next_slot_mod: "next_slot i = Suc i mod 512" 
proof -
  have "unat (of_nat (i + 1) :: 32 word) mod 512 = (i + 1) mod 512"
    by (simp only: unat_of_nat) (simp add: mod_mod_cancel)
  then show ?thesis by (simp only: next_slot_def mask511) simp
qed

text \<open>The slot that a probe for hash \<open>h\<close> looks at in its iteration \<open>k\<close>.\<close>

definition probe_at :: "64 word \<Rightarrow> nat \<Rightarrow> nat" where
  "probe_at h k = (slot_index h + k) mod 512"

lemma probe_at_0 [simp]: "probe_at h 0 = slot_index h"
  using slot_index_less [of h] by (simp add: probe_at_def)

lemma probe_at_Suc: "next_slot (probe_at h k) = probe_at h (Suc k)"
  by (simp add: probe_at_def next_slot_mod mod_Suc_eq)

lemma probe_at_less [simp]: "probe_at h k < 512"
  by (simp add: probe_at_def)

definition resident :: "fj_key_cache \<Rightarrow> nat \<Rightarrow> bytes \<Rightarrow> bool" where
  "resident c i s \<longleftrightarrow> i < 512 \<and> slot_str (slots c ! i) = Some s"

definition key_cache_inv :: "hash_func \<Rightarrow> fj_key_cache \<Rightarrow> bool" where
  "key_cache_inv hash c \<longleftrightarrow>
    length (slots c) = 512 \<and> distinct (used c) \<and> length (used c) \<le> FJ_SHARE_KEY_CAP \<and>
    (\<forall>i. i \<in> set (used c) \<longleftrightarrow> (\<exists>s. resident c i s)) \<and>
    (\<forall>i s. resident c i s \<longrightarrow> slot_h (slots c ! i) = hash s \<and>
      (\<exists>k<8. i = probe_at (hash s) k \<and> (\<forall>j<k. \<exists>s'. resident c (probe_at (hash s) j) s' \<and> s' \<noteq> s)))"

lemma resident_fresh [simp]: "\<not> resident fresh_cache i s"
  by (auto simp: resident_def fresh_cache_def FJ_SHARE_SLOTS_def)

lemma key_cache_inv_fresh [simp]: "key_cache_inv hash fresh_cache"
proof -
  have "length (slots fresh_cache) = 512" "used fresh_cache = []"
    by (simp_all add: fresh_cache_def FJ_SHARE_SLOTS_def)
  then show ?thesis by (simp add: key_cache_inv_def)
qed

lemma key_cache_inv_counters [simp]:
  "key_cache_inv hash (c\<lparr>full_hits := x\<rparr>) = key_cache_inv hash c"
  "key_cache_inv hash (c\<lparr>full_misses := x\<rparr>) = key_cache_inv hash c"
  "key_cache_inv hash (c\<lparr>off := b\<rparr>) = key_cache_inv hash c"
  by (simp_all add: key_cache_inv_def resident_def)

lemma resident_counters [simp]:
  "resident (c\<lparr>full_hits := x\<rparr>) i s = resident c i s"
  "resident (c\<lparr>full_misses := x\<rparr>) i s = resident c i s"
  "resident (c\<lparr>off := b\<rparr>) i s = resident c i s"
  by (simp_all add: resident_def)

text \<open>Filling the first empty slot of a probe.\<close>

lemma key_cache_inv_fill:
  assumes c: "key_cache_inv hash c" and i: "i = probe_at (hash s) k" "k < 8"
    and free: "slot_str (slots c ! i) = None"
    and before: "\<forall>j<k. \<exists>s'. resident c (probe_at (hash s) j) s' \<and> s' \<noteq> s"
    and room: "length (used c) < FJ_SHARE_KEY_CAP"
  shows "key_cache_inv hash (c\<lparr>slots := (slots c)[i := \<lparr>slot_str = Some s, slot_h = hash s\<rparr>], used := used c @ [i]\<rparr>)"
    (is "key_cache_inv hash ?c'")
proof -
  have len: "length (slots c) = 512" and i512: "i < 512" using c i by (simp_all add: key_cache_inv_def)
  have res: "resident ?c' j t \<longleftrightarrow> (if j = i then t = s else resident c j t)" for j t
    using len i512 by (auto simp: resident_def nth_list_update)
  have old: "resident c j t \<Longrightarrow> j \<noteq> i" for j t using free by (auto simp: resident_def)
  have fresh: "i \<notin> set (used c)" using c free by (auto simp: key_cache_inv_def resident_def)
  have used: "j \<in> set (used ?c') \<longleftrightarrow> (\<exists>t. resident ?c' j t)" for j
    using c res by (auto simp: key_cache_inv_def)
  have probe: "slot_h (slots ?c' ! j) = hash t \<and>
      (\<exists>k<8. j = probe_at (hash t) k \<and> (\<forall>l<k. \<exists>s'. resident ?c' (probe_at (hash t) l) s' \<and> s' \<noteq> t))"
    if r: "resident ?c' j t" for j t
  proof (cases "j = i")
    case True
    then have "t = s" using r res by simp
    moreover have "\<forall>l<k. \<exists>s'. resident ?c' (probe_at (hash s) l) s' \<and> s' \<noteq> s"
      using before old res by metis
    ultimately show ?thesis using True i len by auto
  next
    case False
    then have t: "resident c j t" using r res by simp
    then obtain m where m: "m < 8" "j = probe_at (hash t) m"
        "\<forall>l<m. \<exists>s'. resident c (probe_at (hash t) l) s' \<and> s' \<noteq> t" and h: "slot_h (slots c ! j) = hash t"
      using c unfolding key_cache_inv_def by blast
    have "\<forall>l<m. \<exists>s'. resident ?c' (probe_at (hash t) l) s' \<and> s' \<noteq> t"
      using m(3) old res by metis
    then show ?thesis using m h False by auto
  qed
  have "length (slots ?c') = 512" "distinct (used ?c')" "length (used ?c') \<le> FJ_SHARE_KEY_CAP"
    using c fresh room by (simp_all add: key_cache_inv_def)
  with used probe show ?thesis unfolding key_cache_inv_def by blast
qed

lemma probe_loop_step:
  assumes "key_cache_inv hash c" "n + k = 8" "\<forall>j<k. \<exists>s'. resident c (probe_at (hash s) j) s' \<and> s' \<noteq> s"
    "full \<longleftrightarrow> FJ_SHARE_KEY_CAP \<le> length (used c)"
    "probe_loop n full s (hash s) (probe_at (hash s) k) c = Some (r, c')"
  shows "key_cache_inv hash c' \<and> (\<exists>i. r = Resident i s \<and> resident c' i s)"
  using assms
proof (induction n arbitrary: k)
  case 0
  then show ?case by simp
next
  case (Suc n)
  let ?i = "probe_at (hash s) k"
  have len: "length (slots c) = 512" using Suc.prems(1) by (simp add: key_cache_inv_def)
  show ?case
  proof (cases "slot_str (slots c ! ?i)")
    case None
    then have "\<not> full" and r: "r = Resident ?i s"
      and c': "c' = c\<lparr>slots := (slots c)[?i := \<lparr>slot_str = Some s, slot_h = hash s\<rparr>], used := used c @ [?i]\<rparr>"
      using Suc.prems(5) by (auto simp: Let_def split: if_splits)
    then have "key_cache_inv hash c'"
      using key_cache_inv_fill [OF Suc.prems(1) refl _ None Suc.prems(3)] Suc.prems(2,4) by auto
    moreover have "resident c' ?i s" using len c' by (simp add: resident_def)
    ultimately show ?thesis using r by blast
  next
    case (Some t)
    then have rt: "resident c ?i t" by (simp add: resident_def)
    then have h: "slot_h (slots c ! ?i) = hash t" using Suc.prems(1) unfolding key_cache_inv_def by blast
    show ?thesis
    proof (cases "t = s")
      case True
      then have "r = Resident ?i s" "c' = c\<lparr>full_hits := full_hits c + of_bool full\<rparr>"
        using Suc.prems(5) Some h by (auto simp: Let_def)
      then show ?thesis using Suc.prems(1) rt True by simp
    next
      case False
      then have p: "probe_loop n full s (hash s) (probe_at (hash s) (Suc k)) c = Some (r, c')"
        using Suc.prems(5) Some by (auto simp: Let_def probe_at_Suc)
      have b: "\<forall>j<Suc k. \<exists>s'. resident c (probe_at (hash s) j) s' \<and> s' \<noteq> s"
        using Suc.prems(3) rt False by (metis less_Suc_eq)
      have "n + Suc k = 8" using Suc.prems(2) by simp
      from Suc.IH [OF Suc.prems(1) this b Suc.prems(4) p] show ?thesis .
    qed
  qed
qed

text \<open>A resident string is found.\<close>

lemma probe_loop_hit:
  assumes "key_cache_inv hash c" "resident c (probe_at (hash s) m) s" "k \<le> m" "m < n + k"
    "\<forall>j<m. \<exists>s'. resident c (probe_at (hash s) j) s' \<and> s' \<noteq> s"
  shows "probe_loop n full s (hash s) (probe_at (hash s) k) c =
    Some (Resident (probe_at (hash s) m) s, c\<lparr>full_hits := full_hits c + of_bool full\<rparr>)"
  using assms
proof (induction n arbitrary: k)
  case 0
  then show ?case by simp
next
  case (Suc n)
  show ?case
  proof (cases "k = m")
    case True
    moreover have "slot_h (slots c ! probe_at (hash s) m) = hash s"
      using Suc.prems(1,2) unfolding key_cache_inv_def by blast
    ultimately show ?thesis using Suc.prems(2) by (simp add: Let_def resident_def)
  next
    case False
    then obtain t where t: "resident c (probe_at (hash s) k) t" "t \<noteq> s" using Suc.prems by (metis le_neq_implies_less)
    then have "probe_loop (Suc n) full s (hash s) (probe_at (hash s) k) c =
        probe_loop n full s (hash s) (probe_at (hash s) (Suc k)) c"
      by (auto simp: resident_def Let_def probe_at_Suc)
    then show ?thesis using Suc.IH [of "Suc k"] Suc.prems False by auto
  qed
qed

lemma probe_content:
  "probe_loop n full s h i c = Some (r, c') \<Longrightarrow> key_bytes r = s"
  by (induction n arbitrary: i) (auto simp: Let_def split: option.splits if_splits)

lemma probe_keeps_residents:
  "probe_loop n full s h i c = Some (r, c') \<Longrightarrow> resident c j t \<Longrightarrow> resident c' j t"
proof (induction n arbitrary: i)
  case (Suc n)
  show ?case
  proof (cases "slot_str (slots c ! i)")
    case None
    then have "c' = c\<lparr>slots := (slots c)[i := \<lparr>slot_str = Some s, slot_h = h\<rparr>], used := used c @ [i]\<rparr>"
      using Suc.prems(1) by (auto simp: Let_def split: if_splits)
    then show ?thesis using None Suc.prems(2) by (cases "i = j") (auto simp: resident_def)
  next
    case (Some x)
    then show ?thesis using Suc by (auto simp: Let_def split: if_splits)
  qed
qed simp

subsection \<open>Requests\<close>

text \<open>The cache after the requests of a walk.\<close>

definition share_keys :: "hash_func \<Rightarrow> bytes list \<Rightarrow> fj_key_cache option \<Rightarrow> fj_key_cache option" where
  "share_keys hash ks share = fold (\<lambda>k c. snd (fj_share_key hash k c)) ks share"

definition cache_ok :: "hash_func \<Rightarrow> fj_key_cache option \<Rightarrow> bool" where
  "cache_ok hash share \<longleftrightarrow> (case share of None \<Rightarrow> True | Some c \<Rightarrow> key_cache_inv hash c)"

lemma share_slow_inv:
  assumes "key_cache_inv hash c" "fj_share_key_slow hash c s = (r, c')"
  shows "key_cache_inv hash c'"
proof -
  have "key_cache_inv hash d" if "probe_loop 8 full s (hash s) (slot_index (hash s)) c = Some (q, d)"
      "full \<longleftrightarrow> FJ_SHARE_KEY_CAP \<le> length (used c)" for full q d
    using probe_loop_step [OF assms(1), of 8 0 s full q d] that by simp
  then show ?thesis using assms by (auto simp: fj_share_key_slow_def Let_def split: if_splits option.splits)
qed

lemma share_key_inv:
  assumes "cache_ok hash share"
  shows "cache_ok hash (snd (fj_share_key hash s share))"
proof (cases share)
  case (Some c)
  show ?thesis
  proof (cases "off c \<or> FJ_SHARE_KEY_MAX < length s")
    case False
    then have "snd (fj_share_key hash s share) = Some (snd (fj_share_key_slow hash c s))"
      using Some by (simp add: fj_share_key_def split_beta)
    then show ?thesis using assms Some share_slow_inv [of hash c s] by (simp add: cache_ok_def prod_eq_iff)
  qed (use assms Some in \<open>auto simp: fj_share_key_def cache_ok_def\<close>)
qed (simp add: fj_share_key_def cache_ok_def)

lemma share_keys_inv: "cache_ok hash share \<Longrightarrow> cache_ok hash (share_keys hash ks share)"
  by (induction ks arbitrary: share) (simp_all add: share_keys_def share_key_inv)

lemma share_key_content: "fst (fj_share_key hash s share) = Some r \<Longrightarrow> key_bytes r = s"
  by (auto simp: fj_share_key_def fj_share_key_slow_def Let_def split: option.splits if_splits prod.splits
      dest: probe_content)

definition holds :: "fj_key_cache option \<Rightarrow> nat \<Rightarrow> bytes \<Rightarrow> bool" where
  "holds share i s \<longleftrightarrow> (\<exists>c. share = Some c \<and> resident c i s)"

lemma share_key_keeps: "holds share i t \<Longrightarrow> holds (snd (fj_share_key hash s share)) i t"
  by (auto simp: holds_def fj_share_key_def fj_share_key_slow_def Let_def split_beta
      split: option.splits dest: probe_keeps_residents)

lemma share_keys_keep: "holds share i t \<Longrightarrow> holds (share_keys hash ks share) i t"
  by (induction ks arbitrary: share) (simp_all add: share_keys_def share_key_keeps)

lemma resident_hit:
  assumes "key_cache_inv hash c" "resident c i s"
  shows "probe_loop 8 full s (hash s) (slot_index (hash s)) c =
    Some (Resident i s, c\<lparr>full_hits := full_hits c + of_bool full\<rparr>)"
proof -
  obtain k where "k < 8" "i = probe_at (hash s) k" "\<forall>j<k. \<exists>s'. resident c (probe_at (hash s) j) s' \<and> s' \<noteq> s"
    using assms unfolding key_cache_inv_def by blast
  then show ?thesis using probe_loop_hit [OF assms(1), of s k 0 8 full] assms(2) by simp
qed

lemma share_key_Some:
  "\<not> off c \<Longrightarrow> length s \<le> FJ_SHARE_KEY_MAX \<Longrightarrow>
    fj_share_key hash s (Some c) = (fst (fj_share_key_slow hash c s), Some (snd (fj_share_key_slow hash c s)))"
  by (simp add: fj_share_key_def split_beta)

lemma share_key_hit:
  assumes "cache_ok hash share" "holds share i s"
  shows "fst (fj_share_key hash s share) \<in> {Some (Resident i s), None}"
proof -
  obtain c where c: "share = Some c" "resident c i s" "key_cache_inv hash c"
    using assms by (auto simp: cache_ok_def holds_def)
  have "fst (fj_share_key_slow hash c s) \<in> {Some (Resident i s), None}"
    using resident_hit [OF c(3,2)] by (simp add: fj_share_key_slow_def Let_def)
  then show ?thesis using c(1) by (simp add: fj_share_key_def split_beta)
qed

lemma share_slow_resident:
  assumes "fst (fj_share_key_slow hash c s) = Some (Resident i t)"
  obtains full where "full \<longleftrightarrow> FJ_SHARE_KEY_CAP \<le> length (used c)"
    "probe_loop 8 full s (hash s) (slot_index (hash s)) c = Some (Resident i t, snd (fj_share_key_slow hash c s))"
  using assms by (fastforce simp: fj_share_key_slow_def Let_def split: option.splits if_splits)

lemma share_key_holds:
  assumes "cache_ok hash share" "fst (fj_share_key hash s share) = Some (Resident i t)"
  shows "holds (snd (fj_share_key hash s share)) i s"
proof -
  obtain c where c: "share = Some c" "key_cache_inv hash c" "\<not> off c" "length s \<le> FJ_SHARE_KEY_MAX"
    using assms by (auto simp: fj_share_key_def cache_ok_def split: option.splits if_splits)
  with assms(2) have "fst (fj_share_key_slow hash c s) = Some (Resident i t)" by (simp add: share_key_Some)
  from share_slow_resident [OF this] have "resident (snd (fj_share_key_slow hash c s)) i s"
    using probe_loop_step [OF c(2), of 8 0 s] by fastforce
  then show ?thesis using c by (simp add: holds_def share_key_Some)
qed

subsection \<open>Properties\<close>

text \<open>Whatever a walk asked for before, the key the cache hands out holds exactly the bytes asked for; the
  hash function does not matter.\<close>

theorem shared_key_content:
  "case fst (fj_share_key hash str (share_keys hash ks share)) of None \<Rightarrow> True | Some r \<Rightarrow> key_bytes r = str"
  using share_key_content [of hash str] by (auto split: option.splits)


text \<open>C37: at the end of a walk that started with an empty table, the strings released are those in the table, each
  once and at most 256, and the globals hold the enclosing walk's cache again.\<close>

theorem pop_releases_residents:
  "case share_keys hash ks (Some fresh_cache) of
     None \<Rightarrow> False
   | Some c \<Rightarrow>
      (let (released, g') = fj_key_share_pop prev (g\<lparr>key_share := Some c\<rparr>) in
       distinct released \<and> set released = {Some s |s. \<exists>i. resident c i s} \<and> length released \<le> 256 \<and>
       g' = g\<lparr>key_share := prev\<rparr>)"
proof -
  have ok: "cache_ok hash (share_keys hash ks (Some fresh_cache))"
    by (rule share_keys_inv) (simp add: cache_ok_def)
  have some: "\<exists>c'. share_keys hash ks (Some c) = Some c'" for c
    by (induction ks arbitrary: c)
      (auto simp: share_keys_def fj_share_key_def split_beta)
  then obtain c where c: "share_keys hash ks (Some fresh_cache) = Some c" by blast
  with ok have inv: "key_cache_inv hash c" by (simp add: cache_ok_def)
  have occ: "i \<in> set (used c) \<longleftrightarrow> (\<exists>s. resident c i s)" for i using inv by (simp add: key_cache_inv_def)
  have same: "i = j" if "resident c i s" "resident c j s" for i j s
    using resident_hit [OF inv that(1), of True] resident_hit [OF inv that(2), of True] by simp
  have "inj_on (\<lambda>i. slot_str (slots c ! i)) (set (used c))"
    using same occ by (auto simp: inj_on_def resident_def)
  then have d: "distinct (map (\<lambda>i. slot_str (slots c ! i)) (used c))"
    using inv by (simp add: distinct_map key_cache_inv_def)
  have s: "(\<lambda>i. slot_str (slots c ! i)) ` set (used c) = {Some s |s. \<exists>i. resident c i s}"
    using occ by (auto simp: resident_def image_iff) (metis)+
  show ?thesis using c d s inv
    by (simp add: fj_key_share_pop_def key_cache_inv_def FJ_SHARE_KEY_CAP_def)
qed

end
