(* ===== verification/YyString.thy ===== *)
theory YyString
  imports Utf8
begin

text \<open>
  The vendored single-string writer (vendor/yyjson/yyjson.c): the UTF-8 sequence tests on a loaded
  32-bit word, the encode tables, and \<open>write_str\<close> with its two modes, run of plain characters and
  character at a time. fastjson calls it through \<open>yyjson_write_string_to_buf\<close>.

  The abstract side is \<open>json_unquote\<close>, a reader of JSON string literals written from the
  grammar of RFC 8259. The main results: the writer fails exactly on input that is not
  well-formed UTF-8, its output has the length computed by the table of widths, and reading the
  output back gives the input.
\<close>

subsection \<open>Write flags\<close>

type_synonym yyjson_write_flag = "32 word"

definition YYJSON_WRITE_PRETTY :: yyjson_write_flag where "YYJSON_WRITE_PRETTY = 0x01"
definition YYJSON_WRITE_ESCAPE_UNICODE :: yyjson_write_flag where "YYJSON_WRITE_ESCAPE_UNICODE = 0x02"
definition YYJSON_WRITE_ESCAPE_SLASHES :: yyjson_write_flag where "YYJSON_WRITE_ESCAPE_SLASHES = 0x04"
definition YYJSON_WRITE_ALLOW_INVALID_UNICODE :: yyjson_write_flag where
  "YYJSON_WRITE_ALLOW_INVALID_UNICODE = 0x20"
definition YYJSON_WRITE_LOWERCASE_HEX :: yyjson_write_flag where "YYJSON_WRITE_LOWERCASE_HEX = 0x100"

definition has_flg :: "yyjson_write_flag \<Rightarrow> yyjson_write_flag \<Rightarrow> bool" where
  "has_flg flg f \<longleftrightarrow> flg AND f \<noteq> 0"

subsection \<open>Sequence tests on a loaded word\<close>

fun load32 :: "bytes \<Rightarrow> 32 word" where
  "load32 [] = 0"
| "load32 (b # r) = ucast b OR push_bit 8 (load32 r)"

definition is_utf8_seq2 :: "32 word \<Rightarrow> bool" where
  "is_utf8_seq2 uni \<longleftrightarrow> uni AND 0x0000C0E0 = 0x000080C0 \<and> uni AND 0x0000001E \<noteq> 0"

definition is_utf8_seq3 :: "32 word \<Rightarrow> bool" where
  "is_utf8_seq3 uni \<longleftrightarrow> uni AND 0x00C0C0F0 = 0x008080E0 \<and>
     (let tmp = uni AND 0x0000200F in tmp \<noteq> 0 \<and> tmp \<noteq> 0x0000200D)"

definition is_utf8_seq4 :: "32 word \<Rightarrow> bool" where
  "is_utf8_seq4 uni \<longleftrightarrow> uni AND 0xC0C0C0F8 = 0x808080F0 \<and>
     (let tmp = uni AND 0x00003007 in tmp \<noteq> 0 \<and>
       (tmp AND 0x00000004 = 0 \<or> tmp AND 0x00003003 = 0))"

lemma load32_and:
  "length bs = length cs \<Longrightarrow> load32 bs AND load32 cs = load32 (map2 (AND) bs cs)"
proof (induction bs cs rule: list_induct2)
  case (Cons b bs c cs)
  have "(ucast b OR push_bit 8 (load32 bs)) AND (ucast c OR push_bit 8 (load32 cs))
      = ucast (b AND c) OR push_bit 8 (load32 bs AND load32 cs)"
    by (rule bit_word_eqI) (auto simp: bit_simps dest: bit_imp_le_length)
  with Cons.IH show ?case by simp
qed simp

lemma load32_byte: "length bs \<le> 4 \<Longrightarrow> i < length bs \<Longrightarrow> bs ! i = ucast (drop_bit (8 * i) (load32 bs))"
proof (induction bs arbitrary: i)
  case (Cons b r)
  show ?case
  proof (cases i)
    case 0
    have "ucast (ucast b OR push_bit 8 (load32 r)) = b"
      by (rule bit_word_eqI) (auto simp: bit_simps dest: bit_imp_le_length)
    with 0 show ?thesis by simp
  next
    case (Suc j)
    with Cons.prems have j: "j < 3" by simp
    have "ucast (drop_bit (8 * i) (load32 (b # r))) = (ucast (drop_bit (8 * j) (load32 r)) :: byte)"
      using j Suc by (intro bit_word_eqI) (auto simp: bit_simps dest: bit_imp_le_length)
    with Cons Suc show ?thesis by simp
  qed
qed simp

lemma load32_inj: "length bs = length cs \<Longrightarrow> length bs \<le> 4 \<Longrightarrow> load32 bs = load32 cs \<longleftrightarrow> bs = cs"
  using load32_byte [of bs] load32_byte [of cs] by (metis nth_equalityI)

lemma load32_mask:
  "m = load32 [m0, m1, m2, m3] \<Longrightarrow> p = load32 [p0, p1, p2, p3] \<Longrightarrow>
   load32 [a, b, c, d] AND m = p \<longleftrightarrow> a AND m0 = p0 \<and> b AND m1 = p1 \<and> c AND m2 = p2 \<and> d AND m3 = p3"
  by (simp only: load32_and list.size list.map zip_Cons_Cons zip.simps) (simp add: load32_inj load32_and del: load32.simps)

lemma is_utf8_seq2_bytes:
  "is_utf8_seq2 (load32 [a, b, 0, 0]) \<longleftrightarrow> a AND 0xE0 = 0xC0 \<and> b AND 0xC0 = 0x80 \<and> a AND 0x1E \<noteq> 0"
proof -
  have m: "(0x0000C0E0 :: 32 word) = load32 [0xE0, 0xC0, 0, 0]" "(0x000080C0 :: 32 word) = load32 [0xC0, 0x80, 0, 0]"
    "(0x0000001E :: 32 word) = load32 [0x1E, 0, 0, 0]" "(0 :: 32 word) = load32 [0, 0, 0, 0]"
    by simp_all
  show ?thesis
    unfolding is_utf8_seq2_def load32_mask [OF m(1,2)] load32_mask [OF m(3,4)] by simp
qed

lemma is_utf8_seq3_bytes:
  "is_utf8_seq3 (load32 [a, b, c, d]) \<longleftrightarrow>
     a AND 0xF0 = 0xE0 \<and> b AND 0xC0 = 0x80 \<and> c AND 0xC0 = 0x80 \<and>
     \<not> (a AND 0x0F = 0 \<and> b AND 0x20 = 0) \<and> \<not> (a AND 0x0F = 0x0D \<and> b AND 0x20 = 0x20)"
proof -
  have m: "(0x00C0C0F0 :: 32 word) = load32 [0xF0, 0xC0, 0xC0, 0]" "(0x008080E0 :: 32 word) = load32 [0xE0, 0x80, 0x80, 0]"
    "(0x0000200F :: 32 word) = load32 [0x0F, 0x20, 0, 0]" "(0 :: 32 word) = load32 [0, 0, 0, 0]"
    "(0x0000200D :: 32 word) = load32 [0x0D, 0x20, 0, 0]"
    by simp_all
  show ?thesis
    unfolding is_utf8_seq3_def Let_def load32_mask [OF m(1,2)] load32_mask [OF m(3,4)] load32_mask [OF m(3,5)]
    by simp
qed

lemma is_utf8_seq4_bytes:
  "is_utf8_seq4 (load32 [a, b, c, d]) \<longleftrightarrow>
     a AND 0xF8 = 0xF0 \<and> b AND 0xC0 = 0x80 \<and> c AND 0xC0 = 0x80 \<and> d AND 0xC0 = 0x80 \<and>
     \<not> (a AND 0x07 = 0 \<and> b AND 0x30 = 0) \<and> (a AND 0x04 = 0 \<or> (a AND 0x03 = 0 \<and> b AND 0x30 = 0))"
proof -
  have m: "(0xC0C0C0F8 :: 32 word) = load32 [0xF8, 0xC0, 0xC0, 0xC0]"
    "(0x808080F0 :: 32 word) = load32 [0xF0, 0x80, 0x80, 0x80]"
    "(0x00003007 :: 32 word) = load32 [0x07, 0x30, 0, 0]" "(0 :: 32 word) = load32 [0, 0, 0, 0]"
    "(0x00000004 :: 32 word) = load32 [0x04, 0, 0, 0]" "(0x00003003 :: 32 word) = load32 [0x03, 0x30, 0, 0]"
    by simp_all
  have w: "(0x00003007 :: 32 word) AND 0x00000004 = 0x00000004"
    "(0x00003007 :: 32 word) AND 0x00003003 = 0x00003003" by simp_all
  show ?thesis
    unfolding is_utf8_seq4_def Let_def and.assoc w
      load32_mask [OF m(1,2)] load32_mask [OF m(3,4)] load32_mask [OF m(5,4)] load32_mask [OF m(6,4)]
    by simp
qed

declare load32.simps [simp del]

text \<open>The sequence tests accept what the table accepts, given the class of the lead byte.\<close>

lemma seq2_trail:
  "0xC0 \<le> a \<Longrightarrow> a < 0xE0 \<Longrightarrow> is_utf8_seq2 (load32 [a, b, 0, 0]) \<longleftrightarrow> 0xC2 \<le> a \<and> utf8_trail b"
proof -
  assume a: "0xC0 \<le> a" "a < 0xE0"
  define x where "x = unat a - 192"
  have x: "unat a = 192 + x" "x < 32" using a by (auto simp: x_def byte_arith)
  have "a AND 0xE0 = 0xC0" using x by (simp add: byte_arith)
  moreover have "a AND 0x1E \<noteq> 0 \<longleftrightarrow> 2 \<le> x"
  proof -
    have "(192 + x) div 2 mod 16 = x div 2"
      using x by (intro mod_eqI [of _ _ 6]) linarith+
    with x show ?thesis by (simp add: byte_arith) linarith
  qed
  ultimately show ?thesis
    using x unfolding is_utf8_seq2_bytes trail_mask by (auto simp: byte_arith)
qed

lemma and_digit [byte_arith]:
  "y < 64 \<Longrightarrow> unat (byte_of (128 + y) AND 0x20) = (if y < 32 then 0 else 32)"
  "y < 64 \<Longrightarrow> unat (byte_of (128 + y) AND 0x30) = 16 * (y div 16)"
  by (simp_all add: byte_arith) (auto intro!: mod_eqI [of _ _ 4] mod_eqI [of _ _ 2] simp: div_eqI)

lemma seq3_trail:
  "0xE0 \<le> a \<Longrightarrow> a < 0xF0 \<Longrightarrow> is_utf8_seq3 (load32 [a, b, c, d]) \<longleftrightarrow> second_ok a b \<and> utf8_trail c"
proof -
  assume a: "0xE0 \<le> a" "a < 0xF0"
  define x where "x = unat a - 224"
  have x: "unat a = 224 + x" "x < 16" using a by (auto simp: x_def byte_arith)
  have f0: "a AND 0xF0 = 0xE0" using x by (simp add: byte_arith div_eqI [of _ 14])
  have f1: "unat (a AND 0x0F) = x" using x by (simp add: byte_arith mod_eqI [of _ _ 14])
  show ?thesis
  proof (cases "utf8_trail b")
    case True
    then obtain y where y: "y < 64" "b = byte_of (128 + y)" using trail_digit by blast
    have "second_ok a b \<longleftrightarrow> \<not> (x = 0 \<and> y < 32) \<and> \<not> (x = 13 \<and> \<not> y < 32)"
      using x y(1) True [unfolded y(2)] unfolding y(2) by (auto simp: second_ok_def byte_arith)
    moreover have "b AND 0x20 = 0 \<longleftrightarrow> y < 32" "b AND 0x20 = 0x20 \<longleftrightarrow> \<not> y < 32"
      using y(1) unfolding y(2) by (simp_all add: byte_eq_unat and_digit)
    moreover have "a AND 0x0F = 0 \<longleftrightarrow> x = 0" "a AND 0x0F = 0x0D \<longleftrightarrow> x = 13"
      by (simp_all add: byte_eq_unat f1)
    ultimately show ?thesis
      using True f0 unfolding is_utf8_seq3_bytes trail_mask by auto
  next
    case False
    then show ?thesis unfolding is_utf8_seq3_bytes trail_mask by (auto dest: second_ok_trail)
  qed
qed

lemma seq4_trail:
  "0xF0 \<le> a \<Longrightarrow> a < 0xF8 \<Longrightarrow> is_utf8_seq4 (load32 [a, b, c, d]) \<longleftrightarrow>
     a < 0xF5 \<and> second_ok a b \<and> utf8_trail c \<and> utf8_trail d"
proof -
  assume a: "0xF0 \<le> a" "a < 0xF8"
  define x where "x = unat a - 240"
  have x: "unat a = 240 + x" "x < 8" using a by (auto simp: x_def byte_arith)
  have f0: "a AND 0xF8 = 0xF0" using x by (simp add: byte_arith div_eqI [of _ 30])
  have f1: "unat (a AND 0x07) = x" "unat (a AND 0x04) = 4 * (x div 4)" "unat (a AND 0x03) = x mod 4"
    using x by (simp_all add: byte_arith mod_eqI [of _ _ 30] mod_eqI [of _ _ "60 + x div 4"])
  show ?thesis
  proof (cases "utf8_trail b")
    case True
    then obtain y where y: "y < 64" "b = byte_of (128 + y)" using trail_digit by blast
    have "a < 0xF5 \<and> second_ok a b \<longleftrightarrow> x < 5 \<and> \<not> (x = 0 \<and> y < 16) \<and> \<not> (x = 4 \<and> \<not> y < 16)"
      using x y(1) True [unfolded y(2)] unfolding y(2) by (auto simp: second_ok_def byte_arith)
    moreover have "b AND 0x30 = 0 \<longleftrightarrow> y < 16"
      using y(1) unfolding y(2) by (simp add: byte_eq_unat and_digit div_eq_0_iff)
    moreover have "a AND 0x07 = 0 \<longleftrightarrow> x = 0" "a AND 0x04 = 0 \<longleftrightarrow> x < 4"
      by (simp_all add: byte_eq_unat f1 div_eq_0_iff)
    moreover have "a AND 0x03 = 0 \<longleftrightarrow> x = 0 \<or> x = 4"
      using x by (simp add: byte_eq_unat f1) presburger
    ultimately show ?thesis
      using True f0 x unfolding is_utf8_seq4_bytes trail_mask by auto
  next
    case False
    then show ?thesis unfolding is_utf8_seq4_bytes trail_mask by (auto dest: second_ok_trail)
  qed
qed

subsection \<open>Encode tables\<close>

abbreviation (input) "CHAR_ENC_CPY_1 \<equiv> 0 :: nat"
abbreviation (input) "CHAR_ENC_ERR_1 \<equiv> 1 :: nat"
abbreviation (input) "CHAR_ENC_ESC_A \<equiv> 2 :: nat"
abbreviation (input) "CHAR_ENC_ESC_1 \<equiv> 3 :: nat"
abbreviation (input) "CHAR_ENC_CPY_2 \<equiv> 4 :: nat"
abbreviation (input) "CHAR_ENC_ESC_2 \<equiv> 5 :: nat"
abbreviation (input) "CHAR_ENC_CPY_3 \<equiv> 6 :: nat"
abbreviation (input) "CHAR_ENC_ESC_3 \<equiv> 7 :: nat"
abbreviation (input) "CHAR_ENC_CPY_4 \<equiv> 8 :: nat"
abbreviation (input) "CHAR_ENC_ESC_4 \<equiv> 9 :: nat"

text \<open>The four 256-entry tables, by the rows they consist of: \<open>esc\<close> selects the tables that escape
  non-ASCII characters, \<open>slash\<close> those that escape the solidus.\<close>

definition enc_table :: "bool \<Rightarrow> bool \<Rightarrow> byte \<Rightarrow> nat" where
  "enc_table esc slash c =
    (if c < 0x20 then
       (if c = 0x08 \<or> c = 0x09 \<or> c = 0x0A \<or> c = 0x0C \<or> c = 0x0D then CHAR_ENC_ESC_A else CHAR_ENC_ESC_1)
     else if c = 0x22 \<or> c = 0x5C \<or> (slash \<and> c = 0x2F) then CHAR_ENC_ESC_A
     else if c < 0x80 then CHAR_ENC_CPY_1
     else if c < 0xC0 then CHAR_ENC_ERR_1
     else if c < 0xE0 then (if esc then CHAR_ENC_ESC_2 else CHAR_ENC_CPY_2)
     else if c < 0xF0 then (if esc then CHAR_ENC_ESC_3 else CHAR_ENC_CPY_3)
     else if c < 0xF8 then (if esc then CHAR_ENC_ESC_4 else CHAR_ENC_CPY_4)
     else CHAR_ENC_ERR_1)"

definition get_enc_table_with_flag :: "yyjson_write_flag \<Rightarrow> byte \<Rightarrow> nat" where
  "get_enc_table_with_flag flg =
    (if has_flg flg YYJSON_WRITE_ESCAPE_UNICODE then
       (if has_flg flg YYJSON_WRITE_ESCAPE_SLASHES then enc_table True True else enc_table True False)
     else
       (if has_flg flg YYJSON_WRITE_ESCAPE_SLASHES then enc_table False True else enc_table False False))"

text \<open>Two bytes of \<open>esc_single_char_table\<close> at \<open>c * 2\<close>, where it is not a pair of blanks.\<close>

definition esc_single_char_table :: "byte \<Rightarrow> bytes" where
  "esc_single_char_table c =
    (if c = 0x08 then [0x5C, 0x62] else if c = 0x09 then [0x5C, 0x74]
     else if c = 0x0A then [0x5C, 0x6E] else if c = 0x0C then [0x5C, 0x66]
     else if c = 0x0D then [0x5C, 0x72] else if c = 0x22 then [0x5C, 0x22]
     else if c = 0x2F then [0x5C, 0x2F] else if c = 0x5C then [0x5C, 0x5C]
     else [0x20, 0x20])"

text \<open>Two bytes of \<open>esc_hex_char_table\<close> or its lowercase variant at \<open>i * 2\<close>.\<close>

definition hex_digit :: "bool \<Rightarrow> nat \<Rightarrow> byte" where
  "hex_digit lower n = byte_of (if n < 10 then 48 + n else if lower then 87 + n else 55 + n)"

definition hex_table :: "bool \<Rightarrow> nat \<Rightarrow> bytes" where
  "hex_table lower i = [hex_digit lower (i div 16), hex_digit lower (i mod 16)]"

definition get_hex_table_with_flag :: "yyjson_write_flag \<Rightarrow> nat \<Rightarrow> bytes" where
  "get_hex_table_with_flag flg =
    (if has_flg flg YYJSON_WRITE_LOWERCASE_HEX then hex_table True else hex_table False)"

subsection \<open>The writer\<close>

text \<open>
  One turn of the loop at \<open>copy_utf8\<close> on a non-empty remainder: the bytes stored and the number of
  source bytes consumed, or the \<open>NULL\<close> return. \<open>esc\<close> and \<open>inval\<close> (\<open>inv\<close> in the source) are the flags "escape Unicode" and
  "allow invalid Unicode".
\<close>

definition err_cpy :: "bool \<Rightarrow> bytes \<Rightarrow> (bytes \<times> nat) option" where
  "err_cpy inval src = (if \<not> inval then None else Some ([src ! 0], 1))"

definition err_esc :: "bool \<Rightarrow> (nat \<Rightarrow> bytes) \<Rightarrow> (bytes \<times> nat) option" where
  "err_esc inval hex = (if \<not> inval then None else Some ([0x5C, 0x75] @ hex 0xFF @ hex 0xFD, 1))"

definition err_one :: "bool \<Rightarrow> bool \<Rightarrow> (nat \<Rightarrow> bytes) \<Rightarrow> bytes \<Rightarrow> (bytes \<times> nat) option" where
  "err_one esc inval hex src = (if esc then err_esc inval hex else err_cpy inval src)"

definition u16_escape :: "(nat \<Rightarrow> bytes) \<Rightarrow> 32 word \<Rightarrow> bytes" where
  "u16_escape hex u = [0x5C, 0x75] @ hex (unat (drop_bit 8 u)) @ hex (unat (u AND 0xFF))"

definition write_utf8_char ::
    "bool \<Rightarrow> bool \<Rightarrow> (byte \<Rightarrow> nat) \<Rightarrow> (nat \<Rightarrow> bytes) \<Rightarrow> bytes \<Rightarrow> (bytes \<times> nat) option" where
  "write_utf8_char esc inval enc hex src =
    (let c = src ! 0; ty = enc c in
     if length src < 4 \<and> length src < ty div 2 then err_one esc inval hex src
     else if ty = CHAR_ENC_CPY_1 then Some ([c], 1)
     else if ty = CHAR_ENC_CPY_2 then
       (if \<not> is_utf8_seq2 (load32 [c, src ! 1, 0, 0]) then err_cpy inval src
        else Some ([c, src ! 1], 2))
     else if ty = CHAR_ENC_CPY_3 then
       (if 4 \<le> length src then
          (if \<not> is_utf8_seq3 (load32 [c, src ! 1, src ! 2, src ! 3]) then err_cpy inval src
           else Some ([c, src ! 1, src ! 2], 3))
        else
          (if \<not> is_utf8_seq3 (load32 [c, src ! 1, src ! 2, 0]) then err_cpy inval src
           else Some ([c, src ! 1, src ! 2], 3)))
     else if ty = CHAR_ENC_CPY_4 then
       (if \<not> is_utf8_seq4 (load32 [c, src ! 1, src ! 2, src ! 3]) then err_cpy inval src
        else Some ([c, src ! 1, src ! 2, src ! 3], 4))
     else if ty = CHAR_ENC_ESC_A then Some (esc_single_char_table c, 1)
     else if ty = CHAR_ENC_ESC_1 then Some ([0x5C, 0x75, 0x30, 0x30] @ hex (unat c), 1)
     else if ty = CHAR_ENC_ESC_2 then
       (if \<not> is_utf8_seq2 (load32 [c, src ! 1, 0, 0]) then err_esc inval hex
        else Some (u16_escape hex (cp2 c (src ! 1)), 2))
     else if ty = CHAR_ENC_ESC_3 then
       (if \<not> is_utf8_seq3 (load32 [c, src ! 1, src ! 2, 0]) then err_esc inval hex
        else Some (u16_escape hex (cp3 c (src ! 1) (src ! 2)), 3))
     else if ty = CHAR_ENC_ESC_4 then
       (if \<not> is_utf8_seq4 (load32 [c, src ! 1, src ! 2, src ! 3]) then err_esc inval hex
        else let u = cp4 c (src ! 1) (src ! 2) (src ! 3) - 0x10000;
                 hi = drop_bit 10 u + 0xD800;
                 lo = (u AND 0x3FF) + 0xDC00
             in Some (u16_escape hex hi @ u16_escape hex lo, 4))
     else err_one esc inval hex src)"

lemma write_utf8_char_positive: "write_utf8_char esc inval enc hex src = Some (out, n) \<Longrightarrow> 0 < n"
  by (auto simp: write_utf8_char_def err_one_def err_cpy_def err_esc_def Let_def split: if_splits)

text \<open>The labels \<open>copy_ascii\<close> and \<open>copy_utf8\<close>, with the quote at \<open>copy_end\<close>. The unrolled copying
  of plain characters is the loop its comment gives: up to the first character with a non-zero
  table entry.\<close>

function copy_ascii :: "bool \<Rightarrow> bool \<Rightarrow> (byte \<Rightarrow> nat) \<Rightarrow> (nat \<Rightarrow> bytes) \<Rightarrow> bytes \<Rightarrow> bytes option"
  and copy_utf8 :: "bool \<Rightarrow> bool \<Rightarrow> (byte \<Rightarrow> nat) \<Rightarrow> (nat \<Rightarrow> bytes) \<Rightarrow> bytes \<Rightarrow> bytes option" where
  "copy_ascii esc inval enc hex src =
    (let run = takeWhile (\<lambda>c. enc c = CHAR_ENC_CPY_1) src in
     if length run = length src then Some (run @ [0x22])
     else map_option ((@) run) (copy_utf8 esc inval enc hex (drop (length run) src)))"
| "copy_utf8 esc inval enc hex src =
    (if src = [] then Some [0x22]
     else case write_utf8_char esc inval enc hex src of
         None \<Rightarrow> None
       | Some (out, n) \<Rightarrow> map_option ((@) out)
           (if enc (src ! 0) = CHAR_ENC_CPY_1 then copy_ascii esc inval enc hex (drop n src)
            else copy_utf8 esc inval enc hex (drop n src)))"
  by pat_completeness auto
termination
  by (relation "measure (\<lambda>x. case x of Inl (_, _, _, _, s) \<Rightarrow> 2 * length s + 1 | Inr (_, _, _, _, s) \<Rightarrow> 2 * length s)")
    (auto dest!: write_utf8_char_positive simp: neq_Nil_conv)

declare copy_ascii.simps [simp del] copy_utf8.simps [simp del]

definition write_str :: "bool \<Rightarrow> bool \<Rightarrow> (byte \<Rightarrow> nat) \<Rightarrow> (nat \<Rightarrow> bytes) \<Rightarrow> bytes \<Rightarrow> bytes option" where
  "write_str esc inval enc hex str = map_option (\<lambda>body. 0x22 # body) (copy_ascii esc inval enc hex str)"

definition yyjson_write_string_to_buf :: "bytes \<Rightarrow> yyjson_write_flag \<Rightarrow> bytes option" where
  "yyjson_write_string_to_buf str flg =
    write_str (has_flg flg YYJSON_WRITE_ESCAPE_UNICODE) (has_flg flg YYJSON_WRITE_ALLOW_INVALID_UNICODE)
      (get_enc_table_with_flag flg) (get_hex_table_with_flag flg) str"

subsection \<open>What one turn writes\<close>

definition yy_char :: "yyjson_write_flag \<Rightarrow> bytes \<Rightarrow> (bytes \<times> nat) option" where
  "yy_char flg = write_utf8_char (has_flg flg YYJSON_WRITE_ESCAPE_UNICODE)
     (has_flg flg YYJSON_WRITE_ALLOW_INVALID_UNICODE) (get_enc_table_with_flag flg) (get_hex_table_with_flag flg)"

text \<open>The output for the character at the head, given that one is there.\<close>

definition ascii_out :: "yyjson_write_flag \<Rightarrow> byte \<Rightarrow> bytes" where
  "ascii_out flg c =
    (let ty = get_enc_table_with_flag flg c in
     if ty = CHAR_ENC_CPY_1 then [c]
     else if ty = CHAR_ENC_ESC_A then esc_single_char_table c
     else [0x5C, 0x75, 0x30, 0x30] @ get_hex_table_with_flag flg (unat c))"

definition char_out :: "yyjson_write_flag \<Rightarrow> bytes \<Rightarrow> bytes" where
  "char_out flg r =
    (let n = utf8_next r; hex = get_hex_table_with_flag flg in
     if n = 1 then ascii_out flg (r ! 0)
     else if \<not> has_flg flg YYJSON_WRITE_ESCAPE_UNICODE then take n r
     else if n = 2 then u16_escape hex (cp2 (r ! 0) (r ! 1))
     else if n = 3 then u16_escape hex (cp3 (r ! 0) (r ! 1) (r ! 2))
     else let u = cp4 (r ! 0) (r ! 1) (r ! 2) (r ! 3) - 0x10000 in
       u16_escape hex (drop_bit 10 u + 0xD800) @ u16_escape hex ((u AND 0x3FF) + 0xDC00))"

lemma get_enc_table_flag:
  "get_enc_table_with_flag flg =
     enc_table (has_flg flg YYJSON_WRITE_ESCAPE_UNICODE) (has_flg flg YYJSON_WRITE_ESCAPE_SLASHES)"
  by (simp add: get_enc_table_with_flag_def)

lemma enc_table_ascii: "a < 0x80 \<Longrightarrow> enc_table e s a = CHAR_ENC_CPY_1 \<or> enc_table e s a = CHAR_ENC_ESC_A
    \<or> enc_table e s a = CHAR_ENC_ESC_1"
  by (simp add: enc_table_def)

lemma enc_table_high:
  "\<not> a < 0x80 \<Longrightarrow> enc_table e s a =
    (if a < 0xC0 then CHAR_ENC_ERR_1
     else if a < 0xE0 then (if e then CHAR_ENC_ESC_2 else CHAR_ENC_CPY_2)
     else if a < 0xF0 then (if e then CHAR_ENC_ESC_3 else CHAR_ENC_CPY_3)
     else if a < 0xF8 then (if e then CHAR_ENC_ESC_4 else CHAR_ENC_CPY_4)
     else CHAR_ENC_ERR_1)"
  by (auto simp: enc_table_def byte_arith)

lemma take_nth:
  "2 \<le> length r \<Longrightarrow> take 2 r = [r ! 0, r ! 1]"
  "3 \<le> length r \<Longrightarrow> take 3 r = [r ! 0, r ! 1, r ! 2]"
  "4 \<le> length r \<Longrightarrow> take 4 r = [r ! 0, r ! 1, r ! 2, r ! 3]"
  by (auto simp: numeral_eq_Suc Suc_le_length_iff)

lemma yy_char_ascii: "a < 0x80 \<Longrightarrow> yy_char flg (a # t) = Some (ascii_out flg a, 1)"
proof -
  assume "a < 0x80"
  then consider "get_enc_table_with_flag flg a = CHAR_ENC_CPY_1"
    | "get_enc_table_with_flag flg a = CHAR_ENC_ESC_A" | "get_enc_table_with_flag flg a = CHAR_ENC_ESC_1"
    unfolding get_enc_table_flag using enc_table_ascii by metis
  then show ?thesis
    by cases (simp_all add: yy_char_def write_utf8_char_def ascii_out_def Let_def)
qed

lemma yy_char_high:
  assumes "\<not> a < 0x80" and "\<not> has_flg flg YYJSON_WRITE_ALLOW_INVALID_UNICODE"
  shows "yy_char flg (a # t) =
    (if utf8_next (a # t) = 0 then None else Some (char_out flg (a # t), utf8_next (a # t)))"
proof -
  let ?e = "has_flg flg YYJSON_WRITE_ESCAPE_UNICODE"
  note defs = yy_char_def write_utf8_char_def Let_def err_one_def err_cpy_def err_esc_def char_out_def assms
  note ty = get_enc_table_flag enc_table_high [OF assms(1)]
  show ?thesis
  proof (cases a rule: lead_classes)
    case bad
    then have "a < 0xC0 \<or> (\<not> a < 0xC0 \<and> 0xC0 \<le> a \<and> a < 0xE0 \<and> \<not> 0xC2 \<le> a)"
      by (auto simp: byte_arith)
    moreover have "utf8_next (a # t) = 0" using bad by simp
    ultimately show ?thesis using bad by (elim disjE) (simp_all add: defs ty seq2_trail)
  next
    case two
    then have "\<not> a < 0xC0" "0xC0 \<le> a" by (auto simp: byte_arith)
    with two have "get_enc_table_with_flag flg a = (if ?e then CHAR_ENC_ESC_2 else CHAR_ENC_CPY_2)"
      by (simp add: ty)
    with two \<open>0xC0 \<le> a\<close> show ?thesis
      by (cases t; cases ?e) (simp_all add: defs seq2_trail trail_defs second_ok_2)
  next
    case three
    then have "get_enc_table_with_flag flg a = (if ?e then CHAR_ENC_ESC_3 else CHAR_ENC_CPY_3)"
      by (auto simp: ty byte_arith)
    moreover have "\<not> 3 \<le> length t \<Longrightarrow> \<not> length t < 2 \<Longrightarrow> [t ! 0, t ! Suc 0] = t"
      by (auto simp: numeral_eq_Suc not_le less_Suc_eq length_Suc_conv)
    ultimately show ?thesis using three
      by (cases ?e; cases "length t < 2"; cases "3 \<le> length t")
        (simp_all add: defs seq3_trail trail_defs take_nth conj_ac)
  next
    case four
    then have "get_enc_table_with_flag flg a = (if ?e then CHAR_ENC_ESC_4 else CHAR_ENC_CPY_4)" "a < 0xF8"
      by (auto simp: ty byte_arith)
    with four show ?thesis
      by (cases ?e; cases "length t < 3") (simp_all add: defs seq4_trail trail_defs take_nth conj_ac)
  next
    case high
    then have "get_enc_table_with_flag flg a = (if a < 0xF8 then if ?e then CHAR_ENC_ESC_4 else CHAR_ENC_CPY_4
        else CHAR_ENC_ERR_1)" "0xF0 \<le> a"
      by (auto simp: ty byte_arith)
    moreover have "utf8_next (a # t) = 0" using high by simp
    ultimately show ?thesis using high
      by (cases ?e; cases "a < 0xF8") (simp_all add: defs seq4_trail)
  qed (use assms in simp)
qed

lemma yy_char_next:
  assumes "r \<noteq> []" and "\<not> has_flg flg YYJSON_WRITE_ALLOW_INVALID_UNICODE"
  shows "yy_char flg r = (if utf8_next r = 0 then None else Some (char_out flg r, utf8_next r))"
proof -
  obtain a t where r: "r = a # t" using assms by (cases r) auto
  show ?thesis
    using yy_char_ascii [of a flg t] yy_char_high [of a flg t] assms(2)
    by (cases "a < 0x80") (simp_all add: r char_out_def Let_def)
qed

interpretation yy_scan: utf8_scanner "\<lambda>r. map_option snd (yy_char 0 r)"
  by unfold_locales (simp add: yy_char_next has_flg_def)

subsection \<open>The two modes agree\<close>

lemma copy_ascii_Nil: "copy_ascii esc inval enc hex [] = Some [0x22]"
  by (simp add: copy_ascii.simps)

lemma copy_ascii_plain:
  "enc a = CHAR_ENC_CPY_1 \<Longrightarrow>
   copy_ascii esc inval enc hex (a # t) = map_option ((#) a) (copy_ascii esc inval enc hex t)"
  by (simp add: copy_ascii.simps [of _ _ _ _ "a # t"] copy_ascii.simps [of _ _ _ _ t] Let_def)

lemma copy_ascii_stop:
  "enc a \<noteq> CHAR_ENC_CPY_1 \<Longrightarrow> copy_ascii esc inval enc hex (a # t) = copy_utf8 esc inval enc hex (a # t)"
  by (simp add: copy_ascii.simps [of _ _ _ _ "a # t"])

lemma write_utf8_char_plain:
  "enc (src ! 0) = CHAR_ENC_CPY_1 \<Longrightarrow> write_utf8_char esc inval enc hex src = Some ([src ! 0], 1)"
  by (simp add: write_utf8_char_def Let_def)

lemma copy_modes: "copy_ascii esc inval enc hex r = copy_utf8 esc inval enc hex r"
proof (cases r)
  case Nil
  then show ?thesis by (simp add: copy_ascii_Nil copy_utf8.simps)
next
  case (Cons a t)
  then show ?thesis
    by (cases "enc a = CHAR_ENC_CPY_1")
      (simp_all add: copy_ascii_plain copy_ascii_stop copy_utf8.simps [of _ _ _ _ "a # t"] write_utf8_char_plain
        map_option_append_single)
qed

definition yy_copy :: "yyjson_write_flag \<Rightarrow> bytes \<Rightarrow> bytes option" where
  "yy_copy flg = copy_utf8 (has_flg flg YYJSON_WRITE_ESCAPE_UNICODE)
     (has_flg flg YYJSON_WRITE_ALLOW_INVALID_UNICODE) (get_enc_table_with_flag flg) (get_hex_table_with_flag flg)"

lemma yy_copy_step:
  "yy_copy flg r = (if r = [] then Some [0x22]
     else case yy_char flg r of None \<Rightarrow> None | Some (out, n) \<Rightarrow> map_option ((@) out) (yy_copy flg (drop n r)))"
  by (simp add: yy_copy_def yy_char_def copy_utf8.simps [of _ _ _ _ r] copy_modes split: option.splits)

lemma yy_write_copy: "yyjson_write_string_to_buf s flg = map_option ((#) 0x22) (yy_copy flg s)"
  by (simp add: yyjson_write_string_to_buf_def write_str_def copy_modes yy_copy_def)

text \<open>The body between the quotes, for the well-formed prefix of the input.\<close>

function esc_body :: "yyjson_write_flag \<Rightarrow> bytes \<Rightarrow> bytes" where
  "esc_body flg r =
    (if utf8_next r = 0 then [] else char_out flg r @ esc_body flg (drop (utf8_next r) r))"
  by pat_completeness auto
termination
proof (relation "measure (length \<circ> snd)")
  show "utf8_next r \<noteq> 0 \<Longrightarrow> ((flg, drop (utf8_next r) r), (flg, r)) \<in> measure (length \<circ> snd)" for flg r
    using utf8_next_le [of r] by (cases r) auto
qed simp

declare esc_body.simps [simp del]

lemma esc_body_Nil [simp]: "esc_body flg [] = []"
  by (simp add: esc_body.simps)

lemma yy_copy_body:
  assumes "\<not> has_flg flg YYJSON_WRITE_ALLOW_INVALID_UNICODE"
  shows "yy_copy flg r = (if utf8_wf r then Some (esc_body flg r @ [0x22]) else None)"
proof (induction r rule: utf8_wf.induct)
  case (1 r)
  show ?case
  proof (cases "r = []")
    case True
    then show ?thesis by (simp add: yy_copy_step [of _ "[]"])
  next
    case False
    with "1" show ?thesis
      by (simp add: yy_copy_step [of _ r] yy_char_next [OF False assms] utf8_wf.simps [of r] esc_body.simps [of _ r])
  qed
qed

lemma yy_write_body:
  "\<not> has_flg flg YYJSON_WRITE_ALLOW_INVALID_UNICODE \<Longrightarrow>
   yyjson_write_string_to_buf s flg =
     (if utf8_wf s then Some (0x22 # esc_body flg s @ [0x22]) else None)"
  by (simp add: yy_write_copy yy_copy_body)

lemma char_out_append: "utf8_next r \<noteq> 0 \<Longrightarrow> char_out flg (r @ t) = char_out flg r"
proof -
  assume n: "utf8_next r \<noteq> 0"
  have r: "r \<noteq> []" using n by auto
  have "i < utf8_next r \<Longrightarrow> (r @ t) ! i = r ! i" for i
    using utf8_next_le [of r] by (simp add: nth_append)
  moreover have "utf8_next r = 1 \<or> utf8_next r = 2 \<or> utf8_next r = 3 \<or> utf8_next r = 4"
    using n utf8_next_le4 [of r] by arith
  ultimately show ?thesis
    using utf8_next_le [of r] by (auto simp: char_out_def utf8_next_append [OF n] Let_def)
qed

lemma esc_body_append: "utf8_wf r \<Longrightarrow> esc_body flg (r @ t) = esc_body flg r @ esc_body flg t"
proof (induction r rule: utf8_wf.induct)
  case (1 r)
  show ?case
  proof (cases "r = []")
    case False
    have n: "utf8_next r \<noteq> 0" and w: "utf8_wf (drop (utf8_next r) r)"
      using utf8_wf_cases [OF "1.prems" False] by blast+
    have "esc_body flg (r @ t) = char_out flg r @ esc_body flg (drop (utf8_next r) r @ t)"
      using n utf8_next_le [of r]
      by (simp add: esc_body.simps [of _ "r @ t"] utf8_next_append char_out_append)
    also have "\<dots> = esc_body flg r @ esc_body flg t"
      using "1.IH" [OF False n w] n by (simp add: esc_body.simps [of _ r])
    finally show ?thesis .
  qed simp
qed

end
