(* ===== verification/YyRound.thy ===== *)
theory YyRound
  imports YyString
begin

text \<open>
  Reading a JSON string literal back: \<open>json_unquote\<close> is written from the grammar of RFC 8259
  (section 7) and serves as the specification the string writer is checked against.
\<close>

subsection \<open>A reader of string literals\<close>

definition hex_val :: "byte \<Rightarrow> nat option" where
  "hex_val c =
    (if 0x30 \<le> c \<and> c \<le> 0x39 then Some (unat c - 48)
     else if 0x41 \<le> c \<and> c \<le> 0x46 then Some (unat c - 55)
     else if 0x61 \<le> c \<and> c \<le> 0x66 then Some (unat c - 87)
     else None)"

fun hex4 :: "bytes \<Rightarrow> nat option" where
  "hex4 (a # b # c # d # _) =
    (case (hex_val a, hex_val b, hex_val c, hex_val d) of
       (Some w, Some x, Some y, Some z) \<Rightarrow> Some (4096 * w + 256 * x + 16 * y + z)
     | _ \<Rightarrow> None)"
| "hex4 _ = None"

text \<open>An escape after the reverse solidus: the bytes it stands for and its length.\<close>

definition json_escape :: "bytes \<Rightarrow> (bytes \<times> nat) option" where
  "json_escape t =
    (case t of [] \<Rightarrow> None | e # h \<Rightarrow>
       if e = 0x22 \<or> e = 0x5C \<or> e = 0x2F then Some ([e], 1)
       else if e = 0x62 then Some ([0x08], 1)
       else if e = 0x66 then Some ([0x0C], 1)
       else if e = 0x6E then Some ([0x0A], 1)
       else if e = 0x72 then Some ([0x0D], 1)
       else if e = 0x74 then Some ([0x09], 1)
       else if e = 0x75 then
         (case hex4 h of None \<Rightarrow> None | Some u \<Rightarrow>
            if 0xD800 \<le> u \<and> u < 0xDC00 then
              (if take 2 (drop 4 h) = [0x5C, 0x75] then
                 (case hex4 (drop 6 h) of None \<Rightarrow> None | Some v \<Rightarrow>
                    if 0xDC00 \<le> v \<and> v < 0xE000
                    then Some (utf8_encode (0x10000 + (u - 0xD800) * 1024 + (v - 0xDC00)), 11)
                    else None)
               else None)
            else if 0xDC00 \<le> u \<and> u < 0xE000 then None
            else Some (utf8_encode u, 5))
       else None)"

lemma json_escape_positive: "json_escape t = Some (out, n) \<Longrightarrow> 0 < n"
  by (auto simp: json_escape_def split: list.splits if_splits option.splits)

function json_body :: "bytes \<Rightarrow> bytes option" where
  "json_body r =
    (case r of [] \<Rightarrow> None | c # t \<Rightarrow>
       if c = 0x22 then (if t = [] then Some [] else None)
       else if c = 0x5C then
         (case json_escape t of None \<Rightarrow> None
          | Some (out, n) \<Rightarrow> map_option ((@) out) (json_body (drop n t)))
       else if c < 0x20 then None
       else map_option ((#) c) (json_body t))"
  by pat_completeness auto
termination
  by (relation "measure length") auto

declare json_body.simps [simp del]

definition json_unquote :: "bytes \<Rightarrow> bytes option" where
  "json_unquote w = (case w of [] \<Rightarrow> None | q # r \<Rightarrow> if q = 0x22 then json_body r else None)"

lemma json_body_quote [simp]: "json_body [0x22] = Some []"
  by (simp add: json_body.simps)

definition plain_byte :: "byte \<Rightarrow> bool" where
  "plain_byte c \<longleftrightarrow> c \<noteq> 0x22 \<and> c \<noteq> 0x5C \<and> \<not> c < 0x20"

lemma json_body_plain: "list_all plain_byte p \<Longrightarrow> json_body (p @ r) = map_option ((@) p) (json_body r)"
  by (induction p) (simp_all add: json_body.simps [of "_ # _"] plain_byte_def)

lemma json_body_escape:
  "json_escape (e @ r) = Some (out, length e) \<Longrightarrow>
   json_body (0x5C # e @ r) = map_option ((@) out) (json_body r)"
  by (simp add: json_body.simps [of "0x5C # _"])

subsection \<open>Hex digits\<close>

lemma hex_val_digit: "n < 16 \<Longrightarrow> hex_val (hex_digit lower n) = Some n"
  by (auto simp: hex_val_def hex_digit_def byte_arith)

lemma unat_low_high:
  "unat (drop_bit 8 (u :: 32 word)) = unat u div 256" "unat (u AND 0xFF) = unat u mod 256"
proof -
  show "unat (drop_bit 8 u) = unat u div 256"
    using take_bit_nat_eq_self [of "unat u" 32] unsigned_less [of u, where 'a = nat]
    by (simp only: unsigned_drop_bit_eq) (simp add: drop_bit_eq_div)
  show "unat (u AND 0xFF) = unat u mod 256"
    using nat_and_contig [of "unat u" 0 8] by (simp only: unsigned_and_eq) simp
qed

lemma hex4_u16:
  fixes u :: "32 word"
  assumes "unat u < 65536"
  shows "hex4 (hex_table l (unat (drop_bit 8 u)) @ hex_table l (unat (u AND 0xFF)) @ r) = Some (unat u)"
proof -
  let ?v = "unat u"
  have d: "?v div 256 < 256" "?v mod 256 < 256"
    using assms by (simp_all add: div_less_iff_less_mult)
  have "?v div 256 div 16 < 16" "?v div 256 mod 16 < 16" "?v mod 256 div 16 < 16" "?v mod 256 mod 16 < 16"
    using d by (simp_all add: div_less_iff_less_mult)
  moreover have "4096 * (?v div 256 div 16) + 256 * (?v div 256 mod 16) + 16 * (?v mod 256 div 16) + ?v mod 256 mod 16 = ?v"
    using mult_div_mod_eq [of 16 "?v div 256"] mult_div_mod_eq [of 16 "?v mod 256"] mult_div_mod_eq [of 256 ?v]
    by linarith
  ultimately show ?thesis
    unfolding unat_low_high hex_table_def by (simp add: hex_val_digit)
qed

lemma length_u16_escape [simp]: "length (u16_escape (hex_table l) u) = 6"
  by (simp add: u16_escape_def hex_table_def)

lemma json_body_u16:
  assumes "unat u < 65536" and "\<not> (0xD800 \<le> unat u \<and> unat u < 0xE000)"
  shows "json_body (u16_escape (hex_table l) u @ r) = map_option ((@) (utf8_encode (unat u))) (json_body r)"
proof -
  let ?h = "hex_table l (unat (drop_bit 8 u)) @ hex_table l (unat (u AND 0xFF))"
  have "json_escape ((0x75 # ?h) @ r) = Some (utf8_encode (unat u), length (0x75 # ?h))"
    using hex4_u16 [OF assms(1), of l r] assms(2) by (auto simp: json_escape_def hex_table_def)
  then have "json_body (0x5C # (0x75 # ?h) @ r) = map_option ((@) (utf8_encode (unat u))) (json_body r)"
    by (rule json_body_escape)
  then show ?thesis by (simp add: u16_escape_def)
qed

lemma json_body_pair:
  assumes "0xD800 \<le> unat hi" "unat hi < 0xDC00" "0xDC00 \<le> unat lo" "unat lo < 0xE000"
  shows "json_body (u16_escape (hex_table l) hi @ u16_escape (hex_table l) lo @ r) =
    map_option ((@) (utf8_encode (0x10000 + (unat hi - 0xD800) * 1024 + (unat lo - 0xDC00)))) (json_body r)"
proof -
  let ?h = "\<lambda>u. hex_table l (unat (drop_bit 8 u)) @ hex_table l (unat (u AND 0xFF))"
  let ?e = "0x75 # ?h hi @ [0x5C, 0x75] @ ?h lo"
  have h: "unat hi < 65536" "unat lo < 65536" using assms by simp_all
  have "drop 4 (?h hi @ [0x5C, 0x75] @ ?h lo @ r) = [0x5C, 0x75] @ ?h lo @ r"
    "drop 6 (?h hi @ [0x5C, 0x75] @ ?h lo @ r) = ?h lo @ r"
    by (simp_all add: hex_table_def)
  then have "json_escape (?e @ r) =
      Some (utf8_encode (0x10000 + (unat hi - 0xD800) * 1024 + (unat lo - 0xDC00)), length ?e)"
    using hex4_u16 [OF h(1), of l "[0x5C, 0x75] @ ?h lo @ r"] hex4_u16 [OF h(2), of l r] assms
    by (simp add: json_escape_def) (simp add: hex_table_def)
  then have "json_body (0x5C # ?e @ r) =
      map_option ((@) (utf8_encode (0x10000 + (unat hi - 0xD800) * 1024 + (unat lo - 0xDC00)))) (json_body r)"
    by (rule json_body_escape)
  then show ?thesis by (simp add: u16_escape_def)
qed

subsection \<open>Characters read back\<close>

lemma utf8_next_1: "utf8_next r = 1 \<Longrightarrow> \<exists>a t. r = a # t \<and> a < 0x80"
  by (cases r) (auto split: if_split_asm)

lemma utf8_next_high: "utf8_next r \<noteq> 1 \<Longrightarrow> utf8_next r \<noteq> 0 \<Longrightarrow> i < utf8_next r \<Longrightarrow> 0x80 \<le> r ! i"
proof -
  assume n: "utf8_next r \<noteq> 1" "utf8_next r \<noteq> 0" and i: "i < utf8_next r"
  obtain a t where r: "r = a # t" "\<not> a < 0x80" using n by (cases r) (auto split: if_split_asm)
  have "utf8_trail c \<Longrightarrow> 0x80 \<le> c" for c by (simp add: utf8_trail_def)
  with n i r show ?thesis
    by (cases i) (auto simp: trail_defs less_Suc_eq numeral_eq_Suc not_less split: if_split_asm dest: second_ok_trail)
qed

lemma scalar_of_next:
  assumes "utf8_next r = n" and "2 \<le> n"
  shows "scalar_value (unat (if n = 2 then cp2 (r ! 0) (r ! 1) else if n = 3 then cp3 (r ! 0) (r ! 1) (r ! 2)
          else cp4 (r ! 0) (r ! 1) (r ! 2) (r ! 3)))" (is "scalar_value ?u")
    and "take n r = utf8_encode (unat (if n = 2 then cp2 (r ! 0) (r ! 1) else if n = 3 then cp3 (r ! 0) (r ! 1) (r ! 2)
          else cp4 (r ! 0) (r ! 1) (r ! 2) (r ! 3)))"
    and "n = 4 \<longleftrightarrow> 0x10000 \<le> unat (if n = 2 then cp2 (r ! 0) (r ! 1) else if n = 3 then cp3 (r ! 0) (r ! 1) (r ! 2)
          else cp4 (r ! 0) (r ! 1) (r ! 2) (r ! 3))"
proof -
  obtain cp where cp: "scalar_value cp" "take n r = utf8_encode cp"
    using next_is_encoding [of r] assms by auto
  have len: "n \<le> length r" "n \<le> 4" "length (utf8_encode cp) = n"
    using utf8_next_le [of r] utf8_next_le4 [of r] assms cp(2)
    by (simp_all add: cp(2) [symmetric])
  have nth: "i < n \<Longrightarrow> r ! i = utf8_encode cp ! i" for i
    by (simp add: cp(2) [symmetric])
  have hi: "\<not> cp < 0x80" using len(3) assms(2) by (auto simp: utf8_encode_def)
  have "?u = cp \<and> (n = 4 \<longleftrightarrow> 0x10000 \<le> cp)"
  proof -
    consider (2) "cp < 0x800" | (3) "0x800 \<le> cp" "cp < 0x10000" | (4) "0x10000 \<le> cp" "cp \<le> 1114111"
      using cp(1) by (force simp: scalar_value_def)
    then show ?thesis
    proof cases
      case 2
      then have "n = 2" using len(3) hi by (simp add: utf8_encode_def)
      moreover have "cp div 64 < 32" using 2 by (simp add: div_less_iff_less_mult)
      then have "unat (cp2 (r ! 0) (r ! 1)) = cp"
        using 2 hi nth [of 0] nth [of 1] \<open>n = 2\<close>
        by (simp add: unat_cp2 utf8_encode_def mod_eqI [of _ _ 6] mod_eqI [of _ _ 2])
      ultimately show ?thesis using 2 by simp
    next
      case 3
      obtain x y z where d: "x < 16" "y < 64" "z < 64" "cp = 4096 * x + 64 * y + z"
        using digits_exist(1) [OF 3(2)] by blast
      have e: "utf8_encode cp = [byte_of (224 + x), byte_of (128 + y), byte_of (128 + z)]"
        using encode_bytes3 [OF d(1-3)] 3 d(4) by simp
      then have "n = 3" using len(3) by simp
      moreover have "unat (cp3 (r ! 0) (r ! 1) (r ! 2)) = cp"
        using nth [of 0] nth [of 1] nth [of 2] d(1-3) \<open>n = 3\<close>
        unfolding unat_cp3 e by (simp add: mod_eqI [of _ _ 14] mod_eqI [of _ _ 2] d(4))
      ultimately show ?thesis using 3 by simp
    next
      case 4
      obtain x y z w where d: "x < 5" "y < 64" "z < 64" "w < 64" "cp = 262144 * x + 4096 * y + 64 * z + w"
        using digits_exist(2) [OF 4(2)] by blast
      have e: "utf8_encode cp = [byte_of (240 + x), byte_of (128 + y), byte_of (128 + z), byte_of (128 + w)]"
        using encode_bytes4 [OF d(1-4)] 4 d(5) by simp
      then have "n = 4" using len(3) by simp
      moreover have "unat (cp4 (r ! 0) (r ! 1) (r ! 2) (r ! 3)) = cp"
        using nth [of 0] nth [of 1] nth [of 2] nth [of 3] d(1-4) \<open>n = 4\<close>
        unfolding unat_cp4 e by (simp add: mod_eqI [of _ _ 30] mod_eqI [of _ _ 2] d(5))
      ultimately show ?thesis using 4 by simp
    qed
  qed
  with cp show "scalar_value ?u" and "take n r = utf8_encode ?u" and "n = 4 \<longleftrightarrow> 0x10000 \<le> ?u"
    by simp_all
qed

lemma get_hex_table_flag: "get_hex_table_with_flag flg = hex_table (has_flg flg YYJSON_WRITE_LOWERCASE_HEX)"
  by (simp add: get_hex_table_with_flag_def)

lemma ascii_escape_1: "[0x5C, 0x75, 0x30, 0x30] @ hex_table l (unat (a :: byte)) = u16_escape (hex_table l) (ucast a)"
proof -
  have u: "unat (ucast a :: 32 word) = unat a"
    by (simp add: unsigned_ucast_eq take_bit_eq_mod)
  have "hex_table l 0 = [0x30, 0x30]"
    by (simp add: hex_table_def hex_digit_def byte_of_def)
  with u show ?thesis
    by (simp add: u16_escape_def unat_low_high div_eq_0_iff)
qed

lemma json_body_ascii:
  assumes "a < 0x80"
  shows "json_body (ascii_out flg a @ rest) = map_option ((#) a) (json_body rest)"
proof -
  let ?t = "get_enc_table_with_flag flg a"
  consider "?t = CHAR_ENC_CPY_1" | "?t = CHAR_ENC_ESC_A" | "?t = CHAR_ENC_ESC_1"
    unfolding get_enc_table_flag using enc_table_ascii [OF assms] by metis
  then show ?thesis
  proof cases
    case 1
    then have "plain_byte a"
      by (simp add: get_enc_table_flag enc_table_def plain_byte_def split: if_split_asm)
    then have "json_body ([a] @ rest) = map_option ((@) [a]) (json_body rest)"
      by (intro json_body_plain) simp
    with 1 show ?thesis by (simp add: ascii_out_def map_option_append_single)
  next
    case 2
    then have "a = 0x08 \<or> a = 0x09 \<or> a = 0x0A \<or> a = 0x0C \<or> a = 0x0D \<or> a = 0x22 \<or> a = 0x5C \<or> a = 0x2F"
      by (auto simp: get_enc_table_flag enc_table_def split: if_split_asm)
    with 2 show ?thesis
      by (elim disjE; simp add: ascii_out_def esc_single_char_table_def json_body.simps [of "0x5C # _"]
          json_escape_def map_option_append_single)
  next
    case 3
    have u: "unat (ucast a :: 32 word) = unat a"
      by (simp add: unsigned_ucast_eq take_bit_eq_mod)
    have "unat a < 128" using assms by (simp add: word_less_nat_alt)
    then have "json_body (u16_escape (get_hex_table_with_flag flg) (ucast a) @ rest) = map_option ((@) [a]) (json_body rest)"
      unfolding get_hex_table_flag using json_body_u16 [of "ucast a"] u by (simp add: utf8_encode_def)
    with 3 show ?thesis
      by (simp only: ascii_out_def Let_def get_hex_table_flag ascii_escape_1)
        (simp add: get_hex_table_flag map_option_append_single)
  qed
qed

lemma pair_arith:
  assumes "0x10000 \<le> unat u" and "unat u \<le> 0x10FFFF"
  defines "v \<equiv> (u :: 32 word) - 0x10000"
  shows "unat (drop_bit 10 v + 0xD800) = (unat u - 0x10000) div 1024 + 0xD800"
    and "unat ((v AND 0x3FF) + 0xDC00) = (unat u - 0x10000) mod 1024 + 0xDC00"
    and "(unat u - 0x10000) div 1024 < 1024"
proof -
  have v: "unat v = unat u - 0x10000"
    using assms(1) unfolding v_def by (subst unat_sub) (simp_all add: word_le_nat_alt)
  then have b: "unat v < 1048576" using assms(1,2) by simp
  then show q: "(unat u - 0x10000) div 1024 < 1024"
    using v by (simp add: div_less_iff_less_mult)
  have d: "unat (drop_bit 10 v) = unat v div 1024"
    using take_bit_nat_eq_self [of "unat v" 32] unsigned_less [of v, where 'a = nat]
    by (simp only: unsigned_drop_bit_eq) (simp add: drop_bit_eq_div)
  have m: "unat (v AND 0x3FF) = unat v mod 1024"
    using nat_and_contig [of "unat v" 0 10] by (simp only: unsigned_and_eq) simp
  have m2: "unat v mod 1024 < 1024" by simp
  show "unat (drop_bit 10 v + 0xD800) = (unat u - 0x10000) div 1024 + 0xD800"
    unfolding unat_word_ariths(1) d using q v by simp
  show "unat ((v AND 0x3FF) + 0xDC00) = (unat u - 0x10000) mod 1024 + 0xDC00"
    unfolding unat_word_ariths(1) m using m2 v by simp
qed

lemma json_body_char:
  assumes "utf8_next r \<noteq> 0"
  shows "json_body (char_out flg r @ rest) = map_option ((@) (take (utf8_next r) r)) (json_body rest)"
proof (cases "utf8_next r = 1")
  case True
  then obtain a t where "r = a # t" "a < 0x80" using utf8_next_1 by blast
  then show ?thesis
    by (simp add: char_out_def json_body_ascii map_option_append_single)
next
  case False
  let ?n = "utf8_next r"
  let ?u = "if ?n = 2 then cp2 (r ! 0) (r ! 1) else if ?n = 3 then cp3 (r ! 0) (r ! 1) (r ! 2)
    else cp4 (r ! 0) (r ! 1) (r ! 2) (r ! 3)"
  have n: "2 \<le> ?n" "?n \<le> 4" using assms False utf8_next_le4 [of r] by simp_all
  note sc = scalar_of_next [OF refl n(1)]
  show ?thesis
  proof (cases "has_flg flg YYJSON_WRITE_ESCAPE_UNICODE")
    case esc: False
    have "plain_byte c" if "0x80 \<le> c" for c using that by (auto simp: plain_byte_def byte_arith)
    then have "list_all plain_byte (take ?n r)"
      using utf8_next_high [OF False assms] by (auto simp: list_all_length)
    then show ?thesis
      using esc False by (simp add: char_out_def json_body_plain Let_def)
  next
    case esc: True
    show ?thesis
    proof (cases "?n = 4")
      case four: False
      then have "char_out flg r = u16_escape (get_hex_table_with_flag flg) ?u"
        using esc False n by (auto simp: char_out_def Let_def)
      moreover have "unat ?u < 65536" using sc(3) four by linarith
      moreover have "\<not> (0xD800 \<le> unat ?u \<and> unat ?u < 0xE000)"
        using sc(1) by (simp only: scalar_value_def) linarith
      ultimately show ?thesis
        unfolding get_hex_table_flag using json_body_u16 [of ?u] sc(2) by simp
    next
      case four: True
      let ?v = "?u - 0x10000"
      have c: "char_out flg r = u16_escape (get_hex_table_with_flag flg) (drop_bit 10 ?v + 0xD800)
          @ u16_escape (get_hex_table_with_flag flg) ((?v AND 0x3FF) + 0xDC00)"
        using esc four by (simp add: char_out_def Let_def)
      have u: "0x10000 \<le> unat ?u" "unat ?u \<le> 0x10FFFF"
        using sc(1,3) four by (simp_all only: scalar_value_def) linarith+
      note p = pair_arith [OF u]
      have m: "(unat ?u - 65536) mod 1024 < 1024" by simp
      have "65536 + (unat ?u - 65536) div 1024 * 1024 + (unat ?u - 65536) mod 1024 = unat ?u"
        using u(1) div_mult_mod_eq [of "unat ?u - 65536" 1024] by linarith
      moreover have "json_body (char_out flg r @ rest) = map_option ((@) (utf8_encode
          (0x10000 + (unat (drop_bit 10 ?v + 0xD800) - 0xD800) * 1024 + (unat ((?v AND 0x3FF) + 0xDC00) - 0xDC00))))
          (json_body rest)"
        unfolding c get_hex_table_flag append_assoc
        by (rule json_body_pair; unfold p(1) p(2); use p(3) m in linarith)
      ultimately show ?thesis
        unfolding p(1) p(2) by (simp only: add_diff_cancel_right' sc(2) [symmetric])
    qed
  qed
qed

lemma json_body_esc: "utf8_wf r \<Longrightarrow> json_body (esc_body flg r @ rest) = map_option ((@) r) (json_body rest)"
proof (induction r rule: utf8_wf.induct)
  case (1 r)
  show ?case
  proof (cases "r = []")
    case False
    have n: "utf8_next r \<noteq> 0" and w: "utf8_wf (drop (utf8_next r) r)"
      using utf8_wf_cases [OF "1.prems" False] by blast+
    have "json_body (esc_body flg r @ rest) =
        map_option ((@) (take (utf8_next r) r)) (json_body (esc_body flg (drop (utf8_next r) r) @ rest))"
      using n by (simp add: esc_body.simps [of _ r] json_body_char)
    then show ?thesis using "1.IH" [OF False n w] by simp
  qed (simp add: option.map_ident)
qed

lemma unquote_esc_body: "utf8_wf r \<Longrightarrow> json_unquote (0x22 # esc_body flg r @ [0x22]) = Some r"
  by (simp add: json_unquote_def json_body_esc)

subsection \<open>Widths\<close>

lemma length_hex_table [simp]: "length (get_hex_table_with_flag flg i) = 2"
  by (simp add: get_hex_table_flag hex_table_def)

lemma length_u16 [simp]: "length (u16_escape (get_hex_table_with_flag flg) u) = 6"
  by (simp add: u16_escape_def)

lemma length_single [simp]: "length (esc_single_char_table c) = 2"
  by (simp add: esc_single_char_table_def)

lemma length_ascii_out: "length (ascii_out flg c) \<le> 6"
  by (simp add: ascii_out_def Let_def)

lemma length_char_out: "utf8_next r \<noteq> 0 \<Longrightarrow> length (char_out flg r) \<le> 6 * utf8_next r"
  using length_ascii_out [of flg "r ! 0"] utf8_next_le [of r] by (simp add: char_out_def Let_def)

lemma length_esc_body: "length (esc_body flg r) \<le> 6 * length r"
proof (induction flg r rule: esc_body.induct)
  case (1 flg r)
  show ?case
  proof (cases "utf8_next r = 0")
    case False
    then have "length (esc_body flg r) \<le> 6 * utf8_next r + 6 * (length r - utf8_next r)"
      using "1" length_char_out [OF False, of flg] by (simp add: esc_body.simps [of _ r])
    also have "\<dots> = 6 * length r" using utf8_next_le [of r] by simp
    finally show ?thesis .
  qed (simp add: esc_body.simps)
qed

end
