(* ===== verification/StringWriter.thy ===== *)
theory StringWriter
  imports YyRound
begin

text \<open>
  Writing one JSON string into the output buffer (fastjson.c, lines 408 to 734, and the flag
  translation of fastjson_directwrite.c): the test for strings that can be copied, the exact output
  size, the writer in chunks of 2 KiB and the choice between them for large strings.

  A \<open>smart_str\<close> is its content, a byte list: \<open>ZSTR_LEN\<close> is the length, and a status other than OK
  leaves it as it was. \<open>zmax\<close> is the platform's \<open>ZSTR_MAX_LEN\<close>. How much capacity is requested from
  the allocator ahead of a write is not part of the state; the bounds lemmas show that a write
  stays within what the code asks for.
\<close>

datatype fj_string_size_status =
  FJ_STRING_SIZE_OK | FJ_STRING_SIZE_INVALID_UTF8 | FJ_STRING_SIZE_TOO_LARGE

subsection \<open>Flags\<close>

definition FASTJSON_ENCODE_UNESCAPED_SLASHES :: zend_long where "FASTJSON_ENCODE_UNESCAPED_SLASHES = 0x40"
definition FASTJSON_ENCODE_PRETTY_PRINT :: zend_long where "FASTJSON_ENCODE_PRETTY_PRINT = 0x80"
definition FASTJSON_ENCODE_UNESCAPED_UNICODE :: zend_long where "FASTJSON_ENCODE_UNESCAPED_UNICODE = 0x100"

definition fastjson_translate_write_flags :: "zend_long \<Rightarrow> bool \<Rightarrow> yyjson_write_flag" where
  "fastjson_translate_write_flags php_flags with_pretty =
    (let yf = 0;
         yf = (if \<not> has_flag php_flags FASTJSON_ENCODE_UNESCAPED_SLASHES
               then yf OR YYJSON_WRITE_ESCAPE_SLASHES else yf);
         yf = (if \<not> has_flag php_flags FASTJSON_ENCODE_UNESCAPED_UNICODE
               then yf OR YYJSON_WRITE_ESCAPE_UNICODE else yf);
         yf = yf OR YYJSON_WRITE_LOWERCASE_HEX
     in (if with_pretty \<and> has_flag php_flags FASTJSON_ENCODE_PRETTY_PRINT
         then yf OR YYJSON_WRITE_PRETTY else yf))"

lemmas yyjson_flag_defs = YYJSON_WRITE_PRETTY_def YYJSON_WRITE_ESCAPE_UNICODE_def
  YYJSON_WRITE_ESCAPE_SLASHES_def YYJSON_WRITE_ALLOW_INVALID_UNICODE_def YYJSON_WRITE_LOWERCASE_HEX_def

lemma translate_flags [simp]:
  "\<not> has_flg (fastjson_translate_write_flags pf p) YYJSON_WRITE_ALLOW_INVALID_UNICODE"
  "has_flg (fastjson_translate_write_flags pf p) YYJSON_WRITE_LOWERCASE_HEX"
  "has_flg (fastjson_translate_write_flags pf p) YYJSON_WRITE_ESCAPE_SLASHES
     \<longleftrightarrow> \<not> has_flag pf FASTJSON_ENCODE_UNESCAPED_SLASHES"
  "has_flg (fastjson_translate_write_flags pf p) YYJSON_WRITE_ESCAPE_UNICODE
     \<longleftrightarrow> \<not> has_flag pf FASTJSON_ENCODE_UNESCAPED_UNICODE"
  by (simp_all add: fastjson_translate_write_flags_def has_flg_def yyjson_flag_defs)

subsection \<open>Characters that need no escape\<close>

definition fastjson_ascii_word_needs_escape :: "64 word \<Rightarrow> yyjson_write_flag \<Rightarrow> bool" where
  "fastjson_ascii_word_needs_escape word flags \<longleftrightarrow>
    (let has_control = has_less word 0x20;
         has_quote = has_byte word 0x22;
         has_slash = has_byte word 0x5C;
         has_forward = (has_flg flags YYJSON_WRITE_ESCAPE_SLASHES \<and> has_byte word 0x2F)
     in word AND highs \<noteq> 0 \<or> has_control \<or> has_quote \<or> has_slash \<or> has_forward)"

definition fastjson_ascii_byte_needs_escape :: "byte \<Rightarrow> yyjson_write_flag \<Rightarrow> bool" where
  "fastjson_ascii_byte_needs_escape c flags \<longleftrightarrow>
    c < 0x20 \<or> 0x80 \<le> c \<or> c = 0x22 \<or> c = 0x5C \<or> (c = 0x2F \<and> has_flg flags YYJSON_WRITE_ESCAPE_SLASHES)"

text \<open>The eight-byte test answers for the eight bytes what the byte test answers for each.\<close>

lemma word_needs_escape:
  assumes "length bs = 8"
  shows "fastjson_ascii_word_needs_escape (load_le bs) flags \<longleftrightarrow>
    list_ex (\<lambda>c. fastjson_ascii_byte_needs_escape c flags) bs"
proof -
  have q: "has_byte (load_le bs) 0x22 \<longleftrightarrow> 0x22 \<in> set bs" "has_byte (load_le bs) 0x5C \<longleftrightarrow> 0x5C \<in> set bs"
    "has_byte (load_le bs) 0x2F \<longleftrightarrow> 0x2F \<in> set bs"
    using has_byte_iff [OF assms, of "0x22"] has_byte_iff [OF assms, of "0x5C"]
      has_byte_iff [OF assms, of "0x2F"]
    by (simp_all add: ones_def rep8_def)
  have l: "has_less (load_le bs) 0x20 \<longleftrightarrow> (\<exists>b \<in> set bs. b < 0x20)"
    using has_less_iff [OF assms, of 32] by (simp add: word_less_def)
  show ?thesis
    unfolding fastjson_ascii_word_needs_escape_def Let_def q l load_highs [OF assms]
      fastjson_ascii_byte_needs_escape_def list_ex_iff by blast
qed

text \<open>The byte loops: the position of the first byte that needs an escape, from \<open>pos\<close> on.\<close>

function first_escape :: "yyjson_write_flag \<Rightarrow> bytes \<Rightarrow> nat \<Rightarrow> nat" where
  "first_escape flags s pos =
    (if pos < length s then
       (if fastjson_ascii_byte_needs_escape (s ! pos) flags then pos else first_escape flags s (pos + 1))
     else pos)"
  by pat_completeness auto
termination
  by (relation "measure (\<lambda>(_, s, pos). length s - pos)") auto

declare first_escape.simps [simp del]

text \<open>\<open>fastjson_string_is_copyable_ascii\<close>: the verdict and \<open>*prefix_len\<close>.\<close>

function copyable_words :: "yyjson_write_flag \<Rightarrow> bytes \<Rightarrow> nat \<Rightarrow> bool \<times> nat" where
  "copyable_words flags s pos =
    (let len = length s in
     if pos + 8 \<le> len then
       (if fastjson_ascii_word_needs_escape (load_le (take 8 (drop pos s))) flags then
          (False, if len - len div 8 \<le> pos then first_escape flags s pos else pos)
        else copyable_words flags s (pos + 8))
     else let pos' = first_escape flags s pos in
       (if pos' < len then (False, pos') else (True, len)))"
  by pat_completeness auto
termination
  by (relation "measure (\<lambda>(_, s, pos). length s - pos)") auto

declare copyable_words.simps [simp del]

definition fastjson_string_is_copyable_ascii :: "bytes \<Rightarrow> yyjson_write_flag \<Rightarrow> bool \<times> nat" where
  "fastjson_string_is_copyable_ascii s flags = copyable_words flags s 0"

subsection \<open>The exact size\<close>

text \<open>The character at \<open>i\<close>: its \<open>add\<close>, its \<open>advance\<close> and whether it can be copied.\<close>

definition json_size_char :: "bytes \<Rightarrow> yyjson_write_flag \<Rightarrow> nat \<Rightarrow> (nat \<times> nat \<times> bool) option" where
  "json_size_char s flags i =
    (let c = s ! i in
     if c < 0x20 then
       Some (if c = 0x08 \<or> c = 0x09 \<or> c = 0x0A \<or> c = 0x0C \<or> c = 0x0D then 2 else 6, 1, False)
     else if c = 0x22 \<or> c = 0x5C then Some (2, 1, False)
     else if c = 0x2F \<and> has_flg flags YYJSON_WRITE_ESCAPE_SLASHES then Some (2, 1, False)
     else if c < 0x80 then Some (1, 1, True)
     else if \<not> fastjson_byte_is_valid_utf8_start s i then None
     else let advance = (if c < 0xE0 then 2 else if c < 0xF0 then 3 else 4) in
       if has_flg flags YYJSON_WRITE_ESCAPE_UNICODE then Some (if advance = 4 then 12 else 6, advance, False)
       else Some (advance, advance, False))"

lemma json_size_char_positive: "json_size_char s flags i = Some (add, adv, k) \<Longrightarrow> 0 < adv"
  by (auto simp: json_size_char_def Let_def split: if_splits)

function json_size_loop :: "nat \<Rightarrow> bytes \<Rightarrow> yyjson_write_flag \<Rightarrow> nat \<Rightarrow> nat \<Rightarrow> bool
    \<Rightarrow> fj_string_size_status + (nat \<times> bool)" where
  "json_size_loop zmax s flags i sz copyable =
    (if i < length s then
       (case json_size_char s flags i of
          None \<Rightarrow> Inl FJ_STRING_SIZE_INVALID_UTF8
        | Some (add, advance, plain) \<Rightarrow>
            if zmax - sz < add then Inl FJ_STRING_SIZE_TOO_LARGE
            else json_size_loop zmax s flags (i + advance) (sz + add) (copyable \<and> plain))
     else Inr (sz, copyable))"
  by pat_completeness auto
termination
  by (relation "measure (\<lambda>(_, s, _, i, _, _). length s - i)") (auto dest!: json_size_char_positive)

declare json_size_loop.simps [simp del]

definition fastjson_json_string_size ::
    "nat \<Rightarrow> bytes \<Rightarrow> yyjson_write_flag \<Rightarrow> fj_string_size_status + (nat \<times> bool)" where
  "fastjson_json_string_size zmax s flags =
    (if fst (fastjson_string_is_copyable_ascii s flags) then
       (if zmax - 2 < length s then Inl FJ_STRING_SIZE_TOO_LARGE else Inr (length s + 2, True))
     else json_size_loop zmax s flags 0 2 True)"

subsection \<open>Chunks\<close>

text \<open>Step back over continuation bytes: \<open>i\<close> ends where \<open>s[i - 1]\<close> is not one, or at \<open>pos\<close>.\<close>

fun chunk_back :: "bytes \<Rightarrow> nat \<Rightarrow> nat \<Rightarrow> nat" where
  "chunk_back s pos 0 = 0"
| "chunk_back s pos (Suc i) =
    (if pos < Suc i \<and> s ! i AND 0xC0 = 0x80 then chunk_back s pos i else Suc i)"

definition fastjson_json_chunk_len :: "bytes \<Rightarrow> nat \<Rightarrow> nat \<Rightarrow> nat" where
  "fastjson_json_chunk_len s pos want =
    (let len = length s;
         n = (if len - pos < want then len - pos else want)
     in if n = 0 \<or> len \<le> pos + n then n
        else let i = chunk_back s pos (pos + n) in
          if i = pos then n
          else let lead = s ! (i - 1) in
            if lead < 0x80 then n
            else let need = (if lead < 0xE0 then 2 else if lead < 0xF0 then 3 else 4);
                     got = (pos + n) - (i - 1)
              in if need \<le> got then n
                 else if pos < i - 1 then (i - 1) - pos
                 else if pos + need \<le> len then need
                 else n)"

lemma chunk_back_bounds: "pos \<le> i \<Longrightarrow> pos \<le> chunk_back s pos i \<and> chunk_back s pos i \<le> i"
  by (induction i) (auto simp: le_Suc_eq)

lemma chunk_len_bounds:
  assumes "pos < length s" and "0 < want"
  shows "0 < fastjson_json_chunk_len s pos want" and "pos + fastjson_json_chunk_len s pos want \<le> length s"
proof -
  have "0 < fastjson_json_chunk_len s pos want \<and> pos + fastjson_json_chunk_len s pos want \<le> length s"
  proof -
    define n where "n = (if length s - pos < want then length s - pos else want)"
    have n: "0 < n" "pos + n \<le> length s" using assms by (auto simp: n_def)
    have "pos \<le> chunk_back s pos (pos + n) \<and> chunk_back s pos (pos + n) \<le> pos + n"
      by (rule chunk_back_bounds) simp
    with n show ?thesis
      unfolding fastjson_json_chunk_len_def Let_def n_def [symmetric] by auto
  qed
  then show "0 < fastjson_json_chunk_len s pos want" and "pos + fastjson_json_chunk_len s pos want \<le> length s"
    by blast+
qed

text \<open>The loop of \<open>fastjson_write_json_string_chunked\<close>: \<open>out\<close> is the buffer up to the position \<open>out\<close>
  of the code. A chunk is written from \<open>out - 1\<close> on with its own quotes: the byte under the opening
  quote is restored, and the closing quote stays just past the new \<open>out\<close>.\<close>

abbreviation (input) "CHUNK \<equiv> 2048 :: nat"

function chunk_loop :: "nat \<Rightarrow> bytes \<Rightarrow> yyjson_write_flag \<Rightarrow> nat \<Rightarrow> bytes
    \<Rightarrow> fj_string_size_status \<times> bytes" where
  "chunk_loop zmax s flags pos out =
    (if pos < length s then
       let n = fastjson_json_chunk_len s pos CHUNK;
           need = n * 6 + 2
       in if n = 0 then (FJ_STRING_SIZE_INVALID_UTF8, out)
          else if zmax - length out < need then (FJ_STRING_SIZE_TOO_LARGE, out)
          else (case yyjson_write_string_to_buf (take n (drop pos s)) flags of
                  None \<Rightarrow> (FJ_STRING_SIZE_INVALID_UTF8, out)
                | Some w \<Rightarrow>
                    if length w < 2 then (FJ_STRING_SIZE_INVALID_UTF8, out)
                    else chunk_loop zmax s flags (pos + n) (out @ butlast (tl w)))
     else (FJ_STRING_SIZE_OK, out @ [0x22]))"
  by pat_completeness auto
termination
  by (relation "measure (\<lambda>(_, s, _, pos, _). length s - pos)") auto

declare chunk_loop.simps [simp del]

definition fastjson_write_json_string_chunked ::
    "nat \<Rightarrow> bytes \<Rightarrow> bytes \<Rightarrow> yyjson_write_flag \<Rightarrow> fj_string_size_status \<times> bytes" where
  "fastjson_write_json_string_chunked zmax buf s flags =
    (let current = length buf; len = length s in
     if zmax - 2 < current \<or> zmax - current - 2 < len then (FJ_STRING_SIZE_TOO_LARGE, buf)
     else if zmax - current - 2 - len < CHUNK * 6 then (FJ_STRING_SIZE_TOO_LARGE, buf)
     else case chunk_loop zmax s flags 0 (buf @ [0x22]) of
         (FJ_STRING_SIZE_OK, out) \<Rightarrow> (FJ_STRING_SIZE_OK, out)
       | (status, _) \<Rightarrow> (status, buf))"

subsection \<open>Large strings\<close>

definition FASTJSON_EXACT_NONASCII_THRESHOLD :: nat where
  "FASTJSON_EXACT_NONASCII_THRESHOLD = 8 * 1024 * 1024"

text \<open>The fused scan and copy: how many words are copied before one needs an escape.\<close>

function fused_words :: "yyjson_write_flag \<Rightarrow> bytes \<Rightarrow> nat \<Rightarrow> nat" where
  "fused_words flags s pos =
    (if pos + 8 \<le> length s then
       (if fastjson_ascii_word_needs_escape (load_le (take 8 (drop pos s))) flags then pos
        else fused_words flags s (pos + 8))
     else pos)"
  by pat_completeness auto
termination
  by (relation "measure (\<lambda>(_, s, pos). length s - pos)") auto

declare fused_words.simps [simp del]

definition fastjson_write_large_json_string ::
    "nat \<Rightarrow> bytes \<Rightarrow> bytes \<Rightarrow> yyjson_write_flag \<Rightarrow> fj_string_size_status \<times> bytes" where
  "fastjson_write_large_json_string zmax buf s flags =
    (let current = length buf; len = length s in
     if zmax - 2 < current \<or> zmax - current - 2 < len then (FJ_STRING_SIZE_TOO_LARGE, buf)
     else if len < FASTJSON_EXACT_NONASCII_THRESHOLD then
       (let (copyable, prefix_len) = fastjson_string_is_copyable_ascii s flags in
        if copyable then (FJ_STRING_SIZE_OK, buf @ [0x22] @ s @ [0x22])
        else if len - len div 8 \<le> prefix_len then
          (let tail_len = len - prefix_len in
           if (zmax - current - prefix_len - 3) div 6 < tail_len then (FJ_STRING_SIZE_TOO_LARGE, buf)
           else case yyjson_write_string_to_buf (drop prefix_len s) flags of
               None \<Rightarrow> (FJ_STRING_SIZE_INVALID_UTF8, buf)
             | Some w \<Rightarrow> (FJ_STRING_SIZE_OK, buf @ [0x22] @ take prefix_len s @ tl w))
        else fastjson_write_json_string_chunked zmax buf s flags)
     else
       (let pos = first_escape flags s (fused_words flags s 0) in
        if pos = len then (FJ_STRING_SIZE_OK, buf @ [0x22] @ take pos s @ [0x22])
        else case fastjson_json_string_size zmax s flags of
            Inl status \<Rightarrow> (status, buf)
          | Inr (exact_len, copyable_ascii) \<Rightarrow>
              if zmax - current < exact_len then (FJ_STRING_SIZE_TOO_LARGE, buf)
              else if copyable_ascii then (FJ_STRING_SIZE_OK, buf @ [0x22] @ s @ [0x22])
              else (case yyjson_write_string_to_buf s flags of
                  None \<Rightarrow> (FJ_STRING_SIZE_INVALID_UTF8, buf)
                | Some w \<Rightarrow> (FJ_STRING_SIZE_OK, buf @ w))))"

text \<open>\<open>fastjson_string_wants_sized_writer\<close>: \<open>a\<close> is the buffer's capacity.\<close>

definition FASTJSON_EXACT_STRING_THRESHOLD :: nat where "FASTJSON_EXACT_STRING_THRESHOLD = 8 * 1024"
definition FASTJSON_EXACT_STRING_ALWAYS :: nat where "FASTJSON_EXACT_STRING_ALWAYS = 256 * 1024"

definition fastjson_string_wants_sized_writer :: "nat \<Rightarrow> bytes \<Rightarrow> nat \<Rightarrow> bool" where
  "fastjson_string_wants_sized_writer a buf len \<longleftrightarrow>
    (if len < FASTJSON_EXACT_STRING_THRESHOLD then False
     else if FASTJSON_EXACT_STRING_ALWAYS \<le> len then True
     else let used = length buf in a < used \<or> a - used \<le> len * 6 + 2)"

subsection \<open>Character boundaries\<close>

lemma not_trail_lead: "utf8_next r \<noteq> 0 \<Longrightarrow> \<not> utf8_trail (r ! 0)"
  by (cases r) (auto simp: utf8_trail_def byte_arith split: if_split_asm)

lemma next_trails: "0 < i \<Longrightarrow> i < utf8_next r \<Longrightarrow> utf8_trail (r ! i)"
  by (cases r; cases i) (auto simp: trail_defs less_Suc_eq numeral_eq_Suc split: if_split_asm dest: second_ok_trail)

lemma wf_boundary:
  assumes "utf8_wf r" and "i < length r" and "\<not> utf8_trail (r ! i)"
  shows "utf8_wf (take i r) \<and> utf8_wf (drop i r)"
  using assms
proof (induction r arbitrary: i rule: utf8_wf.induct)
  case (1 r)
  then have ne: "r \<noteq> []" by auto
  let ?n = "utf8_next r"
  have n: "?n \<noteq> 0" and w: "utf8_wf (drop ?n r)"
    using utf8_wf_cases [OF "1.prems"(1) ne] by blast+
  show ?case
  proof (cases "i < ?n")
    case True
    then have "i = 0" using next_trails [of i r] "1.prems"(3) by auto
    with "1.prems" show ?thesis by simp
  next
    case False
    have "i - ?n < length (drop ?n r)" "\<not> utf8_trail (drop ?n r ! (i - ?n))"
      using False "1.prems" by auto
    from "1.IH" [OF ne n w this] have ih: "utf8_wf (take (i - ?n) (drop ?n r))" "utf8_wf (drop (i - ?n) (drop ?n r))"
      by blast+
    have "take i r = take ?n r @ take (i - ?n) (drop ?n r)"
      using False by (metis le_add_diff_inverse not_less take_add)
    then have "utf8_wf (take i r)"
      using ih(1) utf8_next_take_self [OF n] by (simp add: utf8_wf_append)
    with ih(2) False show ?thesis by simp
  qed
qed

lemma wf_take_next: "utf8_wf (drop i r) \<Longrightarrow> utf8_wf (take i r) \<Longrightarrow> i < length r \<Longrightarrow>
    utf8_wf (take (i + utf8_next (drop i r)) r) \<and> utf8_wf (drop (i + utf8_next (drop i r)) r)"
proof -
  assume d: "utf8_wf (drop i r)" and t: "utf8_wf (take i r)" and i: "i < length r"
  let ?n = "utf8_next (drop i r)"
  have n: "?n \<noteq> 0" "utf8_wf (drop ?n (drop i r))" using utf8_wf_cases [OF d] i by auto
  have "take (i + ?n) r = take i r @ take ?n (drop i r)" by (rule take_add)
  with t n utf8_next_take_self [OF n(1)] show ?thesis by (simp add: utf8_wf_append add.commute)
qed

lemma next_need:
  assumes "utf8_next r \<noteq> 0"
  shows "utf8_next r = (if r ! 0 < 0x80 then 1 else if r ! 0 < 0xE0 then 2 else if r ! 0 < 0xF0 then 3 else 4)"
  using assms by (cases r) (auto split: if_split_asm)

text \<open>The step back stops at a byte that is not a continuation, and only passes continuations.\<close>

lemma chunk_back_spec:
  assumes "pos \<le> i"
  shows "(\<forall>j. chunk_back s pos i \<le> j \<and> j < i \<longrightarrow> utf8_trail (s ! j)) \<and>
    (pos < chunk_back s pos i \<longrightarrow> \<not> utf8_trail (s ! (chunk_back s pos i - 1)))"
  using assms
proof (induction i)
  case (Suc i)
  then show ?case by (cases "pos \<le> i") (auto simp: trail_mask less_Suc_eq le_Suc_eq)
qed simp

lemma chunk_len_boundary:
  assumes w: "utf8_wf (drop pos s)" and p: "pos < length s" "0 < want"
  defines "n \<equiv> fastjson_json_chunk_len s pos want"
  shows "utf8_wf (take n (drop pos s)) \<and> utf8_wf (drop (pos + n) s)"
proof -
  define r where "r = drop pos s"
  define m where "m = (if length s - pos < want then length s - pos else want)"
  have m: "0 < m" "pos + m \<le> length s" using p by (auto simp: m_def)
  have wr: "utf8_wf r" using w by (simp add: r_def)
  have goal: "utf8_wf (take k r) \<and> utf8_wf (drop (pos + k) s) \<longleftrightarrow> utf8_wf (take k r) \<and> utf8_wf (drop k r)" for k
    by (simp add: r_def add.commute)
  define i where "i = chunk_back s pos (pos + m)"
  have bnd: "pos \<le> i" "i \<le> pos + m" using chunk_back_bounds [of pos "pos + m" s] by (simp_all add: i_def)
  have tr: "\<And>j. i \<le> j \<Longrightarrow> j < pos + m \<Longrightarrow> utf8_trail (s ! j)"
    and nt: "pos < i \<Longrightarrow> \<not> utf8_trail (s ! (i - 1))"
    using chunk_back_spec [of pos "pos + m" s] by (auto simp: i_def)
  have nth: "pos + k < length s \<Longrightarrow> s ! (pos + k) = r ! k" for k by (simp add: r_def)
  show ?thesis
  proof (cases "length s \<le> pos + m")
    case True
    then have "n = m" by (simp add: n_def fastjson_json_chunk_len_def Let_def m_def)
    moreover have "take m r = r" "drop (pos + m) s = []" using True m by (simp_all add: r_def)
    ultimately show ?thesis using wr by (simp add: r_def [symmetric])
  next
    case False
    have "i \<noteq> pos"
    proof
      assume "i = pos"
      then have "utf8_trail (r ! 0)" using tr [of pos] m p nth [of 0] by simp
      moreover have "utf8_next r \<noteq> 0" using wr p utf8_wf_cases(1) [of r] by (simp add: r_def)
      ultimately show False using not_trail_lead by blast
    qed
    then have ip: "pos < i" using bnd by simp
    define k where "k = i - 1 - pos"
    have k: "i - 1 = pos + k" "i = pos + k + 1" "k < m" "k < length r"
      using ip bnd m by (auto simp: k_def r_def)
    have lead: "\<not> utf8_trail (r ! k)"
      using nt [OF ip] k(4) unfolding k(1) r_def by simp
    have b: "utf8_wf (take k r)" "utf8_wf (drop k r)" using wf_boundary [OF wr k(4) lead] by blast+
    define need where "need = utf8_next (drop k r)"
    have need: "need \<noteq> 0" using b(2) k(4) utf8_wf_cases(1) [of "drop k r"] by (auto simp: need_def)
    have lb: "drop k r ! 0 = s ! (i - 1)"
      using k(4) unfolding k(1) by (simp add: r_def add.commute)
    have nd: "need = (if s ! (i - 1) < 0x80 then 1 else if s ! (i - 1) < 0xE0 then 2
        else if s ! (i - 1) < 0xF0 then 3 else 4)"
      using next_need [of "drop k r"] need unfolding lb need_def [symmetric] by simp
    have e: "utf8_wf (take (k + need) r)" "utf8_wf (drop (k + need) r)"
      using wf_take_next [OF b(2,1) k(4)] by (simp_all add: need_def)
    have full: "m = k + need" if "need \<le> m - k"
    proof (rule ccontr)
      assume ne: "m \<noteq> k + need"
      then have lt: "k + need < m" using that k(3) by simp
      then have l2: "k + need < length r" using m by (simp add: r_def)
      have "i \<le> pos + (k + need)" "pos + (k + need) < pos + m"
        using lt need k(2) by linarith+
      then have "utf8_trail (s ! (pos + (k + need)))" by (rule tr)
      then have "utf8_trail (drop (k + need) r ! 0)" using l2 by (simp add: r_def ac_simps)
      moreover have "utf8_next (drop (k + need) r) \<noteq> 0"
        using utf8_wf_cases(1) [OF e(2)] l2 by auto
      ultimately show False using not_trail_lead by blast
    qed
    have nlen: "k + need \<le> length r" using utf8_next_le [of "drop k r"] k(4) by (simp add: need_def)
    have dn: "n = (if s ! (i - 1) < 0x80 then m else if need \<le> m - k then m else if 0 < k then k
        else if pos + need \<le> length s then need else m)"
      using False m(1) \<open>i \<noteq> pos\<close> nd unfolding n_def fastjson_json_chunk_len_def Let_def m_def [symmetric] i_def [symmetric] k(1)
      by auto
    have "s ! (i - 1) < 0x80 \<Longrightarrow> need \<le> m - k" using nd k(3) by simp
    then consider "need \<le> m - k" "n = m" | "0 < k" "n = k" | "k = 0" "n = need"
      using dn nlen p unfolding r_def by (auto split: if_splits)
    then show ?thesis
    proof cases
      case 1 then show ?thesis using full e goal [of n] by (simp add: r_def)
    next
      case 2 then show ?thesis using b goal [of n] by (simp add: r_def)
    next
      case 3 then show ?thesis using e goal [of n] by (simp add: r_def)
    qed
  qed
qed

subsection \<open>Chunked output is one-pass output\<close>

lemma butlast_tl_quoted: "butlast (tl (0x22 # b @ [0x22])) = b"
  by simp

lemma chunk_loop_ok:
  "\<not> has_flg flags YYJSON_WRITE_ALLOW_INVALID_UNICODE \<Longrightarrow>
   chunk_loop zmax s flags pos out = (FJ_STRING_SIZE_OK, out') \<Longrightarrow> pos \<le> length s \<Longrightarrow>
    utf8_wf (drop pos s) \<and> out' = out @ esc_body flags (drop pos s) @ [0x22]"
proof (induction zmax s flags pos out arbitrary: out' rule: chunk_loop.induct)
  case (1 zmax s flags pos out)
  show ?case
  proof (cases "pos < length s")
    case False
    with "1.prems" show ?thesis by (simp add: chunk_loop.simps [of _ _ _ pos])
  next
    case True
    let ?n = "fastjson_json_chunk_len s pos CHUNK"
    have n: "0 < ?n" "pos + ?n \<le> length s" using chunk_len_bounds [OF True] by simp_all
    note f = "1.prems"(1)
    from "1.prems"(2) True n(1) obtain w where room: "\<not> zmax - length out < ?n * 6 + 2"
      and w: "yyjson_write_string_to_buf (take ?n (drop pos s)) flags = Some w" "\<not> length w < 2"
      and rec: "chunk_loop zmax s flags (pos + ?n) (out @ butlast (tl w)) = (FJ_STRING_SIZE_OK, out')"
      by (auto simp: chunk_loop.simps [of _ _ _ pos] Let_def split: if_splits option.splits)
    have ih: "utf8_wf (drop (pos + ?n) s)"
        "out' = (out @ butlast (tl w)) @ esc_body flags (drop (pos + ?n) s) @ [0x22]"
      using "1.IH" [OF True refl refl _ room w f rec n(2)] n(1) by auto
    have "utf8_wf (take ?n (drop pos s)) \<and> w = 0x22 # esc_body flags (take ?n (drop pos s)) @ [0x22]"
      using w(1) unfolding yy_write_body [OF f] by (simp split: if_split_asm)
    then have wf: "utf8_wf (take ?n (drop pos s))" and w': "w = 0x22 # esc_body flags (take ?n (drop pos s)) @ [0x22]"
      by blast+
    have split: "drop pos s = take ?n (drop pos s) @ drop (pos + ?n) s"
      by (metis append_take_drop_id drop_drop add.commute)
    show ?thesis
      using ih wf unfolding w' by (subst (1 2) split) (simp add: utf8_wf_append esc_body_append)
  qed
qed

lemma chunk_loop_wf:
  "\<not> has_flg flags YYJSON_WRITE_ALLOW_INVALID_UNICODE \<Longrightarrow> pos \<le> length s \<Longrightarrow> utf8_wf (drop pos s) \<Longrightarrow>
   fst (chunk_loop zmax s flags pos out) \<noteq> FJ_STRING_SIZE_INVALID_UTF8 \<and>
   (length out + 6 * (length s - pos) + 2 \<le> zmax \<longrightarrow> fst (chunk_loop zmax s flags pos out) = FJ_STRING_SIZE_OK)"
proof (induction zmax s flags pos out rule: chunk_loop.induct)
  case (1 zmax s flags pos out)
  show ?case
  proof (cases "pos < length s")
    case False
    then show ?thesis by (simp add: chunk_loop.simps [of _ _ _ pos])
  next
    case True
    let ?n = "fastjson_json_chunk_len s pos CHUNK"
    let ?c = "take ?n (drop pos s)"
    have n: "0 < ?n" "pos + ?n \<le> length s" using chunk_len_bounds [OF True] by simp_all
    have b: "utf8_wf ?c" "utf8_wf (drop (pos + ?n) s)"
      using chunk_len_boundary [OF "1.prems"(3) True] by simp_all
    let ?w = "0x22 # esc_body flags ?c @ [0x22]"
    have w: "yyjson_write_string_to_buf ?c flags = Some ?w"
      using yy_write_body [OF "1.prems"(1)] b(1) by simp
    have len: "length (esc_body flags ?c) \<le> 6 * ?n"
      using length_esc_body [of flags ?c] by simp
    show ?thesis
    proof (cases "zmax - length out < ?n * 6 + 2")
      case True
      then have "\<not> length out + 6 * (length s - pos) + 2 \<le> zmax" using n by linarith
      then show ?thesis using True n \<open>pos < length s\<close> by (simp add: chunk_loop.simps [of _ _ _ pos] Let_def)
    next
      case False
      have step: "chunk_loop zmax s flags pos out = chunk_loop zmax s flags (pos + ?n) (out @ esc_body flags ?c)"
        using True n False w by (simp add: chunk_loop.simps [of _ _ _ pos] Let_def)
      have ih: "fst (chunk_loop zmax s flags (pos + ?n) (out @ butlast (tl ?w))) \<noteq> FJ_STRING_SIZE_INVALID_UTF8 \<and>
          (length (out @ butlast (tl ?w)) + 6 * (length s - (pos + ?n)) + 2 \<le> zmax \<longrightarrow>
            fst (chunk_loop zmax s flags (pos + ?n) (out @ butlast (tl ?w))) = FJ_STRING_SIZE_OK)"
        using "1.IH" [OF True refl refl _ False w _ "1.prems"(1) n(2) b(2)] n(1) by simp
      have "length out + 6 * (length s - pos) + 2 \<le> zmax \<Longrightarrow>
          length (out @ esc_body flags ?c) + 6 * (length s - (pos + ?n)) + 2 \<le> zmax"
        using len n(2) by simp
      with ih show ?thesis unfolding step butlast_tl_quoted by blast
    qed
  qed
qed

text \<open>Every chunk fits what the code reserves for it: at \<open>out - 1\<close>, a chunk of \<open>n\<close> bytes and its two
  quotes take at most \<open>6 n + 2\<close> bytes.\<close>

lemma chunk_fits: "yyjson_write_string_to_buf r (fastjson_translate_write_flags pf p) = Some w \<Longrightarrow> length w \<le> length r * 6 + 2"
  using length_esc_body [of "fastjson_translate_write_flags pf p" r]
  by (auto simp: yy_write_body split: if_split_asm)

subsection \<open>The contract of a string writer\<close>

text \<open>A writer either appends the quoted and escaped string, or leaves the buffer as it was: for
  input that is not UTF-8, or for want of room.\<close>

definition string_written :: "bytes \<Rightarrow> bytes \<Rightarrow> yyjson_write_flag \<Rightarrow> fj_string_size_status \<times> bytes \<Rightarrow> bool" where
  "string_written buf s flags r \<longleftrightarrow>
    (case fst r of
       FJ_STRING_SIZE_OK \<Rightarrow> utf8_wf s \<and> snd r = buf @ 0x22 # esc_body flags s @ [0x22]
     | FJ_STRING_SIZE_INVALID_UTF8 \<Rightarrow> \<not> utf8_wf s \<and> snd r = buf
     | FJ_STRING_SIZE_TOO_LARGE \<Rightarrow> snd r = buf)"

locale string_writer =
  fixes writer :: "nat \<Rightarrow> bytes \<Rightarrow> bytes \<Rightarrow> yyjson_write_flag \<Rightarrow> fj_string_size_status \<times> bytes"
    and slack :: nat
  assumes written: "\<not> has_flg flags YYJSON_WRITE_ALLOW_INVALID_UNICODE \<Longrightarrow>
      string_written buf s flags (writer zmax buf s flags)"
    and room: "\<not> has_flg flags YYJSON_WRITE_ALLOW_INVALID_UNICODE \<Longrightarrow> utf8_wf s \<Longrightarrow>
      length buf + 6 * length s + slack \<le> zmax \<Longrightarrow> fst (writer zmax buf s flags) = FJ_STRING_SIZE_OK"
begin

lemma one_pass:
  assumes "\<not> has_flg flags YYJSON_WRITE_ALLOW_INVALID_UNICODE"
  shows "case writer zmax buf s flags of
     (FJ_STRING_SIZE_OK, out) \<Rightarrow> (\<exists>w. yyjson_write_string_to_buf s flags = Some w \<and> out = buf @ w)
   | (FJ_STRING_SIZE_INVALID_UTF8, out) \<Rightarrow> yyjson_write_string_to_buf s flags = None \<and> out = buf
   | (FJ_STRING_SIZE_TOO_LARGE, out) \<Rightarrow>
       out = buf \<and> (zmax < length buf + 6 * length s + slack \<or> yyjson_write_string_to_buf s flags = None)"
  using written [OF assms, of buf s zmax] room [OF assms, of s buf zmax]
  by (cases "writer zmax buf s flags")
    (auto simp: string_written_def yy_write_body [OF assms] not_le [symmetric] split: fj_string_size_status.splits)

lemma invalid_iff:
  "\<not> has_flg flags YYJSON_WRITE_ALLOW_INVALID_UNICODE \<Longrightarrow>
   fst (writer zmax buf s flags) \<noteq> FJ_STRING_SIZE_TOO_LARGE \<Longrightarrow>
   fst (writer zmax buf s flags) = (if utf8_wf s then FJ_STRING_SIZE_OK else FJ_STRING_SIZE_INVALID_UTF8)"
  using written [of flags buf s zmax]
  by (auto simp: string_written_def split: fj_string_size_status.splits)

end

lemma chunked_written:
  assumes f: "\<not> has_flg flags YYJSON_WRITE_ALLOW_INVALID_UNICODE"
  shows "string_written buf s flags (fastjson_write_json_string_chunked zmax buf s flags)"
proof (cases "chunk_loop zmax s flags 0 (buf @ [0x22])")
  case (Pair st out)
  then show ?thesis
    using chunk_loop_ok [OF f, of zmax s 0 "buf @ [0x22]"] chunk_loop_wf [OF f, of 0 s zmax "buf @ [0x22]"]
    by (cases st) (auto simp: fastjson_write_json_string_chunked_def string_written_def Let_def)
qed

lemma chunked_room:
  assumes f: "\<not> has_flg flags YYJSON_WRITE_ALLOW_INVALID_UNICODE"
    and "utf8_wf s" and "length buf + 6 * length s + 12290 \<le> zmax"
  shows "fst (fastjson_write_json_string_chunked zmax buf s flags) = FJ_STRING_SIZE_OK"
proof (cases "chunk_loop zmax s flags 0 (buf @ [0x22])")
  case (Pair st out)
  moreover have "st = FJ_STRING_SIZE_OK"
    using Pair assms chunk_loop_wf [OF f, of 0 s zmax "buf @ [0x22]"] by simp
  moreover have "\<not> zmax - 2 < length buf" "\<not> zmax - length buf - 2 < length s"
      "\<not> zmax - length buf - 2 - length s < CHUNK * 6"
    using assms(3) by linarith+
  ultimately show ?thesis
    by (simp only: fastjson_write_json_string_chunked_def Let_def simp_thms if_False) simp
qed

interpretation chunked: string_writer fastjson_write_json_string_chunked 12290
  by unfold_locales (simp_all add: chunked_written chunked_room)

subsection \<open>Copyable strings\<close>

definition needs :: "yyjson_write_flag \<Rightarrow> byte \<Rightarrow> bool" where
  "needs flags c = fastjson_ascii_byte_needs_escape c flags"

lemma needs_char:
  "\<not> needs flags c \<Longrightarrow> c < 0x80 \<and> utf8_next (c # t) = 1 \<and> char_out flags (c # t) = [c]"
  by (simp add: needs_def fastjson_ascii_byte_needs_escape_def char_out_def ascii_out_def Let_def
      get_enc_table_flag enc_table_def not_le) auto

lemma esc_body_plain: "list_all (\<lambda>c. \<not> needs flags c) p \<Longrightarrow> utf8_wf p \<and> esc_body flags p = p"
  by (induction p) (use needs_char in \<open>auto simp: esc_body.simps [of _ "_ # _"]\<close>)

lemma first_escape_spec:
  assumes "pos \<le> length s" and "list_all (\<lambda>c. \<not> needs flags c) (take pos s)"
  shows "pos \<le> first_escape flags s pos \<and> first_escape flags s pos \<le> length s \<and>
    list_all (\<lambda>c. \<not> needs flags c) (take (first_escape flags s pos) s) \<and>
    (first_escape flags s pos < length s \<longrightarrow> needs flags (s ! first_escape flags s pos))"
  using assms
proof (induction flags s pos rule: first_escape.induct)
  case (1 flags s pos)
  show ?case
  proof (cases "pos < length s \<and> \<not> needs flags (s ! pos)")
    case True
    with 1 show ?thesis
      by (simp add: first_escape.simps [of _ _ pos] needs_def take_Suc_conv_app_nth)
  next
    case False
    with 1 show ?thesis by (auto simp: first_escape.simps [of _ _ pos] needs_def)
  qed
qed

lemma list_all_take8:
  "pos + 8 \<le> length s \<Longrightarrow> list_all P (take pos s) \<Longrightarrow> list_all P (take 8 (drop pos s)) \<Longrightarrow>
   list_all P (take (pos + 8) s)"
  by (simp add: take_add)

lemma word_block:
  "pos + 8 \<le> length s \<Longrightarrow> \<not> fastjson_ascii_word_needs_escape (load_le (take 8 (drop pos s))) flags \<Longrightarrow>
   list_all (\<lambda>c. \<not> needs flags c) (take pos s) \<Longrightarrow> list_all (\<lambda>c. \<not> needs flags c) (take (pos + 8) s)"
  by (rule list_all_take8) (simp_all add: word_needs_escape needs_def list_all_iff list_ex_iff)

lemma fused_words_spec:
  assumes "pos \<le> length s" and "list_all (\<lambda>c. \<not> needs flags c) (take pos s)"
  shows "fused_words flags s pos \<le> length s \<and> list_all (\<lambda>c. \<not> needs flags c) (take (fused_words flags s pos) s)"
  using assms
proof (induction flags s pos rule: fused_words.induct)
  case (1 flags s pos)
  show ?case
  proof (cases "pos + 8 \<le> length s \<and> \<not> fastjson_ascii_word_needs_escape (load_le (take 8 (drop pos s))) flags")
    case True
    with 1 show ?thesis by (simp add: fused_words.simps [of _ _ pos] word_block)
  next
    case False
    with 1 show ?thesis by (auto simp: fused_words.simps [of _ _ pos])
  qed
qed

lemma copyable_words_spec:
  assumes "pos \<le> length s" and "list_all (\<lambda>c. \<not> needs flags c) (take pos s)"
  shows "snd (copyable_words flags s pos) \<le> length s \<and>
    list_all (\<lambda>c. \<not> needs flags c) (take (snd (copyable_words flags s pos)) s) \<and>
    (fst (copyable_words flags s pos) \<longleftrightarrow> list_all (\<lambda>c. \<not> needs flags c) s) \<and>
    (\<not> fst (copyable_words flags s pos) \<longrightarrow> snd (copyable_words flags s pos) < length s)"
  using assms
proof (induction flags s pos rule: copyable_words.induct)
  case (1 flags s pos)
  note fe = first_escape_spec [OF "1.prems"]
  show ?case
  proof (cases "pos + 8 \<le> length s")
    case False
    have "first_escape flags s pos < length s \<Longrightarrow> \<not> list_all (\<lambda>c. \<not> needs flags c) s"
      using fe by (auto simp: list_all_length)
    then show ?thesis
      using False fe by (auto simp: copyable_words.simps [of _ _ pos] Let_def)
  next
    case True
    show ?thesis
    proof (cases "fastjson_ascii_word_needs_escape (load_le (take 8 (drop pos s))) flags")
      case False
      with True 1 show ?thesis by (simp add: copyable_words.simps [of _ _ pos] Let_def word_block)
    next
      case esc: True
      then obtain j where j: "j < 8" "needs flags (s ! (pos + j))"
        using True by (auto simp: word_needs_escape needs_def list_ex_length)
      have "pos + j < length s" using j(1) True by linarith
      with j(2) have n: "\<not> list_all (\<lambda>c. \<not> needs flags c) s" by (auto simp: list_all_length)
      have "first_escape flags s pos \<noteq> length s" using n fe by (auto simp: take_all_iff)
      then have "first_escape flags s pos < length s" using fe by linarith
      with n fe True esc "1.prems" show ?thesis
        by (simp add: copyable_words.simps [of _ _ pos] Let_def)
    qed
  qed
qed

lemma copyable_spec:
  assumes "fastjson_string_is_copyable_ascii s flags = (k, p)"
  shows "p \<le> length s" "list_all (\<lambda>c. \<not> needs flags c) (take p s)"
    "k \<longleftrightarrow> list_all (\<lambda>c. \<not> needs flags c) s" "\<not> k \<Longrightarrow> p < length s"
  using copyable_words_spec [of 0 s flags] assms by (simp_all add: fastjson_string_is_copyable_ascii_def)

subsection \<open>The exact size is the output length\<close>

lemma length_char_out_ascii:
  "a < 0x80 \<Longrightarrow> length (char_out flags (a # t)) =
    (if a < 0x20 then
       (if a = 0x08 \<or> a = 0x09 \<or> a = 0x0A \<or> a = 0x0C \<or> a = 0x0D then 2 else 6)
     else if a = 0x22 \<or> a = 0x5C \<or> (a = 0x2F \<and> has_flg flags YYJSON_WRITE_ESCAPE_SLASHES) then 2 else 1)"
  by (auto simp: char_out_def ascii_out_def Let_def get_enc_table_flag enc_table_def)

lemma json_size_char_spec:
  assumes i: "i < length s"
  shows "json_size_char s flags i =
    (if utf8_next (drop i s) = 0 then None
     else Some (length (char_out flags (drop i s)), utf8_next (drop i s), \<not> needs flags (s ! i)))"
proof -
  obtain a t where r: "drop i s = a # t" using i by (cases "drop i s") auto
  then have a: "s ! i = a" using i by (metis hd_drop_conv_nth list.sel(1))
  show ?thesis
  proof (cases "a < 0x80")
    case True
    then show ?thesis
      unfolding r using length_char_out_ascii [OF True, of flags t]
      by (auto simp: json_size_char_def a Let_def needs_def fastjson_ascii_byte_needs_escape_def not_le)
  next
    case False
    then have n: "\<not> a < 0x20" "a \<noteq> 0x22" "a \<noteq> 0x5C" "a \<noteq> 0x2F" by (auto simp: byte_arith)
    have k: "needs flags a" using False by (simp add: needs_def fastjson_ascii_byte_needs_escape_def not_less)
    have j: "json_size_char s flags i =
        (if utf8_next (a # t) = 0 then None
         else let advance = (if a < 0xE0 then 2 else if a < 0xF0 then 3 else 4) in
           if has_flg flags YYJSON_WRITE_ESCAPE_UNICODE then Some (if advance = 4 then 12 else 6, advance, False)
           else Some (advance, advance, False))"
      using False n by (simp add: json_size_char_def a start_next r del: utf8_next.simps)
    show ?thesis
    proof (cases "utf8_next (a # t) = 0")
      case True
      then show ?thesis unfolding j r a by simp
    next
      case nz: False
      have nx: "utf8_next (a # t) = (if a < 0xE0 then 2 else if a < 0xF0 then 3 else 4)"
        using next_need [OF nz] False by simp
      have "length (char_out flags (a # t)) =
          (if has_flg flags YYJSON_WRITE_ESCAPE_UNICODE then (if utf8_next (a # t) = 4 then 12 else 6)
           else utf8_next (a # t))"
        using nx utf8_next_le [of "a # t"]
        by (auto simp: char_out_def Let_def simp del: utf8_next.simps split: if_splits)
      then show ?thesis
        unfolding j r a using nz nx k by (simp add: Let_def del: utf8_next.simps)
    qed
  qed
qed

lemma json_size_loop_spec:
  "i \<le> length s \<Longrightarrow> sz \<le> zmax \<Longrightarrow>
   json_size_loop zmax s flags i sz copyable = r \<Longrightarrow>
   (case r of
      Inr (n, k) \<Rightarrow> utf8_wf (drop i s) \<and> n = sz + length (esc_body flags (drop i s)) \<and> n \<le> zmax \<and>
        (k \<longrightarrow> copyable \<and> list_all (\<lambda>c. \<not> needs flags c) (drop i s))
    | Inl FJ_STRING_SIZE_INVALID_UTF8 \<Rightarrow> \<not> utf8_wf (drop i s)
    | Inl FJ_STRING_SIZE_TOO_LARGE \<Rightarrow> zmax < sz + length (esc_body flags (drop i s))
    | Inl FJ_STRING_SIZE_OK \<Rightarrow> False)"
proof (induction zmax s flags i sz copyable arbitrary: r rule: json_size_loop.induct)
  case (1 zmax s flags i sz copyable)
  show ?case
  proof (cases "i < length s")
    case False
    then have "r = Inr (sz, copyable)" "drop i s = []"
      using "1.prems"(3) by (simp_all add: json_size_loop.simps [of _ _ _ i])
    then show ?thesis using "1.prems"(2) by simp
  next
    case True
    let ?n = "utf8_next (drop i s)" and ?add = "length (char_out flags (drop i s))"
    have nth: "drop i s = s ! i # drop (Suc i) s" using True by (simp add: Cons_nth_drop_Suc)
    show ?thesis
    proof (cases "?n = 0")
      case nz: True
      with True have "\<not> utf8_wf (drop i s)" by (intro utf8_wf_stuck) simp_all
      with nz True "1.prems"(3) show ?thesis
        by (auto simp: json_size_loop.simps [of _ _ _ i] json_size_char_spec)
    next
      case nz: False
      have c: "json_size_char s flags i = Some (?add, ?n, \<not> needs flags (s ! i))"
        using True nz by (simp add: json_size_char_spec)
      have body: "esc_body flags (drop i s) = char_out flags (drop i s) @ esc_body flags (drop (i + ?n) s)"
        using nz by (simp add: esc_body.simps [of _ "drop i s"] add.commute)
      have wf: "utf8_wf (drop i s) = utf8_wf (drop (i + ?n) s)"
        using nz by (simp add: utf8_wf_step add.commute)
      have le: "i + ?n \<le> length s" using utf8_next_le [of "drop i s"] True by simp
      have pl: "list_all (\<lambda>c. \<not> needs flags c) (drop (i + ?n) s) \<Longrightarrow> \<not> needs flags (s ! i) \<Longrightarrow>
          list_all (\<lambda>c. \<not> needs flags c) (drop i s)"
        using needs_char [of flags "s ! i" "drop (Suc i) s"] unfolding nth by simp
      show ?thesis
      proof (cases "zmax - sz < ?add")
        case big: True
        then have "r = Inl FJ_STRING_SIZE_TOO_LARGE"
          using True c "1.prems"(3) by (auto simp: json_size_loop.simps [of _ _ _ i])
        then show ?thesis using big "1.prems"(2) by (simp add: body)
      next
        case False
        then have "json_size_loop zmax s flags (i + ?n) (sz + ?add) (copyable \<and> \<not> needs flags (s ! i)) = r"
          using True c "1.prems"(3) by (auto simp: json_size_loop.simps [of _ _ _ i])
        from "1.IH" [OF True c refl refl False le _ this] have
          "case r of
            Inr (n, k) \<Rightarrow> utf8_wf (drop (i + ?n) s) \<and> n = sz + ?add + length (esc_body flags (drop (i + ?n) s)) \<and> n \<le> zmax \<and>
              (k \<longrightarrow> (copyable \<and> \<not> needs flags (s ! i)) \<and> list_all (\<lambda>c. \<not> needs flags c) (drop (i + ?n) s))
          | Inl FJ_STRING_SIZE_INVALID_UTF8 \<Rightarrow> \<not> utf8_wf (drop (i + ?n) s)
          | Inl FJ_STRING_SIZE_TOO_LARGE \<Rightarrow> zmax < sz + ?add + length (esc_body flags (drop (i + ?n) s))
          | Inl FJ_STRING_SIZE_OK \<Rightarrow> False"
          using False "1.prems"(2) by simp
        then show ?thesis
          using pl by (auto simp: body wf split: sum.splits fj_string_size_status.splits)
      qed
    qed
  qed
qed

lemma json_string_size_spec:
  "2 \<le> zmax \<Longrightarrow>
   (case fastjson_json_string_size zmax s flags of
      Inr (n, k) \<Rightarrow> utf8_wf s \<and> n = length (esc_body flags s) + 2 \<and> n \<le> zmax \<and> (k \<longrightarrow> esc_body flags s = s)
    | Inl FJ_STRING_SIZE_INVALID_UTF8 \<Rightarrow> \<not> utf8_wf s
    | Inl FJ_STRING_SIZE_TOO_LARGE \<Rightarrow> zmax < length (esc_body flags s) + 2
    | Inl FJ_STRING_SIZE_OK \<Rightarrow> False)"
proof (cases "fst (fastjson_string_is_copyable_ascii s flags)")
  case True
  then have "utf8_wf s" "esc_body flags s = s"
    using copyable_spec(3) [OF surjective_pairing] esc_body_plain [of flags s] by auto
  with True show "2 \<le> zmax \<Longrightarrow> ?thesis" by (auto simp: fastjson_json_string_size_def)
next
  case False
  assume z: "2 \<le> zmax"
  have "list_all (\<lambda>c. \<not> needs flags c) s \<Longrightarrow> esc_body flags s = s"
    using esc_body_plain by blast
  then show ?thesis
    using False json_size_loop_spec [of 0 s 2 zmax flags True, OF _ z refl]
    by (auto simp: fastjson_json_string_size_def split: sum.splits fj_string_size_status.splits)
qed

subsection \<open>Large strings\<close>

lemma esc_body_prefix:
  "list_all (\<lambda>c. \<not> needs flags c) (take p s) \<Longrightarrow>
   utf8_wf s = utf8_wf (drop p s) \<and> esc_body flags s = take p s @ esc_body flags (drop p s)"
  using esc_body_plain [of flags "take p s"] utf8_wf_append [of "take p s" "drop p s"]
    esc_body_append [of "take p s" flags "drop p s"] by simp

lemma large_written:
  assumes f: "\<not> has_flg flags YYJSON_WRITE_ALLOW_INVALID_UNICODE"
  shows "string_written buf s flags (fastjson_write_large_json_string zmax buf s flags)"
proof (cases "zmax - 2 < length buf \<or> zmax - length buf - 2 < length s")
  case True
  then show ?thesis by (simp add: fastjson_write_large_json_string_def string_written_def Let_def)
next
  case room: False
  note sd = fastjson_write_large_json_string_def string_written_def Let_def
  show ?thesis
  proof (cases "length s < FASTJSON_EXACT_NONASCII_THRESHOLD")
    case True
    obtain k p where kp: "fastjson_string_is_copyable_ascii s flags = (k, p)" by fastforce
    have spec: "p \<le> length s" "list_all (\<lambda>c. \<not> needs flags c) (take p s)" "k \<longleftrightarrow> list_all (\<lambda>c. \<not> needs flags c) s"
      using copyable_spec [OF kp] by simp_all
    consider "k" | "\<not> k" "length s - length s div 8 \<le> p" | "\<not> k" "\<not> length s - length s div 8 \<le> p" by blast
    then show ?thesis
    proof cases
      case 1
      then show ?thesis using room True kp spec(3) esc_body_plain [of flags s] by (simp add: sd)
    next
      case 2
      then show ?thesis
        using room True kp esc_body_prefix [OF spec(2)] by (simp add: sd yy_write_body [OF f])
    next
      case 3
      then show ?thesis
        using room True kp chunked_written [OF f, of buf s zmax]
        by (simp add: fastjson_write_large_json_string_def Let_def)
    qed
  next
    case False
    let ?pos = "first_escape flags s (fused_words flags s 0)"
    have pos: "?pos \<le> length s" "list_all (\<lambda>c. \<not> needs flags c) (take ?pos s)"
      using fused_words_spec [of 0 s flags] first_escape_spec [of "fused_words flags s 0" s flags] by simp_all
    show ?thesis
    proof (cases "?pos = length s")
      case True
      then show ?thesis
        using room False pos(2) esc_body_plain [of flags s] by (simp add: sd)
    next
      case ne: False
      have z: "2 \<le> zmax"
        using room False by (auto simp: FASTJSON_EXACT_NONASCII_THRESHOLD_def)
      show ?thesis
        using json_string_size_spec [OF z, of s flags] room False ne
        by (auto simp: sd yy_write_body [OF f] split: sum.splits fj_string_size_status.splits)
    qed
  qed
qed

lemma large_room:
  assumes f: "\<not> has_flg flags YYJSON_WRITE_ALLOW_INVALID_UNICODE"
    and w: "utf8_wf s" and z: "length buf + 6 * length s + 12290 \<le> zmax"
  shows "fst (fastjson_write_large_json_string zmax buf s flags) = FJ_STRING_SIZE_OK"
proof -
  have room: "\<not> (zmax - 2 < length buf \<or> zmax - length buf - 2 < length s)" using z by linarith
  note sd = fastjson_write_large_json_string_def Let_def
  have len: "length (esc_body flags s) \<le> 6 * length s" by (rule length_esc_body)
  show ?thesis
  proof (cases "length s < FASTJSON_EXACT_NONASCII_THRESHOLD")
    case True
    obtain k p where kp: "fastjson_string_is_copyable_ascii s flags = (k, p)" by fastforce
    have spec: "p \<le> length s" "list_all (\<lambda>c. \<not> needs flags c) (take p s)"
      using copyable_spec [OF kp] by simp_all
    have tail: "\<not> (zmax - length buf - p - 3) div 6 < length s - p"
      using z spec(1) by (simp add: div_less_iff_less_mult)
    show ?thesis
      using room True kp tail esc_body_prefix [OF spec(2)] w chunked_room [OF f w z]
      by (simp add: sd yy_write_body [OF f])
  next
    case False
    have z2: "2 \<le> zmax" using z by simp
    show ?thesis
      using json_string_size_spec [OF z2, of s flags] room False w z len
      by (auto simp: sd yy_write_body [OF f] split: sum.splits fj_string_size_status.splits)
  qed
qed

interpretation large: string_writer fastjson_write_large_json_string 12290
  by unfold_locales (simp_all add: large_written large_room)

subsection \<open>Properties\<close>

text \<open>The eight-byte test used by the string scanners answers for the eight bytes what the byte
  test answers for each of them: some byte needs an escape.\<close>

theorem ascii_word_test:
  assumes "length bs = 8"
  shows "fastjson_ascii_word_needs_escape (load_le bs) flags \<longleftrightarrow>
    list_ex (\<lambda>c. fastjson_ascii_byte_needs_escape c flags) bs"
  using assms by (rule word_needs_escape)

lemma ascii_word_test_witness:
  "fastjson_ascii_word_needs_escape (load_le [0x61, 0x62, 0x2F, 0x64, 0x65, 0x66, 0x67, 0x68]) YYJSON_WRITE_ESCAPE_SLASHES"
  by (subst ascii_word_test) (simp_all add: fastjson_ascii_byte_needs_escape_def has_flg_def yyjson_flag_defs)

text \<open>C11: with any flags fastjson passes, the vendored string writer succeeds exactly on well-formed
  UTF-8; what it writes is a JSON string literal that reads back as the input, and fits the
  \<open>6 * len + 2\<close> bytes its callers reserve.\<close>

theorem write_string_roundtrip:
  "(if fastjson_utf8_well_formed s
    then \<exists>w. yyjson_write_string_to_buf s (fastjson_translate_write_flags php_flags pretty) = Some w \<and>
         json_unquote w = Some s \<and> length w \<le> length s * 6 + 2
    else yyjson_write_string_to_buf s (fastjson_translate_write_flags php_flags pretty) = None)"
  using length_esc_body [of "fastjson_translate_write_flags php_flags pretty" s]
  by (simp add: yy_write_body well_formed_wf unquote_esc_body)

text \<open>C20: the measured size of a large string is the length of what the one-pass writer produces, and
  the measuring scan rejects exactly what that writer rejects; a string it calls copyable is
  written as itself between quotes.\<close>

theorem json_string_size_exact:
  assumes "2 \<le> zmax"
  shows "case fastjson_json_string_size zmax s (fastjson_translate_write_flags php_flags pretty) of
      Inr (n, copyable) \<Rightarrow>
        (\<exists>w. yyjson_write_string_to_buf s (fastjson_translate_write_flags php_flags pretty) = Some w \<and>
           n = length w \<and> n \<le> zmax \<and> (if copyable then w = 0x22 # s @ [0x22] else True))
    | Inl FJ_STRING_SIZE_INVALID_UTF8 \<Rightarrow>
        yyjson_write_string_to_buf s (fastjson_translate_write_flags php_flags pretty) = None
    | Inl FJ_STRING_SIZE_TOO_LARGE \<Rightarrow> zmax < 6 * length s + 2
    | Inl FJ_STRING_SIZE_OK \<Rightarrow> False"
proof -
  let ?f = "fastjson_translate_write_flags php_flags pretty"
  note w = yy_write_body [OF translate_flags(1), of s php_flags pretty]
  note spec = json_string_size_spec [OF assms, of s ?f]
  show ?thesis
  proof (cases "fastjson_json_string_size zmax s ?f")
    case (Inl status)
    then show ?thesis
      using spec length_esc_body [of ?f s] by (cases status) (simp_all add: w)
  next
    case (Inr r)
    then show ?thesis using spec by (cases r) (simp add: w)
  qed
qed

lemma json_string_size_exact_witness:
  "case fastjson_json_string_size 100 [0x61, 0x0A] (fastjson_translate_write_flags 0 False) of
      Inr (n, copyable) \<Rightarrow>
        (\<exists>w. yyjson_write_string_to_buf [0x61, 0x0A] (fastjson_translate_write_flags 0 False) = Some w \<and>
           n = length w \<and> n \<le> 100 \<and> (if copyable then w = 0x22 # [0x61, 0x0A] @ [0x22] else True))
    | Inl FJ_STRING_SIZE_INVALID_UTF8 \<Rightarrow>
        yyjson_write_string_to_buf [0x61, 0x0A] (fastjson_translate_write_flags 0 False) = None
    | Inl FJ_STRING_SIZE_TOO_LARGE \<Rightarrow> 100 < 6 * length [0x61, 0x0A :: byte] + 2
    | Inl FJ_STRING_SIZE_OK \<Rightarrow> False"
  by (rule json_string_size_exact) simp

text \<open>A chunk never splits a character: when a chunk starts on a character boundary of
  well-formed text, both the chunk and what follows it are well-formed, and the chunk is not empty.\<close>

theorem chunk_on_boundary:
  assumes "fastjson_utf8_well_formed (drop pos s)" and "pos < length s" and "0 < want"
  shows "fastjson_utf8_well_formed (take (fastjson_json_chunk_len s pos want) (drop pos s)) \<and>
    fastjson_utf8_well_formed (drop (pos + fastjson_json_chunk_len s pos want) s) \<and>
    0 < fastjson_json_chunk_len s pos want"
  using chunk_len_boundary assms chunk_len_bounds(1) by (simp add: well_formed_wf)

lemma chunk_on_boundary_witness:
  "fastjson_json_chunk_len [0x61, 0xC3, 0xA9] 0 2 = 1 \<and>
   fastjson_utf8_well_formed (take (fastjson_json_chunk_len [0x61, 0xC3, 0xA9] 0 2) (drop 0 [0x61, 0xC3, 0xA9])) \<and>
   fastjson_utf8_well_formed (drop (0 + fastjson_json_chunk_len [0x61, 0xC3, 0xA9] 0 2) [0x61, 0xC3, 0xA9]) \<and>
   0 < fastjson_json_chunk_len [0x61, 0xC3, 0xA9] 0 2"
proof -
  have "fastjson_utf8_well_formed (drop 0 [0x61, 0xC3, 0xA9])"
    by (simp add: well_formed_wf utf8_wf_step [of "[0xC3, 0xA9]"] trail2_def second_ok_def utf8_trail_def)
  from chunk_on_boundary [OF this, of 2]
  have "fastjson_utf8_well_formed (take (fastjson_json_chunk_len [0x61, 0xC3, 0xA9] 0 2) (drop 0 [0x61, 0xC3, 0xA9])) \<and>
     fastjson_utf8_well_formed (drop (0 + fastjson_json_chunk_len [0x61, 0xC3, 0xA9] 0 2) [0x61, 0xC3, 0xA9]) \<and>
     0 < fastjson_json_chunk_len [0x61, 0xC3, 0xA9] 0 2" by simp
  moreover have "fastjson_json_chunk_len [0x61, 0xC3, 0xA9] 0 2 = 1" by code_simp
  ultimately show ?thesis by blast
qed


text \<open>C19: the writer for large strings, whichever of its four paths it takes (fused ASCII copy,
  copied prefix with an escaped tail, chunks, exact size), has the same contract: its output is
  the one-pass output or the buffer is left alone.\<close>

theorem large_writer_is_one_pass:
  "case fastjson_write_large_json_string zmax buf s (fastjson_translate_write_flags php_flags pretty) of
     (FJ_STRING_SIZE_OK, out) \<Rightarrow>
       (\<exists>w. yyjson_write_string_to_buf s (fastjson_translate_write_flags php_flags pretty) = Some w \<and> out = buf @ w)
   | (FJ_STRING_SIZE_INVALID_UTF8, out) \<Rightarrow>
       yyjson_write_string_to_buf s (fastjson_translate_write_flags php_flags pretty) = None \<and> out = buf
   | (FJ_STRING_SIZE_TOO_LARGE, out) \<Rightarrow>
       out = buf \<and> (zmax < length buf + 6 * length s + 12290 \<or>
         yyjson_write_string_to_buf s (fastjson_translate_write_flags php_flags pretty) = None)"
  by (rule large.one_pass) simp

end
