(* ===== verification/HexEscape.thy ===== *)
theory HexEscape
  imports StringWriter
begin

text \<open>
  \<open>fastjson_apply_hex_escapes\<close> (fastjson.c, lines 736 to 817): the string just written is rewritten
  in place, from the end, with the characters selected by the JSON_HEX_* flags as
  \<open>\u00XX\<close> escapes. The first pass counts the growth, the second moves bytes within one
  buffer, which is modelled as such: an array with a read and a write position.

  The specification rewrites token by token, a token being a plain character or one whole escape.
\<close>

definition FASTJSON_ENCODE_HEX_TAG :: zend_long where "FASTJSON_ENCODE_HEX_TAG = 0x1"
definition FASTJSON_ENCODE_HEX_AMP :: zend_long where "FASTJSON_ENCODE_HEX_AMP = 0x2"
definition FASTJSON_ENCODE_HEX_APOS :: zend_long where "FASTJSON_ENCODE_HEX_APOS = 0x4"
definition FASTJSON_ENCODE_HEX_QUOT :: zend_long where "FASTJSON_ENCODE_HEX_QUOT = 0x8"

subsection \<open>The code\<close>

text \<open>The selected single characters, and what replaces them.\<close>

definition hex_special :: "zend_long \<Rightarrow> byte \<Rightarrow> bool" where
  "hex_special flags c \<longleftrightarrow>
    has_flag flags FASTJSON_ENCODE_HEX_TAG \<and> (c = 0x3C \<or> c = 0x3E) \<or>
    has_flag flags FASTJSON_ENCODE_HEX_AMP \<and> c = 0x26 \<or>
    has_flag flags FASTJSON_ENCODE_HEX_APOS \<and> c = 0x27"

text \<open>The growth of the region, scanned forward; \<open>r\<close> is what is left of it.\<close>

function hex_growth :: "nat \<Rightarrow> zend_long \<Rightarrow> bytes \<Rightarrow> nat \<Rightarrow> nat option" where
  "hex_growth zmax flags r growth =
    (case r of [] \<Rightarrow> Some growth
     | c # t \<Rightarrow>
        if c = 0x5C \<and> t \<noteq> [] then
          (if has_flag flags FASTJSON_ENCODE_HEX_QUOT \<and> t ! 0 = 0x22 then
             (if zmax - 4 < growth then None else hex_growth zmax flags (drop 1 t) (growth + 4))
           else hex_growth zmax flags (drop (if t ! 0 = 0x75 \<and> 5 < length r then 5 else 1) t) growth)
        else if hex_special flags c then
          (if zmax - 5 < growth then None else hex_growth zmax flags t (growth + 5))
        else hex_growth zmax flags t growth)"
  by pat_completeness auto
termination
  by (relation "measure (\<lambda>(_, _, r, _). length r)") auto

declare hex_growth.simps [simp del]

text \<open>\<open>memcpy(bytes + at, src, n)\<close>.\<close>

definition put_bytes :: "bytes \<Rightarrow> nat \<Rightarrow> bytes \<Rightarrow> bytes" where
  "put_bytes mem at src = take at mem @ src @ drop (at + length src) mem"

definition hex_u00 :: "byte \<Rightarrow> byte \<Rightarrow> bytes" where
  "hex_u00 a b = [0x5C, 0x75, 0x30, 0x30, a, b]"

text \<open>One turn of the backward loop at \<open>pos\<close>: the replacement and the extra step of \<open>read\<close>.\<close>

definition hex_replacement :: "zend_long \<Rightarrow> nat \<Rightarrow> nat \<Rightarrow> bytes \<Rightarrow> nat \<Rightarrow> (bytes \<times> nat) option" where
  "hex_replacement flags start orig_len mem pos =
    (let c = mem ! pos in
     if has_flag flags FASTJSON_ENCODE_HEX_QUOT \<and> c = 0x22 \<and> start < pos \<and> pos + 1 < start + orig_len \<and>
       mem ! (pos - 1) = 0x5C then Some (hex_u00 0x32 0x32, 1)
     else if has_flag flags FASTJSON_ENCODE_HEX_TAG \<and> c = 0x3C then Some (hex_u00 0x33 0x43, 0)
     else if has_flag flags FASTJSON_ENCODE_HEX_TAG \<and> c = 0x3E then Some (hex_u00 0x33 0x45, 0)
     else if has_flag flags FASTJSON_ENCODE_HEX_AMP \<and> c = 0x26 then Some (hex_u00 0x32 0x36, 0)
     else if has_flag flags FASTJSON_ENCODE_HEX_APOS \<and> c = 0x27 then Some (hex_u00 0x32 0x37, 0)
     else None)"

function hex_back :: "zend_long \<Rightarrow> nat \<Rightarrow> nat \<Rightarrow> nat \<Rightarrow> nat \<Rightarrow> bytes \<Rightarrow> bytes" where
  "hex_back flags start orig_len read write mem =
    (if start < read then
       let pos = read - 1 in
       (case hex_replacement flags start orig_len mem pos of
          Some (replacement, extra) \<Rightarrow>
            hex_back flags start orig_len (pos - extra) (write - 6) (put_bytes mem (write - 6) replacement)
        | None \<Rightarrow>
            hex_back flags start orig_len pos (write - 1) (mem[write - 1 := mem ! pos]))
     else mem)"
  by pat_completeness auto
termination
  by (relation "measure (\<lambda>(_, _, _, read, _, _). read)") auto

declare hex_back.simps [simp del]

text \<open>The whole routine on the buffer \<open>buf\<close>: the new content, or the \<open>false\<close> return. The bytes the
  buffer is extended with are uninitialised in the code; all of them are overwritten.\<close>

definition fastjson_apply_hex_escapes :: "nat \<Rightarrow> bytes \<Rightarrow> zend_long \<Rightarrow> nat \<Rightarrow> bytes option" where
  "fastjson_apply_hex_escapes zmax buf flags start =
    (let orig_len = length buf - start in
     if orig_len = 0 then Some buf
     else case hex_growth zmax flags (drop start buf) 0 of
         None \<Rightarrow> None
       | Some growth \<Rightarrow>
           if growth = 0 then Some buf
           else if zmax - start - orig_len < growth then None
           else Some (hex_back flags start orig_len (start + orig_len) (start + orig_len + growth)
                        (buf @ replicate growth 0)))"

subsection \<open>Tokens\<close>

definition json_token :: "bytes \<Rightarrow> bool" where
  "json_token t \<longleftrightarrow>
    (\<exists>c. t = [c] \<and> plain_byte c) \<or>
    (\<exists>e. t = [0x5C, e] \<and> e \<in> {0x22, 0x5C, 0x2F, 0x62, 0x66, 0x6E, 0x72, 0x74}) \<or>
    (\<exists>a b c d. t = [0x5C, 0x75, a, b, c, d] \<and> list_all (\<lambda>h. hex_val h \<noteq> None) [a, b, c, d])"

text \<open>The replacement of one token.\<close>

definition hex_token :: "zend_long \<Rightarrow> bytes \<Rightarrow> bytes" where
  "hex_token flags t =
    (if has_flag flags FASTJSON_ENCODE_HEX_QUOT \<and> t = [0x5C, 0x22] then hex_u00 0x32 0x32
     else if length t = 1 \<and> hex_special flags (t ! 0) then
       hex_u00 (if t ! 0 = 0x3C \<or> t ! 0 = 0x3E then 0x33 else 0x32)
         (if t ! 0 = 0x3C then 0x43 else if t ! 0 = 0x3E then 0x45 else if t ! 0 = 0x26 then 0x36 else 0x37)
     else t)"

definition token_growth :: "zend_long \<Rightarrow> bytes \<Rightarrow> nat" where
  "token_growth flags t = length (hex_token flags t) - length t"

lemma hex_val_plain: "hex_val h \<noteq> None \<Longrightarrow> \<not> hex_special flags h \<and> h \<noteq> 0x22 \<and> h \<noteq> 0x5C"
  by (auto simp: hex_val_def hex_special_def byte_arith split: if_split_asm)

lemma length_hex_token: "json_token t \<Longrightarrow> length (hex_token flags t) = length t + token_growth flags t"
  by (auto simp: json_token_def hex_token_def token_growth_def hex_u00_def)

lemma token_growth_cases:
  "token_growth flags [c] = (if hex_special flags c then 5 else 0)"
  "token_growth flags [0x5C, e] = (if has_flag flags FASTJSON_ENCODE_HEX_QUOT \<and> e = 0x22 then 4 else 0)"
  "token_growth flags [0x5C, 0x75, a, b, c, d] = 0"
  by (simp_all add: token_growth_def hex_token_def hex_u00_def)

text \<open>The forward scan adds up the growth of the tokens.\<close>

lemma hex_growth_token:
  assumes "json_token t" and "r \<noteq> []"
  shows "hex_growth zmax flags (t @ r) g =
    (if 0 < token_growth flags t \<and> zmax - token_growth flags t < g then None
     else hex_growth zmax flags r (g + token_growth flags t))"
  using assms(1) unfolding json_token_def
proof (elim disjE exE conjE)
  fix c assume "t = [c]" "plain_byte c"
  then show ?thesis
    by (auto simp: hex_growth.simps [of _ _ "c # r"] plain_byte_def token_growth_cases)
next
  fix e assume t: "t = [0x5C, e]" and e: "e \<in> {0x22, 0x5C, 0x2F, 0x62, 0x66, 0x6E, 0x72, 0x74}"
  then have "e \<noteq> 0x75" by auto
  with t show ?thesis
    by (auto simp: hex_growth.simps [of _ _ "0x5C # _"] token_growth_cases)
next
  fix a b c d assume t: "t = [0x5C, 0x75, a, b, c, d]"
  then show ?thesis
    by (simp add: hex_growth.simps [of _ _ "0x5C # _"] token_growth_cases)
qed

lemma hex_growth_tokens:
  "list_all json_token ts \<Longrightarrow> r \<noteq> [] \<Longrightarrow> 5 \<le> zmax \<Longrightarrow> g \<le> zmax \<Longrightarrow>
   hex_growth zmax flags (concat ts @ r) g =
    (if zmax < g + sum_list (map (token_growth flags) ts) then None
     else hex_growth zmax flags r (g + sum_list (map (token_growth flags) ts)))"
proof (induction ts arbitrary: g)
  case (Cons t ts)
  have small: "token_growth flags t \<le> 5"
    using Cons.prems(1) by (auto simp: json_token_def token_growth_def hex_token_def hex_u00_def)
  have step: "hex_growth zmax flags (concat (t # ts) @ r) g =
      (if 0 < token_growth flags t \<and> zmax - token_growth flags t < g then None
       else hex_growth zmax flags (concat ts @ r) (g + token_growth flags t))"
    using Cons.prems hex_growth_token [of t "concat ts @ r"] by simp
  show ?case
  proof (cases "zmax < g + token_growth flags t")
    case True
    then have "0 < token_growth flags t \<and> zmax - token_growth flags t < g" using Cons.prems(3,4) small by linarith
    with True show ?thesis unfolding step by simp
  next
    case False
    then have "\<not> (0 < token_growth flags t \<and> zmax - token_growth flags t < g)" by linarith
    then have "hex_growth zmax flags (concat (t # ts) @ r) g = hex_growth zmax flags (concat ts @ r) (g + token_growth flags t)"
      unfolding step by (simp only: if_False)
    then show ?thesis
      using Cons.IH [of "g + token_growth flags t"] Cons.prems False by (simp add: add.assoc)
  qed
qed simp

subsection \<open>The backward pass\<close>

lemma hex_back_copy:
  assumes "hex_replacement flags start n (a @ c # gap @ done) (length a) = None" and "start \<le> length a"
  shows "hex_back flags start n (length a + 1) (length a + 1 + length gap) (a @ c # gap @ done) =
    hex_back flags start n (length a) (length a + length gap) (a @ butlast (c # gap) @ c # done)"
proof -
  have "(a @ c # gap @ done)[length a + length gap := c] = a @ butlast (c # gap) @ c # done"
    by (cases gap rule: rev_cases) (simp_all add: list_update_append)
  then show ?thesis
    using assms by (subst hex_back.simps) (simp add: Let_def)
qed

lemma hex_back_replace:
  assumes "hex_replacement flags start n (a @ t @ gap @ done) (length a + length t - 1) = Some (rep, length t - 1)"
    and "start \<le> length a" and "length rep = 6" and "6 \<le> length t + length gap" and "t \<noteq> []"
  shows "hex_back flags start n (length a + length t) (length a + length t + length gap) (a @ t @ gap @ done) =
    hex_back flags start n (length a) (length a + (length t + length gap - 6))
      (a @ take (length t + length gap - 6) (t @ gap) @ rep @ done)"
proof -
  define k where "k = length t + length gap - 6"
  have k: "length a + length t + length gap - 6 = length a + k" "length t + length gap = k + 6"
    using assms(4) by (simp_all add: k_def)
  have "put_bytes (a @ t @ gap @ done) (length a + k) rep = a @ take k (t @ gap) @ rep @ done"
  proof -
    have "drop (length a + k + 6) (a @ t @ gap @ done) = done"
      using k(2) by (simp add: add.assoc)
    moreover have "take k (t @ gap @ done) = take k (t @ gap)" using k(2) by simp
    ultimately show ?thesis by (simp add: put_bytes_def assms(3))
  qed
  moreover have "start < length a + length t" using assms(2,5) by (cases t) simp_all
  moreover have "length a + length t - 1 - (length t - 1) = length a" using assms(5) by (cases t) simp_all
  ultimately show ?thesis
    using assms(1) k(1) by (subst hex_back.simps) (simp add: Let_def k_def)
qed

text \<open>A run of bytes none of which is replaced.\<close>

definition hex_inert :: "zend_long \<Rightarrow> byte \<Rightarrow> bool" where
  "hex_inert flags c \<longleftrightarrow> \<not> hex_special flags c \<and> (c = 0x22 \<longrightarrow> \<not> has_flag flags FASTJSON_ENCODE_HEX_QUOT)"

lemma hex_inert_none: "hex_inert flags (mem ! pos) \<Longrightarrow> hex_replacement flags start n mem pos = None"
  by (auto simp: hex_replacement_def hex_inert_def hex_special_def Let_def)

lemma hex_back_copies:
  "list_all (hex_inert flags) t \<Longrightarrow> start \<le> length a \<Longrightarrow>
   \<exists>gap'. length gap' = length gap \<and>
     hex_back flags start n (length a + length t) (length a + length t + length gap) (a @ t @ gap @ done) =
     hex_back flags start n (length a) (length a + length gap) (a @ gap' @ t @ done)"
proof (induction t arbitrary: gap "done" rule: rev_induct)
  case Nil
  then show ?case by (intro exI [of _ gap]) simp
next
  case (snoc c t)
  have inert: "hex_replacement flags start n ((a @ t) @ c # gap @ done) (length (a @ t)) = None"
    using snoc.prems(1) by (intro hex_inert_none) simp
  have one: "hex_back flags start n (length (a @ t) + 1) (length (a @ t) + 1 + length gap) ((a @ t) @ c # gap @ done) =
      hex_back flags start n (length (a @ t)) (length (a @ t) + length gap) ((a @ t) @ butlast (c # gap) @ c # done)"
    using snoc.prems(2) by (intro hex_back_copy [OF inert]) simp
  have "length (butlast (c # gap)) = length gap" by simp
  then obtain gap' where "length gap' = length gap"
    "hex_back flags start n (length a + length t) (length a + length t + length gap) (a @ t @ butlast (c # gap) @ c # done) =
     hex_back flags start n (length a) (length a + length gap) (a @ gap' @ t @ c # done)"
    using snoc.IH [of "butlast (c # gap)" "c # done"] snoc.prems by (metis list_all_append)
  with one show ?case by (intro exI [of _ gap']) (simp add: add.assoc)
qed

lemma token_nonempty: "json_token t \<Longrightarrow> t \<noteq> []"
  by (auto simp: json_token_def)

lemma hex_back_token:
  assumes t: "json_token t" and a: "start < length a" and n: "length a + length t < start + n"
    and gap: "token_growth flags t \<le> length gap"
  shows "\<exists>gap'. length gap' = length gap - token_growth flags t \<and>
    hex_back flags start n (length a + length t) (length a + length t + length gap) (a @ t @ gap @ done) =
    hex_back flags start n (length a) (length a + length gap') (a @ gap' @ hex_token flags t @ done)"
proof (cases "hex_token flags t = t")
  case True
  have "list_all (hex_inert flags) t"
    using t True unfolding json_token_def
  proof (elim disjE exE conjE)
    fix c assume c: "t = [c]" "plain_byte c"
    then have "\<not> hex_special flags c" using True by (auto simp: hex_token_def hex_u00_def)
    with c show ?thesis by (simp add: hex_inert_def plain_byte_def)
  next
    fix e assume t: "t = [0x5C, e]" and e: "e \<in> {0x22, 0x5C, 0x2F, 0x62, 0x66, 0x6E, 0x72, 0x74}"
    then have "e = 0x22 \<Longrightarrow> \<not> has_flag flags FASTJSON_ENCODE_HEX_QUOT"
      using True by (auto simp: hex_token_def hex_u00_def)
    with t e show ?thesis by (auto simp: hex_inert_def hex_special_def)
  next
    fix p q r s assume t: "t = [0x5C, 0x75, p, q, r, s]" and h: "list_all (\<lambda>h. hex_val h \<noteq> None) [p, q, r, s]"
    have "\<not> hex_special flags 0x5C" "\<not> hex_special flags 0x75" by (simp_all add: hex_special_def)
    with t h hex_val_plain show ?thesis unfolding hex_inert_def by simp
  qed
  then have "\<exists>gap'. length gap' = length gap \<and>
     hex_back flags start n (length a + length t) (length a + length t + length gap) (a @ t @ gap @ done) =
     hex_back flags start n (length a) (length a + length gap) (a @ gap' @ t @ done)"
    using a by (intro hex_back_copies) simp_all
  moreover have "token_growth flags t = 0" using True by (simp add: token_growth_def)
  ultimately show ?thesis using True by auto
next
  case False
  let ?rep = "hex_token flags t"
  have rep: "length ?rep = 6" and len: "length t + token_growth flags t = 6" "t \<noteq> []"
    and r: "hex_replacement flags start n (a @ t @ gap @ done) (length a + length t - 1) = Some (?rep, length t - 1)"
  proof -
    have "(\<exists>c. t = [c] \<and> hex_special flags c) \<or> (t = [0x5C, 0x22] \<and> has_flag flags FASTJSON_ENCODE_HEX_QUOT)"
      using t False by (auto simp: json_token_def hex_token_def split: if_splits)
    then consider "t = [0x5C, 0x22]" "has_flag flags FASTJSON_ENCODE_HEX_QUOT"
      | "t = [0x3C]" "has_flag flags FASTJSON_ENCODE_HEX_TAG" | "t = [0x3E]" "has_flag flags FASTJSON_ENCODE_HEX_TAG"
      | "t = [0x26]" "has_flag flags FASTJSON_ENCODE_HEX_AMP" | "t = [0x27]" "has_flag flags FASTJSON_ENCODE_HEX_APOS"
      by (auto simp: hex_special_def)
    then have "length ?rep = 6 \<and> length t + token_growth flags t = 6 \<and> t \<noteq> [] \<and>
        hex_replacement flags start n (a @ t @ gap @ done) (length a + length t - 1) = Some (?rep, length t - 1)"
      by cases (use a n in \<open>simp_all add: hex_token_def hex_u00_def token_growth_cases hex_replacement_def Let_def
          hex_special_def nth_append\<close>)
    then show "length ?rep = 6" "length t + token_growth flags t = 6" "t \<noteq> []"
      "hex_replacement flags start n (a @ t @ gap @ done) (length a + length t - 1) = Some (?rep, length t - 1)"
      by blast+
  qed
  define gap' where "gap' = take (length t + length gap - 6) (t @ gap)"
  have g: "length gap' = length gap - token_growth flags t" "length t + length gap - 6 = length gap'"
    using len(1) gap by (simp_all add: gap'_def)
  have "hex_back flags start n (length a + length t) (length a + length t + length gap) (a @ t @ gap @ done) =
      hex_back flags start n (length a) (length a + (length t + length gap - 6)) (a @ gap' @ ?rep @ done)"
    unfolding gap'_def using a gap len by (intro hex_back_replace [OF r _ rep]) simp_all
  with g show ?thesis by (intro exI [of _ gap'] conjI) simp_all
qed

lemma hex_back_tokens:
  assumes "list_all json_token ts" and "start < length a" and "length a + length (concat ts) < start + n"
    and "length gap = sum_list (map (token_growth flags) ts)"
  shows "hex_back flags start n (length a + length (concat ts)) (length a + length (concat ts) + length gap)
      (a @ concat ts @ gap @ done) =
    hex_back flags start n (length a) (length a) (a @ concat (map (hex_token flags) ts) @ done)"
  using assms
proof (induction ts arbitrary: gap "done" rule: rev_induct)
  case (snoc t ts)
  have "\<exists>gap'. length gap' = length gap - token_growth flags t \<and>
    hex_back flags start n (length (a @ concat ts) + length t) (length (a @ concat ts) + length t + length gap)
      ((a @ concat ts) @ t @ gap @ done) =
    hex_back flags start n (length (a @ concat ts)) (length (a @ concat ts) + length gap')
      ((a @ concat ts) @ gap' @ hex_token flags t @ done)"
    using snoc.prems by (intro hex_back_token) simp_all
  then obtain gap' where g: "length gap' = length gap - token_growth flags t"
    and s: "hex_back flags start n (length (a @ concat ts) + length t) (length (a @ concat ts) + length t + length gap)
      ((a @ concat ts) @ t @ gap @ done) =
    hex_back flags start n (length (a @ concat ts)) (length (a @ concat ts) + length gap')
      ((a @ concat ts) @ gap' @ hex_token flags t @ done)" by blast
  have "length gap' = sum_list (map (token_growth flags) ts)" using g snoc.prems(4) by simp
  from snoc.IH [OF _ _ _ this, of "hex_token flags t @ done"] s snoc.prems
  show ?case by (simp add: add.assoc)
qed simp

subsection \<open>The written string is a sequence of tokens\<close>

definition tokens_of :: "(bytes \<Rightarrow> bool) \<Rightarrow> bytes \<Rightarrow> bool" where
  "tokens_of P b \<longleftrightarrow> (\<exists>ts. list_all P ts \<and> b = concat ts)"

abbreviation tokenized :: "bytes \<Rightarrow> bool" where
  "tokenized \<equiv> tokens_of json_token"

text \<open>Tokens no rewriting touches: bytes of a multi-byte character and \<open>\u\<close> escapes.\<close>

definition opaque_token :: "bytes \<Rightarrow> bool" where
  "opaque_token t \<longleftrightarrow> (\<exists>c. t = [c] \<and> 0x80 \<le> c) \<or>
    (\<exists>a b c d. t = [0x5C, 0x75, a, b, c, d] \<and> list_all (\<lambda>h. hex_val h \<noteq> None) [a, b, c, d])"

lemma tokens_of_Nil [simp]: "tokens_of P []"
  unfolding tokens_of_def by (rule exI [of _ "[]"]) simp

lemma tokens_of_append: "tokens_of P a \<Longrightarrow> tokens_of P b \<Longrightarrow> tokens_of P (a @ b)"
proof -
  assume "tokens_of P a" "tokens_of P b"
  then obtain s t where "list_all P s" "a = concat s" "list_all P t" "b = concat t"
    unfolding tokens_of_def by blast
  then have "list_all P (s @ t) \<and> a @ b = concat (s @ t)" by simp
  then show ?thesis unfolding tokens_of_def by blast
qed

lemma tokens_of_token: "P t \<Longrightarrow> tokens_of P t"
  unfolding tokens_of_def by (rule exI [of _ "[t]"]) simp

lemma tokens_of_mono: "tokens_of P b \<Longrightarrow> (\<And>t. P t \<Longrightarrow> Q t) \<Longrightarrow> tokens_of Q b"
  unfolding tokens_of_def by (auto simp: list_all_iff)

lemma opaque_is_token: "opaque_token t \<Longrightarrow> json_token t"
proof -
  have "plain_byte c" if "0x80 \<le> c" for c using that by (auto simp: plain_byte_def byte_arith)
  then show "opaque_token t \<Longrightarrow> json_token t" by (auto simp: opaque_token_def json_token_def)
qed

lemma tokens_of_high: "list_all (\<lambda>c. 0x80 \<le> c) p \<Longrightarrow> tokens_of opaque_token p"
proof (induction p)
  case (Cons c p)
  then have "tokens_of opaque_token [c]" by (intro tokens_of_token) (simp add: opaque_token_def)
  from tokens_of_append [OF this Cons.IH] Cons.prems show ?case by simp
qed simp

lemma tokens_of_u16:
  fixes u :: "32 word"
  assumes "unat u < 65536"
  shows "tokens_of opaque_token (u16_escape (get_hex_table_with_flag flg) u)"
proof -
  have b: "unat u div 256 < 256" "unat u mod 256 < 256" using assms by (simp_all add: div_less_iff_less_mult)
  then have d: "unat u div 256 div 16 < 16" "unat u mod 256 div 16 < 16" by (simp_all add: div_less_iff_less_mult)
  have "hex_val (hex_digit l n) \<noteq> None" if "n < 16" for l n using hex_val_digit [OF that] by simp
  with d show ?thesis
    by (intro tokens_of_token) (simp add: opaque_token_def u16_escape_def hex_table_def get_hex_table_flag unat_low_high)
qed

definition single_escaped :: "byte \<Rightarrow> bool" where
  "single_escaped a \<longleftrightarrow> a = 0x08 \<or> a = 0x09 \<or> a = 0x0A \<or> a = 0x0C \<or> a = 0x0D \<or> a = 0x22 \<or> a = 0x5C \<or> a = 0x2F"

lemma ascii_out_shape:
  assumes "a < 0x80"
  shows "(plain_byte a \<and> ascii_out flg a = [a]) \<or> (single_escaped a \<and> ascii_out flg a = esc_single_char_table a) \<or>
    tokens_of opaque_token (ascii_out flg a)"
proof -
  let ?t = "get_enc_table_with_flag flg a"
  consider "?t = CHAR_ENC_CPY_1" | "?t = CHAR_ENC_ESC_A" | "?t = CHAR_ENC_ESC_1"
    unfolding get_enc_table_flag using enc_table_ascii [OF assms] by metis
  then show ?thesis
  proof cases
    case 1
    then have "plain_byte a"
      by (simp add: get_enc_table_flag enc_table_def plain_byte_def split: if_split_asm)
    with 1 show ?thesis by (simp add: ascii_out_def)
  next
    case 2
    then have "single_escaped a"
      by (auto simp: get_enc_table_flag enc_table_def single_escaped_def split: if_split_asm)
    with 2 show ?thesis by (simp add: ascii_out_def)
  next
    case 3
    have "unat (ucast a :: 32 word) = unat a" by (simp add: unsigned_ucast_eq take_bit_eq_mod)
    then have "unat (ucast a :: 32 word) < 65536" using unat_byte_less [of a] by linarith
    from tokens_of_u16 [OF this, of flg] 3 show ?thesis
      by (simp only: ascii_out_def Let_def get_hex_table_flag ascii_escape_1) simp
  qed
qed

lemma char_out_high:
  assumes "utf8_next r \<noteq> 0" and "utf8_next r \<noteq> 1"
  shows "tokens_of opaque_token (char_out flg r)"
proof -
  let ?n = "utf8_next r"
  let ?u = "if ?n = 2 then cp2 (r ! 0) (r ! 1) else if ?n = 3 then cp3 (r ! 0) (r ! 1) (r ! 2)
    else cp4 (r ! 0) (r ! 1) (r ! 2) (r ! 3)"
  have n: "2 \<le> ?n" "?n \<le> 4" using assms utf8_next_le4 [of r] by simp_all
  note sc = scalar_of_next [OF refl n(1)]
  consider (plain) "\<not> has_flg flg YYJSON_WRITE_ESCAPE_UNICODE" | (esc) "has_flg flg YYJSON_WRITE_ESCAPE_UNICODE" "?n \<noteq> 4"
    | (pair) "has_flg flg YYJSON_WRITE_ESCAPE_UNICODE" "?n = 4" by blast
  then show ?thesis
  proof cases
    case plain
    have "list_all (\<lambda>c. 0x80 \<le> c) (take ?n r)"
      using utf8_next_high [OF assms(2,1)] by (auto simp: list_all_length)
    with plain assms(2) show ?thesis by (simp add: char_out_def Let_def tokens_of_high)
  next
    case esc
    then have "char_out flg r = u16_escape (get_hex_table_with_flag flg) ?u"
      using assms(2) n by (auto simp: char_out_def Let_def)
    moreover have "unat ?u < 65536" using sc(3) esc(2) by linarith
    ultimately show ?thesis by (metis tokens_of_u16)
  next
    case pair
    let ?v = "?u - 0x10000"
    have c: "char_out flg r = u16_escape (get_hex_table_with_flag flg) (drop_bit 10 ?v + 0xD800)
        @ u16_escape (get_hex_table_with_flag flg) ((?v AND 0x3FF) + 0xDC00)"
      using pair by (simp add: char_out_def Let_def)
    have u: "0x10000 \<le> unat ?u" "unat ?u \<le> 0x10FFFF"
      using sc(1,3) pair by (simp_all only: scalar_value_def) linarith+
    note p = pair_arith [OF u]
    have m: "(unat ?u - 65536) mod 1024 < 1024" by simp
    show ?thesis
      unfolding c by (intro tokens_of_append tokens_of_u16; unfold p(1) p(2); use p(3) m in linarith)
  qed
qed

lemma char_out_shape:
  assumes "utf8_next r \<noteq> 0"
  obtains (plain) a where "take (utf8_next r) r = [a]" "plain_byte a" "char_out flg r = [a]"
  | (single) a where "take (utf8_next r) r = [a]" "single_escaped a" "char_out flg r = esc_single_char_table a"
  | (opaque) "tokens_of opaque_token (char_out flg r)"
proof (cases "utf8_next r = 1")
  case True
  then obtain a t where r: "r = a # t" "a < 0x80" using utf8_next_1 by blast
  with True have "char_out flg r = ascii_out flg a" "take (utf8_next r) r = [a]" by (simp_all add: char_out_def)
  with ascii_out_shape [OF r(2), of flg] show thesis using that by metis
next
  case False
  then show thesis using that(3) char_out_high [OF assms False] by blast
qed

lemma single_token: "single_escaped a \<Longrightarrow> json_token (esc_single_char_table a)"
  unfolding single_escaped_def by (elim disjE; simp add: esc_single_char_table_def json_token_def)

lemma tokenized_char: "utf8_next r \<noteq> 0 \<Longrightarrow> tokenized (char_out flg r)"
  by (erule char_out_shape [of r flg])
    (simp add: tokens_of_token json_token_def, simp add: tokens_of_token single_token,
      erule tokens_of_mono [OF _ opaque_is_token])

lemma tokenized_body: "tokenized (esc_body flg r)"
proof (induction flg r rule: esc_body.induct)
  case (1 flg r)
  then show ?case
    by (cases "utf8_next r = 0") (simp_all add: esc_body.simps [of _ r] tokens_of_append tokenized_char)
qed

subsection \<open>The forward rewriting\<close>

fun hex_forward :: "zend_long \<Rightarrow> bytes \<Rightarrow> bytes" where
  "hex_forward flags [] = []"
| "hex_forward flags [c] = hex_token flags [c]"
| "hex_forward flags (c # e # t) =
    (if c = 0x5C then hex_token flags [c, e] @ hex_forward flags t
     else hex_token flags [c] @ hex_forward flags (e # t))"

lemma hex_forward_plain: "c \<noteq> 0x5C \<Longrightarrow> hex_forward flags (c # t) = hex_token flags [c] @ hex_forward flags t"
  by (cases t) simp_all

lemma hex_forward_inert:
  "list_all (\<lambda>c. \<not> hex_special flags c \<and> c \<noteq> 0x5C) p \<Longrightarrow> hex_forward flags (p @ t) = p @ hex_forward flags t"
  by (induction p) (auto simp: hex_forward_plain hex_token_def)

lemma hex_forward_token: "json_token t \<Longrightarrow> hex_forward flags (t @ r) = hex_token flags t @ hex_forward flags r"
  unfolding json_token_def
proof (elim disjE exE conjE)
  fix c assume "t = [c]" "plain_byte c"
  then show ?thesis by (simp add: hex_forward_plain plain_byte_def)
next
  fix a b c d assume t: "t = [0x5C, 0x75, a, b, c, d]" and h: "list_all (\<lambda>h. hex_val h \<noteq> None) [a, b, c, d]"
  then have "list_all (\<lambda>c. \<not> hex_special flags c \<and> c \<noteq> 0x5C) [a, b, c, d]" using hex_val_plain by auto
  from hex_forward_inert [OF this, of r] t show ?thesis by (simp add: hex_token_def)
qed simp

lemma hex_forward_tokens:
  "list_all json_token ts \<Longrightarrow> hex_forward flags (concat ts @ r) = concat (map (hex_token flags) ts) @ hex_forward flags r"
  by (induction ts) (simp_all add: hex_forward_token)

lemma hex_forward_append: "tokenized a \<Longrightarrow> hex_forward flags (a @ b) = hex_forward flags a @ hex_forward flags b"
  using hex_forward_tokens [of _ flags "[]"] hex_forward_tokens [of _ flags b] by (auto simp: tokens_of_def)

lemma length_hex_forward_tokens:
  "list_all json_token ts \<Longrightarrow>
   length (concat (map (hex_token flags) ts)) = length (concat ts) + sum_list (map (token_growth flags) ts)"
  by (induction ts) (simp_all add: length_hex_token)

lemma no_growth: "list_all json_token ts \<Longrightarrow> sum_list (map (token_growth flags) ts) = 0 \<Longrightarrow>
    concat (map (hex_token flags) ts) = concat ts"
proof (induction ts)
  case (Cons t ts)
  have "hex_token flags t = t"
    using Cons.prems by (auto simp: json_token_def token_growth_cases hex_token_def split: if_splits)
  with Cons show ?case by simp
qed simp

text \<open>The routine on a quoted sequence of tokens at the end of the buffer.\<close>

lemma apply_tokens:
  assumes ts: "list_all json_token ts" and z: "5 \<le> zmax"
  shows "fastjson_apply_hex_escapes zmax (buf @ 0x22 # concat ts @ [0x22]) flags (length buf) =
    (let growth = sum_list (map (token_growth flags) ts) in
     if 0 < growth \<and> zmax < length buf + length (concat ts) + 2 + growth then None
     else Some (buf @ 0x22 # concat (map (hex_token flags) ts) @ [0x22]))"
proof -
  define G where "G = sum_list (map (token_growth flags) ts)"
  have q: "\<not> hex_special flags 0x22" by (simp add: hex_special_def)
  have "hex_growth zmax flags (0x22 # concat ts @ [0x22]) 0 = hex_growth zmax flags (concat ts @ [0x22]) 0"
    by (simp add: hex_growth.simps [of _ _ "0x22 # _"] q)
  also have "\<dots> = (if zmax < G then None else Some G)"
    using hex_growth_tokens [OF ts _ z, of "[0x22]" 0 flags]
    by (simp add: G_def hex_growth.simps [of _ _ "[0x22]"] hex_growth.simps [of _ _ "[]"] q)
  finally have g: "hex_growth zmax flags (0x22 # concat ts @ [0x22]) 0 = (if zmax < G then None else Some G)" .
  let ?n = "length (concat ts) + 2"
  have rewritten: "hex_back flags (length buf) ?n (length buf + ?n) (length buf + ?n + G)
      (buf @ 0x22 # concat ts @ [0x22] @ replicate G 0) = buf @ 0x22 # concat (map (hex_token flags) ts) @ [0x22]"
  proof -
    define a where "a = buf @ [0x22]"
    define gap where "gap = butlast ((0x22 :: byte) # replicate G 0)"
    have lg: "length gap = G" by (simp add: gap_def)
    have "hex_replacement flags (length buf) ?n ((a @ concat ts) @ 0x22 # replicate G 0 @ []) (length (a @ concat ts)) = None"
      by (simp add: hex_replacement_def a_def nth_append)
    from hex_back_copy [OF this] have
      "hex_back flags (length buf) ?n (length (a @ concat ts) + 1) (length (a @ concat ts) + 1 + G)
        ((a @ concat ts) @ 0x22 # replicate G 0 @ []) =
       hex_back flags (length buf) ?n (length (a @ concat ts)) (length (a @ concat ts) + G) ((a @ concat ts) @ gap @ [0x22])"
      by (simp add: a_def gap_def)
    also have "\<dots> = hex_back flags (length buf) ?n (length a + length (concat ts)) (length a + length (concat ts) + length gap)
        (a @ concat ts @ gap @ [0x22])"
      by (simp add: lg)
    also have "\<dots> = hex_back flags (length buf) ?n (length a) (length a) (a @ concat (map (hex_token flags) ts) @ [0x22])"
      by (rule hex_back_tokens [OF ts]) (simp_all add: a_def lg G_def)
    also have "\<dots> = hex_back flags (length buf) ?n (length buf) (length buf) (a @ concat (map (hex_token flags) ts) @ [0x22])"
    proof -
      have "hex_replacement flags (length buf) ?n (buf @ 0x22 # [] @ (concat (map (hex_token flags) ts) @ [0x22])) (length buf) = None"
        by (simp add: hex_replacement_def)
      from hex_back_copy [OF this] show ?thesis by (simp add: a_def)
    qed
    also have "\<dots> = a @ concat (map (hex_token flags) ts) @ [0x22]"
      by (subst hex_back.simps) simp
    finally show ?thesis by (simp add: a_def)
  qed
  show ?thesis
  proof (cases "G = 0")
    case True
    then have "concat (map (hex_token flags) ts) = concat ts"
      unfolding G_def by (rule no_growth [OF ts])
    with True show ?thesis
      using g by (simp add: fastjson_apply_hex_escapes_def G_def [symmetric] Let_def)
  next
    case False
    then show ?thesis
      using g rewritten by (auto simp: fastjson_apply_hex_escapes_def G_def [symmetric] Let_def)
  qed
qed

lemma apply_body:
  assumes z: "5 \<le> zmax"
  shows "fastjson_apply_hex_escapes zmax (buf @ 0x22 # esc_body flg s @ [0x22]) flags (length buf) =
    (if length (esc_body flg s) < length (hex_forward flags (esc_body flg s)) \<and>
        zmax < length buf + length (hex_forward flags (esc_body flg s)) + 2 then None
     else Some (buf @ 0x22 # hex_forward flags (esc_body flg s) @ [0x22]))"
proof -
  obtain ts where ts: "list_all json_token ts" "esc_body flg s = concat ts"
    using tokenized_body [of flg s] by (auto simp: tokens_of_def)
  have "hex_forward flags (concat ts) = concat (map (hex_token flags) ts)"
    using hex_forward_tokens [OF ts(1), of flags "[]"] by simp
  then have f: "hex_forward flags (esc_body flg s) = concat (map (hex_token flags) ts)" by (simp add: ts(2))
  define G where "G = sum_list (map (token_growth flags) ts)"
  have "length (concat (map (hex_token flags) ts)) = length (esc_body flg s) + G"
    using length_hex_forward_tokens [OF ts(1), of flags] by (simp only: ts(2) G_def)
  then show ?thesis
    using apply_tokens [OF ts(1) z, of buf flags] unfolding G_def [symmetric] Let_def ts(2) [symmetric] f
    by (simp add: ac_simps)
qed

subsection \<open>The rewritten string still means the same\<close>

lemma json_body_u00:
  "json_body (hex_u00 0x32 0x32 @ r) = map_option ((#) 0x22) (json_body r)"
  "json_body (hex_u00 0x33 0x43 @ r) = map_option ((#) 0x3C) (json_body r)"
  "json_body (hex_u00 0x33 0x45 @ r) = map_option ((#) 0x3E) (json_body r)"
  "json_body (hex_u00 0x32 0x36 @ r) = map_option ((#) 0x26) (json_body r)"
  "json_body (hex_u00 0x32 0x37 @ r) = map_option ((#) 0x27) (json_body r)"
  by (simp_all add: hex_u00_def json_body.simps [of "0x5C # _"] json_escape_def hex_val_def utf8_encode_def
      byte_of_def map_option_append_single)

lemma opaque_inert: "opaque_token t \<Longrightarrow> hex_token flags t = t \<and> list_all (\<lambda>c. \<not> hex_special flags c \<and> c \<noteq> 0x22) t"
proof -
  have hi: "\<not> hex_special flags c \<and> c \<noteq> 0x22" if "0x80 \<le> c" for c
    using that by (auto simp: hex_special_def byte_arith)
  have "\<not> hex_special flags 0x5C \<and> \<not> hex_special flags 0x75" by (simp add: hex_special_def)
  with hi hex_val_plain show "opaque_token t \<Longrightarrow> ?thesis"
    by (auto simp: opaque_token_def hex_token_def)
qed

lemma opaque_forward:
  assumes "tokens_of opaque_token b"
  shows "hex_forward flags b = b \<and> list_all (\<lambda>c. \<not> hex_special flags c \<and> c \<noteq> 0x22) b"
proof -
  obtain ts where ts: "list_all opaque_token ts" "b = concat ts" using assms by (auto simp: tokens_of_def)
  have "list_all json_token ts" using ts(1) opaque_is_token by (auto simp: list_all_iff)
  from hex_forward_tokens [OF this, of flags "[]"]
  have "hex_forward flags b = concat (map (hex_token flags) ts)" by (simp add: ts(2))
  moreover have "concat (map (hex_token flags) ts) = b \<and> list_all (\<lambda>c. \<not> hex_special flags c \<and> c \<noteq> 0x22) b"
    using ts(1) unfolding ts(2) by (induction ts) (use opaque_inert in auto)
  ultimately show ?thesis by simp
qed

lemma hex_char_body:
  assumes "utf8_next r \<noteq> 0"
  shows "json_body (hex_forward flags (char_out flg r) @ rest) = map_option ((@) (take (utf8_next r) r)) (json_body rest)"
  using assms
proof (cases rule: char_out_shape [of r flg])
  case (plain a)
  show ?thesis
  proof (cases "hex_special flags a")
    case True
    then have "a = 0x3C \<or> a = 0x3E \<or> a = 0x26 \<or> a = 0x27" by (auto simp: hex_special_def)
    then show ?thesis
      using True unfolding plain(1,3)
      by (elim disjE; simp add: hex_token_def json_body_u00 map_option_append_single)
  next
    case False
    have "json_body ([a] @ rest) = map_option ((@) [a]) (json_body rest)"
      by (rule json_body_plain) (simp add: plain(2))
    with False show ?thesis unfolding plain(1,3) by (simp add: hex_token_def)
  qed
next
  case (single a)
  have "json_body (esc_single_char_table a @ rest) = map_option ((@) [a]) (json_body rest)"
    using json_body_char [OF assms, of flg rest] unfolding single(1,3) .
  moreover have "hex_forward flags (esc_single_char_table a) = hex_token flags (esc_single_char_table a)"
    using hex_forward_token [OF single_token [OF single(2)], of flags "[]"] by simp
  moreover have "hex_token flags (esc_single_char_table a) =
      (if a = 0x22 \<and> has_flag flags FASTJSON_ENCODE_HEX_QUOT then hex_u00 0x32 0x32 else esc_single_char_table a)"
    using single(2) by (auto simp: single_escaped_def hex_token_def esc_single_char_table_def)
  ultimately show ?thesis
    unfolding single(1,3) by (simp add: json_body_u00 map_option_append_single)
next
  case opaque
  then show ?thesis
    using opaque_forward [OF opaque, of flags] json_body_char [OF assms, of flg rest] by simp
qed

text \<open>No selected character is left in the body.\<close>

definition hex_clean :: "zend_long \<Rightarrow> byte \<Rightarrow> bool" where
  "hex_clean flags c \<longleftrightarrow> \<not> hex_special flags c \<and> \<not> (has_flag flags FASTJSON_ENCODE_HEX_QUOT \<and> c = 0x22)"

lemma hex_clean_u00:
  "list_all (hex_clean flags) (hex_u00 0x32 0x32)" "list_all (hex_clean flags) (hex_u00 0x33 0x43)"
  "list_all (hex_clean flags) (hex_u00 0x33 0x45)" "list_all (hex_clean flags) (hex_u00 0x32 0x36)"
  "list_all (hex_clean flags) (hex_u00 0x32 0x37)"
  by (simp_all add: hex_clean_def hex_u00_def hex_special_def)

lemma hex_token_clean:
  assumes "json_token t"
  shows "list_all (hex_clean flags) (hex_token flags t)"
  using assms unfolding json_token_def
proof (elim disjE exE conjE)
  fix c assume t: "t = [c]" "plain_byte c"
  show ?thesis
  proof (cases "hex_special flags c")
    case True
    then have "c = 0x3C \<or> c = 0x3E \<or> c = 0x26 \<or> c = 0x27" by (auto simp: hex_special_def)
    with True t show ?thesis by (elim disjE; simp add: hex_token_def hex_clean_u00)
  next
    case False
    with t show ?thesis by (simp add: hex_token_def hex_clean_def plain_byte_def)
  qed
next
  fix e assume t: "t = [0x5C, e]" and e: "e \<in> {0x22, 0x5C, 0x2F, 0x62, 0x66, 0x6E, 0x72, 0x74}"
  then show ?thesis
    by (auto simp: hex_token_def hex_clean_u00 hex_clean_def hex_special_def)
next
  fix a b c d assume "t = [0x5C, 0x75, a, b, c, d]" "list_all (\<lambda>h. hex_val h \<noteq> None) [a, b, c, d]"
  then have "opaque_token t" by (auto simp: opaque_token_def)
  from opaque_inert [OF this, of flags] show ?thesis by (auto simp: list_all_iff hex_clean_def)
qed

lemma hex_forward_clean: "list_all (hex_clean flags) (hex_forward flags (esc_body flg s))"
proof -
  obtain ts where ts: "list_all json_token ts" "esc_body flg s = concat ts"
    using tokenized_body [of flg s] by (auto simp: tokens_of_def)
  have "hex_forward flags (concat ts) = concat (map (hex_token flags) ts)"
    using hex_forward_tokens [OF ts(1), of flags "[]"] by simp
  moreover have "list_all (hex_clean flags) (concat (map (hex_token flags) ts))"
    using ts(1) by (induction ts) (simp_all add: hex_token_clean)
  ultimately show ?thesis by (simp add: ts(2))
qed

lemma hex_forward_body:
  "utf8_wf r \<Longrightarrow> json_body (hex_forward flags (esc_body flg r) @ rest) = map_option ((@) r) (json_body rest)"
proof (induction r rule: utf8_wf.induct)
  case (1 r)
  show ?case
  proof (cases "r = []")
    case False
    have n: "utf8_next r \<noteq> 0" and w: "utf8_wf (drop (utf8_next r) r)"
      using utf8_wf_cases [OF "1.prems" False] by blast+
    have "json_body (hex_forward flags (esc_body flg r) @ rest) = map_option ((@) (take (utf8_next r) r))
        (json_body (hex_forward flags (esc_body flg (drop (utf8_next r) r)) @ rest))"
      using n by (simp add: esc_body.simps [of _ r] hex_forward_append [OF tokenized_char] hex_char_body)
    then show ?thesis using "1.IH" [OF False n w] by simp
  qed (simp add: option.map_ident)
qed

subsection \<open>Properties\<close>

text \<open>C21: the in-place backward rewriting of the string just written is the forward, token by token
  rewriting; the routine gives up exactly when the result would not fit.\<close>

theorem hex_escapes_in_place:
  assumes "5 \<le> zmax" and "yyjson_write_string_to_buf s (fastjson_translate_write_flags pf pretty) = Some w"
  shows "fastjson_apply_hex_escapes zmax (buf @ w) flags (length buf) =
    (let body = hex_forward flags (butlast (tl w)) in
     if length w < length body + 2 \<and> zmax < length buf + length body + 2 then None
     else Some (buf @ [0x22] @ body @ [0x22]))"
  using assms apply_body [OF assms(1), of buf _ s flags]
  by (auto simp: yy_write_body split: if_split_asm)

lemma hex_escapes_in_place_witness:
  "fastjson_apply_hex_escapes 100 ([0x5B] @ [0x22, 0x3C, 0x22]) FASTJSON_ENCODE_HEX_TAG (length [0x5B :: byte]) =
    Some ([0x5B] @ [0x22] @ hex_forward FASTJSON_ENCODE_HEX_TAG (butlast (tl [0x22, 0x3C, 0x22])) @ [0x22])"
proof -
  have w: "yyjson_write_string_to_buf [0x3C] (fastjson_translate_write_flags 0 False) = Some [0x22, 0x3C, 0x22]"
    by (simp add: yy_write_body esc_body.simps [of _ "[0x3C]"] char_out_def ascii_out_def Let_def
        get_enc_table_flag enc_table_def)
  show ?thesis
    using hex_escapes_in_place [OF _ w, of 100 "[0x5B]" FASTJSON_ENCODE_HEX_TAG]
    by (simp add: hex_token_def hex_special_def has_flag_def hex_u00_def
        FASTJSON_ENCODE_HEX_TAG_def FASTJSON_ENCODE_HEX_QUOT_def)
qed

text \<open>C12: the JSON_HEX_* rewriting does not change what the string means: the result still reads back
  as the input, and none of the selected characters (angle brackets, ampersand, apostrophe, quote)
  is left between the quotes.\<close>

theorem hex_escapes_meaning:
  assumes "5 \<le> zmax" and "yyjson_write_string_to_buf s (fastjson_translate_write_flags pf pretty) = Some w"
    and "fastjson_apply_hex_escapes zmax (buf @ w) flags (length buf) = Some out"
  shows "json_unquote (drop (length buf) out) = Some s \<and> take (length buf) out = buf \<and>
    list_all (hex_clean flags) (butlast (tl (drop (length buf) out)))"
proof -
  let ?f = "fastjson_translate_write_flags pf pretty"
  have "utf8_wf s \<and> w = 0x22 # esc_body ?f s @ [0x22]"
    using assms(2) by (simp add: yy_write_body split: if_split_asm)
  then have s: "utf8_wf s" and w: "w = 0x22 # esc_body ?f s @ [0x22]" by blast+
  have "out = buf @ 0x22 # hex_forward flags (esc_body ?f s) @ [0x22]"
    using assms(3) apply_body [OF assms(1), of buf ?f s flags] by (simp add: w split: if_split_asm)
  then show ?thesis
    by (simp add: json_unquote_def hex_forward_body [OF s] hex_forward_clean)
qed

lemma hex_escapes_meaning_witness:
  "json_unquote (drop (length ([] :: bytes)) [0x22, 0x5C, 0x75, 0x30, 0x30, 0x33, 0x43, 0x22]) = Some [0x3C] \<and>
   take (length ([] :: bytes)) [0x22, 0x5C, 0x75, 0x30, 0x30, 0x33, 0x43, 0x22] = ([] :: bytes) \<and>
   list_all (hex_clean FASTJSON_ENCODE_HEX_TAG)
     (butlast (tl (drop (length ([] :: bytes)) [0x22, 0x5C, 0x75, 0x30, 0x30, 0x33, 0x43, 0x22])))"
proof -
  have z: "5 \<le> (100 :: nat)" by simp
  have w: "yyjson_write_string_to_buf [0x3C] (fastjson_translate_write_flags 0 False) = Some [0x22, 0x3C, 0x22]"
    by (simp add: yy_write_body esc_body.simps [of _ "[0x3C]"] char_out_def ascii_out_def Let_def
        get_enc_table_flag enc_table_def)
  have a: "fastjson_apply_hex_escapes 100 ([] @ [0x22, 0x3C, 0x22]) FASTJSON_ENCODE_HEX_TAG (length ([] :: bytes)) =
      Some [0x22, 0x5C, 0x75, 0x30, 0x30, 0x33, 0x43, 0x22]"
    by code_simp
  show ?thesis by (rule hex_escapes_meaning [OF z w a])
qed

end
