(* ===== verification/YyVal.thy ===== *)
theory YyVal
  imports HexEscape
begin

text \<open>
  The parsed document and the platform the code runs on. \<open>yyval\<close> is a yyjson value tree: an
  object is the sequence of its key and value pairs in document order, duplicates included, and a
  string carries the tag bit the reader sets for a key or value that is not well-formed UTF-8.
  A real is its IEEE 754 bit pattern.

  What comes from PHP or the vendored library and is not modelled is a field of \<open>env\<close>:
  limits of the platform, the capacity the allocator has given a buffer, whether a C frame at some
  nesting level still fits the native stack, and the two number conversions.
\<close>

datatype yyval =
    YNull
  | YBool bool
  | YUint "64 word"
  | YSint "64 word"
  | YReal "64 word"
  | YRaw bytes
  | YStr bytes bool
  | YArr "yyval list"
  | YObj "((bytes \<times> bool) \<times> yyval) list"

definition yyjson_is_ctn :: "yyval \<Rightarrow> bool" where
  "yyjson_is_ctn v = (case v of YArr _ \<Rightarrow> True | YObj _ \<Rightarrow> True | _ \<Rightarrow> False)"

definition f64_isfinite :: "64 word \<Rightarrow> bool" where
  "f64_isfinite w \<longleftrightarrow> w AND 0x7FF0000000000000 \<noteq> 0x7FF0000000000000"

record env =
  zstr_max :: nat
  size_max :: nat
  buf_cap :: "bytes \<Rightarrow> nat"
  stack_ok :: "nat \<Rightarrow> bool"
  write_number :: "yyval \<Rightarrow> bytes option"
  strtod_finite :: "bytes \<Rightarrow> bool"

subsection \<open>Results\<close>

text \<open>A C function that returns \<open>false\<close> on failure: \<open>Inl\<close> the state at the failure, \<open>Inr\<close> otherwise.\<close>

fun bind_res :: "'e + 'a \<Rightarrow> ('a \<Rightarrow> 'e + 'b) \<Rightarrow> 'e + 'b" where
  "bind_res (Inl e) f = Inl e"
| "bind_res (Inr x) f = f x"

lemma bind_res_cong [fundef_cong]:
  "r = r' \<Longrightarrow> (\<And>x. r' = Inr x \<Longrightarrow> f x = g x) \<Longrightarrow> bind_res r f = bind_res r' g"
  by (cases r') simp_all

lemma bind_res_Inr: "bind_res r f = Inr y \<longleftrightarrow> (\<exists>x. r = Inr x \<and> f x = Inr y)"
  by (cases r) simp_all

lemma bind_res_Inl: "bind_res r f = Inl e \<longleftrightarrow> r = Inl e \<or> (\<exists>x. r = Inr x \<and> f x = Inl e)"
  by (cases r) simp_all

end
