(* ===== verification/Pointer.thy ===== *)
theory Pointer
  imports YyVal "HOL-Library.Sublist"
begin

text \<open>
  JSON Pointer (fastjson_pointer_splice.c, lines 268 to 315 and 649 to 883): counting and
  unescaping the segments of a pointer, the depth gate, array indices, and the walk from the root
  of a document to the value a pointer names.

  A plan is its list of segments; the code keeps the unescaped bytes in one \<open>storage\<close> block, which
  shows here as the count of bytes used so far against its capacity.
\<close>

datatype fj_splice_status =
    FJ_SPLICE_OK
  | FJ_SPLICE_SETTABLE_FAIL
  | FJ_SPLICE_WRITE_FAIL
  | FJ_SPLICE_DEPTH_FAIL
  | FJ_SPLICE_TOO_LARGE
  | FJ_SPLICE_INF_OR_NAN
  | FJ_SPLICE_INVALID_UTF8
  | FJ_SPLICE_AMBIGUOUS

type_synonym fj_ptr_seg = bytes

definition FASTJSON_POINTER_MAX_SEGMENTS :: nat where
  "FASTJSON_POINTER_MAX_SEGMENTS = 4096"

subsection \<open>Segments\<close>

text \<open>The counting loop from \<open>i = 1\<close> to \<open>i = len\<close>, on the bytes from \<open>i\<close> on.\<close>

fun count_loop :: "bytes \<Rightarrow> nat" where
  "count_loop [] = 1"
| "count_loop (c # r) = (if c = 0x2F then 1 + count_loop r else count_loop r)"

definition fastjson_pointer_count_segments :: "bytes \<Rightarrow> nat" where
  "fastjson_pointer_count_segments ptr =
    (if ptr = [] then 0 else if ptr ! 0 \<noteq> 0x2F then 0 else count_loop (tl ptr))"

text \<open>One segment is unescaped into the storage: its bytes and the storage used afterwards.\<close>

fun unescape_seg :: "nat \<Rightarrow> bytes \<Rightarrow> nat \<Rightarrow> (bytes \<times> nat) option" where
  "unescape_seg cap [] used = Some ([], used)"
| "unescape_seg cap (c # t) used =
    (if c = 0x7E then
       (case t of
          [] \<Rightarrow> None
        | next # t' \<Rightarrow>
            if next \<noteq> 0x30 \<and> next \<noteq> 0x31 then None
            else if cap < used + 1 then None
            else map_option (\<lambda>(out, u). ((if next = 0x30 then 0x7E else 0x2F) # out, u)) (unescape_seg cap t' (used + 1)))
     else if cap < used + 1 then None
     else map_option (\<lambda>(out, u). (c # out, u)) (unescape_seg cap t (used + 1)))"

text \<open>The loop over the pointer: \<open>rest\<close> from \<open>i\<close> on, \<open>raw\<close> from \<open>seg_start\<close> up to \<open>i\<close>.\<close>

fun fill_loop :: "nat \<Rightarrow> bytes \<Rightarrow> bytes \<Rightarrow> nat \<Rightarrow> fj_ptr_seg list option" where
  "fill_loop cap [] raw used =
    (case unescape_seg cap raw used of None \<Rightarrow> None | Some (seg, _) \<Rightarrow> Some [seg])"
| "fill_loop cap (c # rest) raw used =
    (if c = 0x2F then
       (case unescape_seg cap raw used of
          None \<Rightarrow> None
        | Some (seg, used') \<Rightarrow> map_option ((#) seg) (fill_loop cap rest [] used'))
     else fill_loop cap rest (raw @ [c]) used)"

definition fj_pointer_fill_segments :: "bytes \<Rightarrow> nat \<Rightarrow> nat \<Rightarrow> fj_ptr_seg list option" where
  "fj_pointer_fill_segments ptr nsegs storage_cap =
    (if ptr = [] \<or> nsegs = 0 then Some []
     else if ptr ! 0 \<noteq> 0x2F then None
     else case fill_loop storage_cap (tl ptr) [] 0 of
         None \<Rightarrow> None
       | Some segs \<Rightarrow> if length segs = nsegs then Some segs else None)"

definition fj_pointer_nsegs_ok :: "nat \<Rightarrow> nat \<Rightarrow> bool" where
  "fj_pointer_nsegs_ok nsegs depth_limit \<longleftrightarrow>
    \<not> FASTJSON_POINTER_MAX_SEGMENTS < nsegs \<and> \<not> (0 < depth_limit \<and> depth_limit \<le> nsegs)"

text \<open>The scan that keeps a syntax error ahead of a depth error.\<close>

fun tilde_bad :: "bytes \<Rightarrow> bool" where
  "tilde_bad [] = False"
| "tilde_bad (c # t) =
    (if c = 0x7E then
       (case t of [] \<Rightarrow> True | n # t' \<Rightarrow> if n \<noteq> 0x30 \<and> n \<noteq> 0x31 then True else tilde_bad t')
     else tilde_bad t)"

definition fj_pointer_parse :: "bytes \<Rightarrow> nat \<Rightarrow> fj_splice_status \<Rightarrow> fj_splice_status + fj_ptr_seg list" where
  "fj_pointer_parse pointer depth_limit status =
    (if pointer = [] then Inr []
     else if pointer ! 0 \<noteq> 0x2F then Inl status
     else let nsegs = fastjson_pointer_count_segments pointer in
       if \<not> fj_pointer_nsegs_ok nsegs depth_limit then
         Inl (if tilde_bad (tl pointer) then FJ_SPLICE_SETTABLE_FAIL else FJ_SPLICE_DEPTH_FAIL)
       else case fj_pointer_fill_segments pointer nsegs (length pointer) of
           None \<Rightarrow> Inl status
         | Some segs \<Rightarrow> Inr segs)"

subsection \<open>Array indices and keys\<close>

definition is_digit :: "byte \<Rightarrow> bool" where
  "is_digit c \<longleftrightarrow> 0x30 \<le> c \<and> c \<le> 0x39"

fun index_loop :: "nat \<Rightarrow> bytes \<Rightarrow> nat \<Rightarrow> nat option" where
  "index_loop smax [] idx = Some idx"
| "index_loop smax (c # r) idx =
    (if \<not> is_digit c then None
     else let digit = unat c - 48 in
       if (smax - digit) div 10 < idx then None
       else index_loop smax r (idx * 10 + digit))"

definition fj_seg_is_index :: "nat \<Rightarrow> fj_ptr_seg \<Rightarrow> nat option" where
  "fj_seg_is_index smax seg =
    (if length seg = 0 \<or> 19 < length seg then None
     else if seg ! 0 = 0x30 then (if 1 < length seg then None else Some 0)
     else index_loop smax seg 0)"

definition has_utf8_handling_flag :: "zend_long \<Rightarrow> bool" where
  "has_utf8_handling_flag flags \<longleftrightarrow>
    has_flag flags (FASTJSON_INVALID_UTF8_IGNORE OR FASTJSON_INVALID_UTF8_SUBSTITUTE)"

definition fj_seg_key_eq :: "bytes \<times> bool \<Rightarrow> fj_ptr_seg \<Rightarrow> zend_long \<Rightarrow> bool" where
  "fj_seg_key_eq key seg flags =
    (if has_utf8_handling_flag flags \<and> snd key then fastjson_sanitize_utf8 (fst key) flags FJ_SAN_DECODE = seg
     else fst key = seg)"

subsection \<open>The walk\<close>

text \<open>The scan over an object's members: the single match, no match, or an ambiguity.\<close>

fun obj_scan :: "zend_long \<Rightarrow> fj_ptr_seg \<Rightarrow> ((bytes \<times> bool) \<times> yyval) list \<Rightarrow> yyval option
    \<Rightarrow> fj_splice_status + yyval option" where
  "obj_scan flags seg [] child = Inr child"
| "obj_scan flags seg ((key, v) # ms) child =
    (if \<not> fj_seg_key_eq key seg flags then obj_scan flags seg ms child
     else if child \<noteq> None then Inl FJ_SPLICE_AMBIGUOUS
     else obj_scan flags seg ms (Some v))"

text \<open>\<open>fj_pointer_walk\<close>: the target (\<open>NULL\<close> for a missing suffix that may be created), or a status.\<close>

fun fj_pointer_walk :: "nat \<Rightarrow> zend_long \<Rightarrow> bool \<Rightarrow> yyval \<Rightarrow> fj_ptr_seg list \<Rightarrow> fj_splice_status + yyval option" where
  "fj_pointer_walk smax flags allow current [] = Inr (Some current)"
| "fj_pointer_walk smax flags allow current (seg # segs) =
    (case current of
       YObj ms \<Rightarrow>
         (case obj_scan flags seg ms None of
            Inl st \<Rightarrow> Inl st
          | Inr None \<Rightarrow> if allow then Inr None else Inl FJ_SPLICE_SETTABLE_FAIL
          | Inr (Some child) \<Rightarrow>
              if segs \<noteq> [] \<and> \<not> yyjson_is_ctn child then Inl FJ_SPLICE_SETTABLE_FAIL
              else fj_pointer_walk smax flags allow child segs)
     | YArr items \<Rightarrow>
         (case fj_seg_is_index smax seg of
            None \<Rightarrow> Inl FJ_SPLICE_SETTABLE_FAIL
          | Some index \<Rightarrow>
              if length items \<le> index then Inl FJ_SPLICE_SETTABLE_FAIL
              else let child = items ! index in
                if segs \<noteq> [] \<and> \<not> yyjson_is_ctn child then Inl FJ_SPLICE_SETTABLE_FAIL
                else fj_pointer_walk smax flags allow child segs)
     | _ \<Rightarrow> Inl FJ_SPLICE_SETTABLE_FAIL)"

definition fastjson_pointer_plan_init :: "nat \<Rightarrow> yyval \<Rightarrow> bytes \<Rightarrow> nat \<Rightarrow> fj_splice_status + fj_ptr_seg list" where
  "fastjson_pointer_plan_init smax root pointer depth_limit =
    (case fj_pointer_parse pointer depth_limit FJ_SPLICE_SETTABLE_FAIL of
       Inl status \<Rightarrow> Inl status
     | Inr segs \<Rightarrow>
         (case fj_pointer_walk smax 0 True root segs of Inl status \<Rightarrow> Inl status | Inr _ \<Rightarrow> Inr segs))"

definition fastjson_pointer_resolve_limited ::
    "nat \<Rightarrow> yyval \<Rightarrow> bytes \<Rightarrow> nat \<Rightarrow> zend_long \<Rightarrow> fj_splice_status \<times> yyval option" where
  "fastjson_pointer_resolve_limited smax root pointer depth_limit flags =
    (case fj_pointer_parse pointer depth_limit FJ_SPLICE_SETTABLE_FAIL of
       Inl status \<Rightarrow> (status, None)
     | Inr segs \<Rightarrow>
         (case fj_pointer_walk smax flags False root segs of
            Inl status \<Rightarrow> (status, None)
          | Inr target \<Rightarrow> (FJ_SPLICE_OK, target)))"

subsection \<open>Rendering, the inverse of parsing\<close>

definition escape_byte :: "byte \<Rightarrow> bytes" where
  "escape_byte c = (if c = 0x7E then [0x7E, 0x30] else if c = 0x2F then [0x7E, 0x31] else [c])"

definition escape_seg :: "fj_ptr_seg \<Rightarrow> bytes" where
  "escape_seg seg = concat (map escape_byte seg)"

definition render_pointer :: "fj_ptr_seg list \<Rightarrow> bytes" where
  "render_pointer segs = concat (map (\<lambda>seg. 0x2F # escape_seg seg) segs)"

lemma escape_seg_simps [simp]:
  "escape_seg [] = []" "escape_seg (c # t) = escape_byte c @ escape_seg t"
  by (simp_all add: escape_seg_def)

lemma render_simps [simp]:
  "render_pointer [] = []" "render_pointer (s # r) = 0x2F # escape_seg s @ render_pointer r"
  by (simp_all add: render_pointer_def)

lemma escape_seg_no_slash: "0x2F \<notin> set (escape_seg s)"
  by (induction s) (auto simp: escape_byte_def)

lemma unescape_escape:
  "used + length s \<le> cap \<Longrightarrow> unescape_seg cap (escape_seg s) used = Some (s, used + length s)"
  by (induction s arbitrary: used) (auto simp: escape_byte_def)

lemma unescape_inverse:
  "unescape_seg cap raw used = Some (s, u) \<Longrightarrow> 0x2F \<notin> set raw \<Longrightarrow> raw = escape_seg s \<and> u = used + length s"
proof (induction cap raw used arbitrary: s u rule: unescape_seg.induct)
  case (2 cap c t used)
  show ?case
  proof (cases "c = 0x7E")
    case True
    with "2.prems"(1) obtain n t' where t: "t = n # t'" "n = 0x30 \<or> n = 0x31"
      by (cases t) (auto split: if_split_asm)
    with True "2.prems"(1) obtain s' where s: "unescape_seg cap t' (used + 1) = Some (s', u)"
      "s = (if n = 0x30 then 0x7E else 0x2F) # s'"
      by (auto split: if_split_asm)
    have "\<not> (n \<noteq> 0x30 \<and> n \<noteq> 0x31)" "\<not> cap < used + 1"
      using t(2) True "2.prems"(1) t(1) by (auto split: if_split_asm)
    from "2.IH"(1) [OF True t(1) this s(1)] "2.prems"(2) t(1) have "t' = escape_seg s'" "u = used + 1 + length s'"
      by simp_all
    with t s(2) True show ?thesis by (auto simp: escape_byte_def)
  next
    case False
    with "2.prems"(1) obtain s' where s: "\<not> cap < used + 1" "unescape_seg cap t (used + 1) = Some (s', u)" "s = c # s'"
      by (auto split: if_split_asm)
    from "2.IH"(2) [OF False s(1,2)] "2.prems"(2) False s(3) show ?thesis by (simp add: escape_byte_def)
  qed
qed simp

lemma length_escape: "length s \<le> length (escape_seg s)"
  by (induction s) (auto simp: escape_byte_def)

lemma fill_loop_run: "0x2F \<notin> set p \<Longrightarrow> fill_loop cap (p @ rest) raw used = fill_loop cap rest (raw @ p) used"
  by (induction p arbitrary: raw) auto

lemma fill_loop_render:
  "used + length s + length (concat segs) \<le> cap \<Longrightarrow>
   fill_loop cap (escape_seg s @ render_pointer segs) [] used = Some (s # segs)"
proof (induction segs arbitrary: s used)
  case Nil
  then show ?case
    using fill_loop_run [OF escape_seg_no_slash, of cap s "[]"] by (simp add: unescape_escape)
next
  case (Cons t segs)
  then show ?case
    using Cons.IH [of "used + length s" t] by (simp add: fill_loop_run [OF escape_seg_no_slash] unescape_escape)
qed

lemma fill_loop_inverse:
  "fill_loop cap rest raw used = Some segs \<Longrightarrow> 0x2F \<notin> set raw \<Longrightarrow> raw @ rest = tl (render_pointer segs) \<and> segs \<noteq> []"
proof (induction cap rest raw used arbitrary: segs rule: fill_loop.induct)
  case (1 cap raw used)
  then show ?case by (auto split: option.splits dest: unescape_inverse)
next
  case (2 cap c rest raw used)
  show ?case
  proof (cases "c = 0x2F")
    case True
    with "2.prems" obtain seg used' segs' where s: "unescape_seg cap raw used = Some (seg, used')"
      "fill_loop cap rest [] used' = Some segs'" "segs = seg # segs'"
      by (auto split: option.splits)
    have "rest = tl (render_pointer segs')" "segs' \<noteq> []"
      using "2.IH"(1) [OF True s(1) refl s(2)] by simp_all
    with s(3) unescape_inverse [OF s(1) "2.prems"(2)] True show ?thesis
      by (cases segs') simp_all
  next
    case False
    with 2 show ?thesis by simp
  qed
qed

lemma count_loop_render: "count_loop (escape_seg s @ render_pointer segs) = Suc (length segs)"
proof (induction segs arbitrary: s)
  case Nil
  have "0x2F \<notin> set p \<Longrightarrow> count_loop p = 1" for p by (induction p) auto
  then show ?case using escape_seg_no_slash by simp
next
  case (Cons t segs)
  have "0x2F \<notin> set p \<Longrightarrow> count_loop (p @ q) = count_loop q" for p q by (induction p) auto
  then show ?case using Cons escape_seg_no_slash by simp
qed

lemma count_render: "fastjson_pointer_count_segments (render_pointer segs) = length segs"
  by (cases segs) (simp_all add: fastjson_pointer_count_segments_def count_loop_render)

lemma length_render: "length (concat segs) \<le> length (render_pointer segs)"
  by (induction segs) (auto intro: add_mono le_SucI length_escape)

lemma fill_segments_render:
  "fj_pointer_fill_segments (render_pointer segs) (length segs) (length (render_pointer segs)) = Some segs"
proof (cases segs)
  case (Cons s r)
  have "length s + length (concat r) \<le> length (render_pointer segs)"
    using length_render [of segs] Cons by simp
  then show ?thesis
    using Cons fill_loop_render [of 0 s r "length (render_pointer segs)"]
    by (simp add: fj_pointer_fill_segments_def)
qed (simp add: fj_pointer_fill_segments_def)

lemma parse_iff:
  "fj_pointer_parse p d st = Inr segs \<longleftrightarrow> p = render_pointer segs \<and> fj_pointer_nsegs_ok (length segs) d \<or> p = [] \<and> segs = []"
proof
  assume parse: "fj_pointer_parse p d st = Inr segs"
  show "p = render_pointer segs \<and> fj_pointer_nsegs_ok (length segs) d \<or> p = [] \<and> segs = []"
  proof (cases "p = []")
    case True
    with parse show ?thesis by (simp add: fj_pointer_parse_def)
  next
    case False
    with parse have h: "p ! 0 = 0x2F" "fj_pointer_nsegs_ok (fastjson_pointer_count_segments p) d"
      "fj_pointer_fill_segments p (fastjson_pointer_count_segments p) (length p) = Some segs"
      by (auto simp: fj_pointer_parse_def Let_def split: if_splits option.splits)
    have "count_loop r \<noteq> 0" for r by (induction r) auto
    then have "fastjson_pointer_count_segments p \<noteq> 0"
      using False h(1) by (simp add: fastjson_pointer_count_segments_def)
    with h(3) False obtain k where f: "fill_loop k (tl p) [] 0 = Some segs" "length segs = fastjson_pointer_count_segments p"
      by (auto simp: fj_pointer_fill_segments_def split: if_splits option.splits)
    have "tl p = tl (render_pointer segs)" "segs \<noteq> []" using fill_loop_inverse [OF f(1)] by simp_all
    then have "p = render_pointer segs"
      using False h(1) by (cases p; cases segs) simp_all
    with h(2) f(2) show ?thesis by simp
  qed
next
  assume "p = render_pointer segs \<and> fj_pointer_nsegs_ok (length segs) d \<or> p = [] \<and> segs = []"
  then show "fj_pointer_parse p d st = Inr segs"
  proof (elim disjE conjE)
    assume p: "p = render_pointer segs" and ok: "fj_pointer_nsegs_ok (length segs) d"
    show ?thesis
    proof (cases segs)
      case Nil
      then show ?thesis by (simp add: p fj_pointer_parse_def)
    next
      case (Cons s r)
      then have "p \<noteq> []" "p ! 0 = 0x2F" by (simp_all add: p)
      then show ?thesis
        using ok fill_segments_render [of segs] by (simp add: fj_pointer_parse_def Let_def p count_render)
    qed
  qed (simp add: fj_pointer_parse_def)
qed

lemma nsegs_ok_0 [simp]: "fj_pointer_nsegs_ok 0 d"
  by (auto simp: fj_pointer_nsegs_ok_def)

lemma parse_ok: "fj_pointer_parse p d st = Inr segs \<longleftrightarrow> p = render_pointer segs \<and> fj_pointer_nsegs_ok (length segs) d"
  unfolding parse_iff by auto

subsection \<open>Decimal indices\<close>

fun decimal :: "nat \<Rightarrow> bytes" where
  "decimal n = (if n < 10 then [byte_of (48 + n)] else decimal (n div 10) @ [byte_of (48 + n mod 10)])"

declare decimal.simps [simp del]

fun dec_value :: "nat \<Rightarrow> bytes \<Rightarrow> nat" where
  "dec_value v [] = v"
| "dec_value v (c # r) = dec_value (v * 10 + (unat c - 48)) r"

lemma dec_value_snoc: "dec_value v (r @ [c]) = dec_value v r * 10 + (unat c - 48)"
  by (induction r arbitrary: v) simp_all

lemma dec_value_ge: "v \<le> dec_value v r"
proof (induction r arbitrary: v)
  case (Cons c r)
  show ?case using Cons.IH [of "v * 10 + (unat c - 48)"] by simp
qed simp

lemma digit_bounds: "is_digit c \<Longrightarrow> 48 \<le> unat c \<and> unat c - 48 < 10"
  by (auto simp: is_digit_def byte_arith)

lemma index_loop_iff:
  assumes "9 \<le> smax"
  shows "index_loop smax r idx = Some n \<longleftrightarrow> list_all is_digit r \<and> n = dec_value idx r \<and> (r = [] \<or> n \<le> smax)"
proof (induction r arbitrary: idx)
  case (Cons c r)
  show ?case
  proof (cases "is_digit c")
    case True
    define d where "d = unat c - 48"
    have d: "d < 10" using digit_bounds [OF True] by (simp add: d_def)
    have chk: "(smax - d) div 10 < idx \<longleftrightarrow> smax < idx * 10 + d"
    proof -
      have "(smax - d) div 10 < idx \<longleftrightarrow> smax - d < idx * 10" by (simp add: div_less_iff_less_mult)
      also have "\<dots> \<longleftrightarrow> smax < idx * 10 + d" using assms d by linarith
      finally show ?thesis .
    qed
    have "idx * 10 + d \<le> dec_value (idx * 10 + d) r" by (rule dec_value_ge)
    then show ?thesis
      using True Cons.IH [of "idx * 10 + d"] by (auto simp: Let_def d_def [symmetric] chk)
  qed simp
qed auto

lemma byte_of_digit: "is_digit c \<Longrightarrow> byte_of (48 + (unat c - 48)) = c"
  using digit_bounds [of c] by simp

lemma decimal_digits: "list_all is_digit (decimal n)"
proof (induction n rule: decimal.induct)
  case (1 n)
  have "is_digit (byte_of (48 + m))" if "m < 10" for m
    using that by (simp add: is_digit_def word_le_nat_alt)
  with 1 show ?case by (subst decimal.simps) simp
qed

lemma decimal_value: "dec_value 0 (decimal n) = n"
proof (induction n rule: decimal.induct)
  case (1 n)
  have u: "unat (byte_of (48 + m)) - 48 = m" if "m < 10" for m using that by simp
  show ?case
    using 1 u [of n] u [of "n mod 10"] div_mult_mod_eq [of n 10]
    by (subst decimal.simps) (simp add: dec_value_snoc)
qed

lemma decimal_head: "decimal n \<noteq> [] \<and> (hd (decimal n) = 0x30 \<longleftrightarrow> n = 0)"
proof (induction n rule: decimal.induct)
  case (1 n)
  have "byte_of (48 + n) = 0x30 \<longleftrightarrow> n = 0" if "n < 10"
    using that by (simp add: word_unat_eq_iff)
  with 1 show ?case by (subst (1 2) decimal.simps) (auto simp: div_eq_0_iff)
qed

lemma decimal_unique: "list_all is_digit s \<Longrightarrow> s \<noteq> [] \<Longrightarrow> hd s \<noteq> 0x30 \<Longrightarrow> decimal (dec_value 0 s) = s \<and> 0 < dec_value 0 s"
proof (induction s rule: rev_induct)
  case (snoc c s)
  define d where "d = unat c - 48"
  have d: "d < 10" "byte_of (48 + d) = c" using snoc.prems(1) digit_bounds [of c] by (simp_all add: d_def)
  show ?case
  proof (cases "s = []")
    case True
    have "0 < d" using snoc.prems(3) d(2) True by (cases d) (auto simp: byte_of_def)
    with True d show ?thesis by (simp add: d_def [symmetric] decimal.simps [of d])
  next
    case False
    then have ih: "decimal (dec_value 0 s) = s" "0 < dec_value 0 s" using snoc by simp_all
    let ?n = "dec_value 0 s * 10 + d"
    have "\<not> ?n < 10" "?n div 10 = dec_value 0 s" "?n mod 10 = d" using ih(2) d(1) by simp_all
    then have "decimal ?n = s @ [c]" using ih(1) d(2) by (subst decimal.simps) simp
    with ih show ?thesis by (simp add: dec_value_snoc d_def [symmetric])
  qed
qed simp

lemma seg_index_iff:
  assumes "9 \<le> smax"
  shows "fj_seg_is_index smax seg = Some n \<longleftrightarrow> seg = decimal n \<and> n \<le> smax \<and> length seg \<le> 19"
proof (cases "seg = [] \<or> seg ! 0 = 0x30")
  case True
  have "decimal 0 = [0x30]" by (simp add: decimal.simps byte_of_def)
  moreover have "seg = decimal n \<Longrightarrow> n = 0" using True decimal_head [of n] by (auto simp: hd_conv_nth)
  ultimately show ?thesis
    using True decimal_head [of n] by (cases seg) (auto simp: fj_seg_is_index_def)
next
  case False
  then have h: "seg \<noteq> []" "hd seg \<noteq> 0x30" by (auto simp: hd_conv_nth)
  have "fj_seg_is_index smax seg = Some n \<longleftrightarrow>
      length seg \<le> 19 \<and> list_all is_digit seg \<and> n = dec_value 0 seg \<and> n \<le> smax"
    using False index_loop_iff [OF assms, of seg 0 n] by (auto simp: fj_seg_is_index_def)
  also have "\<dots> \<longleftrightarrow> seg = decimal n \<and> n \<le> smax \<and> length seg \<le> 19"
    using decimal_unique [OF _ h] decimal_digits [of n] decimal_value [of n] by auto
  finally show ?thesis .
qed

subsection \<open>Where a pointer leads\<close>

definition matching :: "zend_long \<Rightarrow> fj_ptr_seg \<Rightarrow> ((bytes \<times> bool) \<times> yyval) list \<Rightarrow> ((bytes \<times> bool) \<times> yyval) list" where
  "matching flags seg ms = filter (\<lambda>m. fj_seg_key_eq (fst m) seg flags) ms"

lemma obj_scan_Some:
  "obj_scan flags seg ms (Some v) = (if matching flags seg ms = [] then Inr (Some v) else Inl FJ_SPLICE_AMBIGUOUS)"
  by (induction ms) (auto simp: matching_def)

lemma obj_scan_matching:
  "obj_scan flags seg ms None =
    (case matching flags seg ms of
       [] \<Rightarrow> Inr None
     | [m] \<Rightarrow> Inr (Some (snd m))
     | _ \<Rightarrow> Inl FJ_SPLICE_AMBIGUOUS)"
  by (induction ms) (auto simp: matching_def obj_scan_Some split: list.splits)

text \<open>The value at the end of a path: a member's key must match exactly one member.\<close>

inductive ptr_at :: "nat \<Rightarrow> zend_long \<Rightarrow> yyval \<Rightarrow> fj_ptr_seg list \<Rightarrow> yyval \<Rightarrow> bool" for smax flags where
  root: "ptr_at smax flags v [] v"
| member: "matching flags seg ms = [(k, child)] \<Longrightarrow> ptr_at smax flags child segs t \<Longrightarrow>
    ptr_at smax flags (YObj ms) (seg # segs) t"
| element: "fj_seg_is_index smax seg = Some i \<Longrightarrow> i < length items \<Longrightarrow> ptr_at smax flags (items ! i) segs t \<Longrightarrow>
    ptr_at smax flags (YArr items) (seg # segs) t"

inductive_cases ptr_at_NilE: "ptr_at smax flags v [] t"
inductive_cases ptr_at_ConsE: "ptr_at smax flags v (seg # segs) t"
inductive_simps ptr_at_Nil [simp]: "ptr_at smax flags v [] t"
inductive_simps ptr_at_Obj: "ptr_at smax flags (YObj ms) (seg # segs) t"
inductive_simps ptr_at_Arr: "ptr_at smax flags (YArr items) (seg # segs) t"

lemma ptr_at_ctn: "ptr_at smax flags v (seg # segs) t \<Longrightarrow> yyjson_is_ctn v"
  by (erule ptr_at_ConsE) (simp_all add: yyjson_is_ctn_def)

lemma walk_ptr_at: "fj_pointer_walk smax flags False v segs = Inr (Some t) \<longleftrightarrow> ptr_at smax flags v segs t"
proof (induction segs arbitrary: v)
  case (Cons seg segs)
  have ctn: "segs \<noteq> [] \<Longrightarrow> ptr_at smax flags c segs t \<Longrightarrow> yyjson_is_ctn c" for c
    using ptr_at_ctn by (cases segs) blast+
  show ?case
  proof (cases v)
    case (YArr items)
    then show ?thesis
      using Cons ctn by (auto simp: ptr_at_Arr Let_def split: option.splits)
  next
    case (YObj ms)
    then show ?thesis
      using Cons ctn by (auto simp: ptr_at_Obj obj_scan_matching split: list.splits)
  qed (auto elim: ptr_at_ConsE)
qed auto

lemma walk_strict: "fj_pointer_walk smax flags False v segs \<noteq> Inr None"
  by (induction segs arbitrary: v) (auto simp: Let_def split: yyval.splits sum.splits option.splits)

subsection \<open>The document a set produces\<close>

text \<open>Specification of a set: the first unmatched segment of an object is appended together with
  nested objects for the segments after it; an array element must exist.\<close>

fun ptr_suffix :: "fj_ptr_seg list \<Rightarrow> yyval \<Rightarrow> yyval" where
  "ptr_suffix [] new = new"
| "ptr_suffix (seg # segs) new = YObj [((seg, False), ptr_suffix segs new)]"

fun update_member :: "fj_ptr_seg \<Rightarrow> (yyval \<Rightarrow> yyval option) \<Rightarrow> ((bytes \<times> bool) \<times> yyval) list
    \<Rightarrow> ((bytes \<times> bool) \<times> yyval) list option" where
  "update_member seg f [] = Some []"
| "update_member seg f ((k, v) # ms) =
    (if fst k = seg then (case f v of None \<Rightarrow> None | Some v' \<Rightarrow> Some ((k, v') # ms))
     else map_option ((#) (k, v)) (update_member seg f ms))"

primrec ptr_put :: "nat \<Rightarrow> yyval \<Rightarrow> fj_ptr_seg list \<Rightarrow> yyval \<Rightarrow> yyval option" where
  "ptr_put smax new [] = (\<lambda>v. Some new)"
| "ptr_put smax new (seg # segs) = (\<lambda>v.
    (case v of
       YObj ms \<Rightarrow>
         (case matching 0 seg ms of
            [] \<Rightarrow> Some (YObj (ms @ [((seg, False), ptr_suffix segs new)]))
          | [m] \<Rightarrow> map_option YObj (update_member seg (ptr_put smax new segs) ms)
          | _ \<Rightarrow> None)
     | YArr items \<Rightarrow>
         (case fj_seg_is_index smax seg of
            None \<Rightarrow> None
          | Some i \<Rightarrow>
              if length items \<le> i then None
              else map_option (\<lambda>c. YArr (items[i := c])) (ptr_put smax new segs (items ! i)))
     | _ \<Rightarrow> None))"

lemma key_eq_0 [simp]: "fj_seg_key_eq k seg 0 \<longleftrightarrow> fst k = seg"
  by (simp add: fj_seg_key_eq_def has_utf8_handling_flag_def has_flag_def)

lemma matching_cases [case_names Nil single many]:
  "(ms = [] \<Longrightarrow> P) \<Longrightarrow> (\<And>m. ms = [m] \<Longrightarrow> P) \<Longrightarrow> (\<And>m m' r. ms = m # m' # r \<Longrightarrow> P) \<Longrightarrow> P"
  by (cases ms; cases "tl ms") auto

lemma update_member_none: "matching 0 seg ms = [(k, c)] \<Longrightarrow> update_member seg f ms = None \<longleftrightarrow> f c = None"
  by (induction ms) (auto simp: matching_def split: if_split_asm option.splits)

lemma update_member_other: "matching 0 seg ms = [] \<Longrightarrow> update_member seg f ms = Some ms"
  by (induction ms) (auto simp: matching_def split: if_split_asm)

lemma update_member_some:
  "matching 0 seg ms = [(k, c)] \<Longrightarrow> f c = Some c' \<Longrightarrow>
   \<exists>ms'. update_member seg f ms = Some ms' \<and> matching 0 seg ms' = [(k, c')] \<and>
     (\<forall>seg'. seg' \<noteq> seg \<longrightarrow> matching 0 seg' ms' = matching 0 seg' ms)"
proof (induction ms)
  case (Cons m ms)
  obtain k' v where m: "m = (k', v)" by (cases m)
  show ?case
  proof (cases "fst k' = seg")
    case True
    then have "matching 0 seg ms = []" "k' = k" "v = c" using Cons.prems(1) by (simp_all add: matching_def m)
    with True Cons.prems(2) show ?thesis by (auto simp: m matching_def)
  next
    case False
    then have "matching 0 seg ms = [(k, c)]" using Cons.prems(1) by (simp add: matching_def m)
    from Cons.IH [OF this Cons.prems(2)] False show ?thesis by (auto simp: m matching_def)
  qed
qed (simp add: matching_def)

lemma walk_put: "(\<exists>x. fj_pointer_walk smax 0 True v segs = Inr x) \<longleftrightarrow> ptr_put smax new segs v \<noteq> None"
proof (induction segs arbitrary: v)
  case (Cons seg segs)
  have ctn: "segs \<noteq> [] \<Longrightarrow> \<not> yyjson_is_ctn c \<Longrightarrow> ptr_put smax new segs c = None" for c
    by (cases segs; cases c) (auto simp: yyjson_is_ctn_def)
  show ?case
  proof (cases v)
    case (YArr items)
    then show ?thesis using Cons ctn by (auto simp: Let_def split: option.splits)
  next
    case (YObj ms)
    show ?thesis
    proof (cases "matching 0 seg ms" rule: matching_cases)
      case Nil then show ?thesis by (simp add: YObj obj_scan_matching)
    next
      case (single m)
      obtain k c where "m = (k, c)" by (cases m)
      with single Cons.IH [of c] ctn [of c] update_member_none [of seg ms k c "ptr_put smax new segs"]
      show ?thesis by (auto simp: YObj obj_scan_matching)
    next
      case (many m m' r) then show ?thesis by (simp add: YObj obj_scan_matching)
    qed
  qed auto
qed simp

lemma ptr_at_suffix: "ptr_at smax 0 (ptr_suffix segs new) segs new"
  by (induction segs) (auto simp: ptr_at_Obj matching_def)

lemma get_put: "ptr_put smax new segs v = Some r \<Longrightarrow> ptr_at smax 0 r segs new"
proof (induction segs arbitrary: v r)
  case (Cons seg segs)
  show ?case
  proof (cases v)
    case (YArr items)
    with Cons show ?thesis by (auto simp: ptr_at_Arr split: option.splits if_splits)
  next
    case (YObj ms)
    show ?thesis
    proof (cases "matching 0 seg ms" rule: matching_cases)
      case Nil
      then show ?thesis
        using Cons.prems YObj ptr_at_suffix [of smax segs new] by (auto simp: ptr_at_Obj matching_def)
    next
      case (single m)
      obtain k c where m: "m = (k, c)" by (cases m)
      with single Cons.prems YObj obtain ms0 where ms0: "update_member seg (ptr_put smax new segs) ms = Some ms0" "r = YObj ms0"
        by auto
      then have "ptr_put smax new segs c \<noteq> None"
        using update_member_none [of seg ms k c "ptr_put smax new segs"] single m by simp
      then obtain c' where c': "ptr_put smax new segs c = Some c'" by blast
      with update_member_some [of seg ms k c "ptr_put smax new segs", OF _ c'] single m ms0 Cons.IH [OF c'] show ?thesis
        by (auto simp: ptr_at_Obj)
    next
      case (many m m' r') then show ?thesis using Cons.prems YObj by simp
    qed
  qed (use Cons.prems in auto)
qed simp

lemma put_frame:
  assumes "9 \<le> smax"
  shows "ptr_put smax new p v = Some r \<Longrightarrow> ptr_at smax 0 v q t \<Longrightarrow> \<not> prefix p q \<Longrightarrow> \<not> prefix q p \<Longrightarrow> ptr_at smax 0 r q t"
proof (induction p arbitrary: v r q)
  case (Cons seg segs)
  then obtain seg' segs' where q: "q = seg' # segs'" by (cases q) auto
  show ?case
  proof (cases v)
    case (YArr items)
    with Cons.prems(1) obtain i c where i: "fj_seg_is_index smax seg = Some i" "i < length items"
      "ptr_put smax new segs (items ! i) = Some c" "r = YArr (items[i := c])"
      by (auto split: option.splits if_splits)
    from Cons.prems(2) YArr q obtain j where j: "fj_seg_is_index smax seg' = Some j" "j < length items"
      "ptr_at smax 0 (items ! j) segs' t" by (auto simp: ptr_at_Arr)
    show ?thesis
    proof (cases "j = i")
      case True
      then have "seg = seg'" using i(1) j(1) by (simp add: seg_index_iff [OF assms])
      with Cons.prems(3,4) q have "\<not> prefix segs segs'" "\<not> prefix segs' segs" by simp_all
      with Cons.IH [OF i(3)] j(3) True have "ptr_at smax 0 c segs' t" by simp
      with i j q True show ?thesis by (simp add: ptr_at_Arr)
    next
      case False
      with i j q show ?thesis by (simp add: ptr_at_Arr)
    qed
  next
    case (YObj ms)
    from Cons.prems(2) YObj q obtain k' d where d: "matching 0 seg' ms = [(k', d)]" "ptr_at smax 0 d segs' t"
      by (auto simp: ptr_at_Obj)
    show ?thesis
    proof (cases "matching 0 seg ms" rule: matching_cases)
      case Nil
      then have "seg \<noteq> seg'" using d(1) by auto
      with Nil Cons.prems(1) YObj d q show ?thesis by (auto simp: ptr_at_Obj matching_def)
    next
      case (single m)
      obtain k c where m: "m = (k, c)" by (cases m)
      with single Cons.prems YObj obtain ms0 where ms0: "update_member seg (ptr_put smax new segs) ms = Some ms0" "r = YObj ms0"
        by auto
      then have "ptr_put smax new segs c \<noteq> None"
        using update_member_none [of seg ms k c "ptr_put smax new segs"] single m by simp
      then obtain c' where c': "ptr_put smax new segs c = Some c'" by blast
      have up: "matching 0 seg ms0 = [(k, c')]" "seg' \<noteq> seg \<Longrightarrow> matching 0 seg' ms0 = matching 0 seg' ms"
        using update_member_some [of seg ms k c "ptr_put smax new segs", OF _ c'] single m ms0 by auto
      show ?thesis
      proof (cases "seg' = seg")
        case True
        with d(1) single m have "d = c" by simp
        moreover have "\<not> prefix segs segs'" "\<not> prefix segs' segs" using Cons.prems(3,4) q True by simp_all
        ultimately have "ptr_at smax 0 c' segs' t" using Cons.IH [OF c'] d(2) by simp
        with up True ms0 q show ?thesis by (auto simp: ptr_at_Obj)
      next
        case False
        with up d ms0 q show ?thesis by (auto simp: ptr_at_Obj)
      qed
    next
      case (many m m' r') then show ?thesis using Cons.prems YObj by simp
    qed
  qed (use Cons.prems in auto)
qed simp

lemma resolve_iff:
  "fastjson_pointer_resolve_limited smax root pointer depth_limit flags = (FJ_SPLICE_OK, Some t) \<longleftrightarrow>
    (\<exists>segs. pointer = render_pointer segs \<and> fj_pointer_nsegs_ok (length segs) depth_limit \<and>
       ptr_at smax flags root segs t)"
proof -
  have "fastjson_pointer_resolve_limited smax root pointer depth_limit flags = (FJ_SPLICE_OK, Some t) \<longleftrightarrow>
      (\<exists>segs. fj_pointer_parse pointer depth_limit FJ_SPLICE_SETTABLE_FAIL = Inr segs \<and>
         fj_pointer_walk smax flags False root segs = Inr (Some t))"
    by (auto simp: fastjson_pointer_resolve_limited_def split: sum.splits)
  then show ?thesis by (simp add: parse_ok walk_ptr_at)
qed

lemma plan_iff:
  "fastjson_pointer_plan_init smax root pointer depth_limit = Inr segs \<longleftrightarrow>
    pointer = render_pointer segs \<and> fj_pointer_nsegs_ok (length segs) depth_limit \<and>
    ptr_put smax new segs root \<noteq> None"
proof -
  have "fastjson_pointer_plan_init smax root pointer depth_limit = Inr segs \<longleftrightarrow>
      fj_pointer_parse pointer depth_limit FJ_SPLICE_SETTABLE_FAIL = Inr segs \<and>
      (\<exists>x. fj_pointer_walk smax 0 True root segs = Inr x)"
    by (auto simp: fastjson_pointer_plan_init_def split: sum.splits)
  then show ?thesis unfolding parse_ok walk_put [of _ _ _ new] by blast
qed

subsection \<open>Properties\<close>

text \<open>C23: parsing a pointer is the exact inverse of rendering it by RFC 6901: a string is accepted
  exactly when it is the escaped form of some segments, within the two limits on their number,
  and then those segments are the result.\<close>

theorem pointer_parse_render:
  "fj_pointer_parse pointer depth_limit FJ_SPLICE_SETTABLE_FAIL = Inr segs \<longleftrightarrow>
     pointer = render_pointer segs \<and> length segs \<le> 4096 \<and> \<not> (0 < depth_limit \<and> depth_limit \<le> length segs)"
  by (simp add: parse_ok fj_pointer_nsegs_ok_def FASTJSON_POINTER_MAX_SEGMENTS_def not_less)

text \<open>C22: a segment is an array index exactly when it is the canonical decimal form of a number of at
  most nineteen digits that fits \<open>size_t\<close>; no leading zeros, signs or overflow.\<close>

theorem array_index_canonical:
  assumes "9 \<le> smax"
  shows "fj_seg_is_index smax seg = Some n \<longleftrightarrow> seg = decimal n \<and> n \<le> smax \<and> length seg \<le> 19"
  using assms by (rule seg_index_iff)

lemma array_index_canonical_witness:
  "(fj_seg_is_index 4294967295 [0x31, 0x32] = Some 12) \<longleftrightarrow>
     ([0x31, 0x32] = decimal 12 \<and> (12 :: nat) \<le> 4294967295 \<and> length [0x31, 0x32 :: byte] \<le> 19)"
  by (rule array_index_canonical) simp


text \<open>A plan for a set exists exactly when the pointer parses and the set has a result.\<close>

theorem plan_iff_put:
  "fastjson_pointer_plan_init smax root pointer depth_limit = Inr segs \<longleftrightarrow>
    pointer = render_pointer segs \<and> fj_pointer_nsegs_ok (length segs) depth_limit \<and>
    ptr_put smax new segs root \<noteq> None"
  by (rule plan_iff)

end
