(* ===== verification/Splice.thy ===== *)
theory Splice
  imports Pointer
begin

text \<open>
  Writing a document with one value replaced (fastjson_pointer_splice.c). Nothing is copied into a
  new tree: the writer prints the parsed document and, along the pointer's path, prints the
  replacement instead of the old value, or appends the missing members.

  The context \<open>fj_splice_ctx\<close> is a record with the code's fields; a function returning \<open>false\<close> is
  \<open>Inl\<close> with the context at that point, whose status tells why. \<open>lvl\<close> counts the C frames above
  the call, for the native stack check.
\<close>

record fastjson_pointer_repl =
  rp_encoded :: "bytes option"
  rp_repl :: yyval

record fj_splice_ctx =
  sp_buf :: bytes
  sp_flags :: zend_long
  sp_yflags :: yyjson_write_flag
  sp_pretty :: bool
  sp_indent :: int
  sp_replacement :: fastjson_pointer_repl
  sp_segs :: "fj_ptr_seg list"
  sp_status :: fj_splice_status
  sp_settable :: bool

type_synonym splice_res = "fj_splice_ctx + fj_splice_ctx"

definition FASTJSON_ENCODE_HEX_MASK :: zend_long where
  "FASTJSON_ENCODE_HEX_MASK = FASTJSON_ENCODE_HEX_TAG OR FASTJSON_ENCODE_HEX_AMP OR
     FASTJSON_ENCODE_HEX_APOS OR FASTJSON_ENCODE_HEX_QUOT"

definition FASTJSON_NUM_REAL_WORST :: nat where "FASTJSON_NUM_REAL_WORST = 40"

subsection \<open>Buffer primitives\<close>

definition fastjson_append_newline_indent :: "nat \<Rightarrow> bytes \<Rightarrow> int \<Rightarrow> bytes" where
  "fastjson_append_newline_indent zmax buf level =
    (if 8 < level \<and> nat level \<le> (zmax - 1) div 4 then buf @ [0x0A] @ replicate (nat level * 4) 0x20
     else buf @ [0x0A] @ concat (replicate (nat level) [0x20, 0x20, 0x20, 0x20]))"

definition sp_append :: "fj_splice_ctx \<Rightarrow> bytes \<Rightarrow> fj_splice_ctx" where
  "sp_append c b = c\<lparr>sp_buf := sp_buf c @ b\<rparr>"

definition fj_splice_newline_indent :: "env \<Rightarrow> fj_splice_ctx \<Rightarrow> fj_splice_ctx" where
  "fj_splice_newline_indent env c =
    c\<lparr>sp_buf := fastjson_append_newline_indent (zstr_max env) (sp_buf c) (sp_indent c)\<rparr>"

definition sp_fail :: "fj_splice_ctx \<Rightarrow> fj_splice_status \<Rightarrow> splice_res" where
  "sp_fail c st = Inl (c\<lparr>sp_status := st\<rparr>)"

definition fj_splice_reserve :: "env \<Rightarrow> fj_splice_ctx \<Rightarrow> nat \<Rightarrow> splice_res" where
  "fj_splice_reserve env c add =
    (if zstr_max env - length (sp_buf c) < add then sp_fail c FJ_SPLICE_TOO_LARGE else Inr c)"

definition fj_splice_apply_hex_escapes :: "env \<Rightarrow> fj_splice_ctx \<Rightarrow> nat \<Rightarrow> splice_res" where
  "fj_splice_apply_hex_escapes env c start =
    (if sp_flags c AND FASTJSON_ENCODE_HEX_MASK = 0 then Inr c
     else case fastjson_apply_hex_escapes (zstr_max env) (sp_buf c) (sp_flags c) start of
         None \<Rightarrow> sp_fail c FJ_SPLICE_TOO_LARGE
       | Some b \<Rightarrow> Inr (c\<lparr>sp_buf := b\<rparr>))"

definition fj_splice_write_string :: "env \<Rightarrow> fj_splice_ctx \<Rightarrow> bytes \<Rightarrow> splice_res" where
  "fj_splice_write_string env c s =
    (let start = length (sp_buf c); zmax = zstr_max env in
     if fastjson_string_wants_sized_writer (buf_cap env (sp_buf c)) (sp_buf c) (length s) then
       (case fastjson_write_large_json_string zmax (sp_buf c) s (sp_yflags c) of
          (FJ_STRING_SIZE_TOO_LARGE, _) \<Rightarrow> sp_fail c FJ_SPLICE_TOO_LARGE
        | (FJ_STRING_SIZE_INVALID_UTF8, _) \<Rightarrow> sp_fail c FJ_SPLICE_INVALID_UTF8
        | (FJ_STRING_SIZE_OK, b) \<Rightarrow> fj_splice_apply_hex_escapes env (c\<lparr>sp_buf := b\<rparr>) start)
     else if (zmax - 2) div 6 < length s then sp_fail c FJ_SPLICE_TOO_LARGE
     else bind_res (fj_splice_reserve env c (length s * 6 + 2)) (\<lambda>c.
       case yyjson_write_string_to_buf s (sp_yflags c) of
         None \<Rightarrow> sp_fail c FJ_SPLICE_INVALID_UTF8
       | Some w \<Rightarrow> fj_splice_apply_hex_escapes env (sp_append c w) start))"

definition fj_splice_write_number :: "env \<Rightarrow> fj_splice_ctx \<Rightarrow> yyval \<Rightarrow> splice_res" where
  "fj_splice_write_number env c v =
    (if (case v of YReal w \<Rightarrow> \<not> f64_isfinite w | _ \<Rightarrow> False) then sp_fail c FJ_SPLICE_INF_OR_NAN
     else bind_res (fj_splice_reserve env c FASTJSON_NUM_REAL_WORST) (\<lambda>c.
       case write_number env v of None \<Rightarrow> Inl c | Some w \<Rightarrow> Inr (sp_append c w)))"

text \<open>A raw number with a fraction or an exponent must convert to a finite double.\<close>

definition raw_overflows :: "env \<Rightarrow> bytes \<Rightarrow> bool" where
  "raw_overflows env raw \<longleftrightarrow> list_ex (\<lambda>c. c = 0x2E \<or> c = 0x65 \<or> c = 0x45) raw \<and> \<not> strtod_finite env raw"

definition fj_splice_write_raw :: "env \<Rightarrow> fj_splice_ctx \<Rightarrow> bytes \<Rightarrow> splice_res" where
  "fj_splice_write_raw env c raw =
    (if raw_overflows env raw then sp_fail c FJ_SPLICE_INF_OR_NAN
     else bind_res (fj_splice_reserve env c (length raw)) (\<lambda>c. Inr (sp_append c raw)))"

subsection \<open>Printing an unchanged value\<close>

text \<open>Opening and closing a container: the bracket, and one more level when pretty-printing one that
  is not empty.\<close>

definition sp_open :: "fj_splice_ctx \<Rightarrow> byte \<Rightarrow> bool \<Rightarrow> fj_splice_ctx" where
  "sp_open c bracket emp =
    (let c = sp_append c [bracket] in
     if sp_pretty c \<and> \<not> emp then c\<lparr>sp_indent := sp_indent c + 1\<rparr> else c)"

definition sp_close :: "env \<Rightarrow> fj_splice_ctx \<Rightarrow> byte \<Rightarrow> bool \<Rightarrow> fj_splice_ctx" where
  "sp_close env c bracket emp =
    (let c = (if sp_pretty c \<and> \<not> emp
              then fj_splice_newline_indent env (c\<lparr>sp_indent := sp_indent c - 1\<rparr>) else c)
     in sp_append c [bracket])"

text \<open>What precedes an element: a comma unless it is the first, then the line break.\<close>

definition sp_separator :: "env \<Rightarrow> fj_splice_ctx \<Rightarrow> bool \<Rightarrow> fj_splice_ctx" where
  "sp_separator env c first =
    (let c = (if \<not> first then sp_append c [0x2C] else c) in
     if sp_pretty c then fj_splice_newline_indent env c else c)"

definition sp_colon :: "fj_splice_ctx \<Rightarrow> fj_splice_ctx" where
  "sp_colon c = (let c = sp_append c [0x3A] in if sp_pretty c then sp_append c [0x20] else c)"

fun fj_splice_write_full :: "env \<Rightarrow> fj_splice_ctx \<Rightarrow> yyval \<Rightarrow> nat \<Rightarrow> nat \<Rightarrow> splice_res"
  and write_full_items :: "env \<Rightarrow> fj_splice_ctx \<Rightarrow> yyval list \<Rightarrow> nat \<Rightarrow> nat \<Rightarrow> bool \<Rightarrow> splice_res"
  and write_full_members ::
    "env \<Rightarrow> fj_splice_ctx \<Rightarrow> ((bytes \<times> bool) \<times> yyval) list \<Rightarrow> nat \<Rightarrow> nat \<Rightarrow> bool \<Rightarrow> splice_res" where
  "fj_splice_write_full env c v remaining lvl =
    (if remaining = 0 then sp_fail c FJ_SPLICE_DEPTH_FAIL
     else if \<not> stack_ok env lvl then sp_fail c FJ_SPLICE_DEPTH_FAIL
     else case v of
         YNull \<Rightarrow> Inr (sp_append c (ascii ''null''))
       | YBool b \<Rightarrow> Inr (sp_append c (if b then ascii ''true'' else ascii ''false''))
       | YUint _ \<Rightarrow> fj_splice_write_number env c v
       | YSint _ \<Rightarrow> fj_splice_write_number env c v
       | YReal _ \<Rightarrow> fj_splice_write_number env c v
       | YStr s _ \<Rightarrow> fj_splice_write_string env c s
       | YRaw raw \<Rightarrow> fj_splice_write_raw env c raw
       | YArr items \<Rightarrow>
           if remaining \<le> 1 then sp_fail c FJ_SPLICE_DEPTH_FAIL
           else if \<not> stack_ok env (lvl + 1) then sp_fail c FJ_SPLICE_DEPTH_FAIL
           else bind_res (write_full_items env (sp_open c 0x5B (items = [])) items (remaining - 1) (lvl + 2) True)
             (\<lambda>c. Inr (sp_close env c 0x5D (items = [])))
       | YObj ms \<Rightarrow>
           if remaining \<le> 1 then sp_fail c FJ_SPLICE_DEPTH_FAIL
           else if \<not> stack_ok env (lvl + 1) then sp_fail c FJ_SPLICE_DEPTH_FAIL
           else bind_res (write_full_members env (sp_open c 0x7B (ms = [])) ms (remaining - 1) (lvl + 2) True)
             (\<lambda>c. Inr (sp_close env c 0x7D (ms = []))))"
| "write_full_items env c [] remaining lvl first = Inr c"
| "write_full_items env c (v # vs) remaining lvl first =
    bind_res (fj_splice_write_full env (sp_separator env c first) v remaining lvl)
      (\<lambda>c. write_full_items env c vs remaining lvl False)"
| "write_full_members env c [] remaining lvl first = Inr c"
| "write_full_members env c (((k, t), v) # ms) remaining lvl first =
    bind_res (fj_splice_write_string env (sp_separator env c first) k) (\<lambda>c.
      bind_res (fj_splice_write_full env (sp_colon c) v remaining lvl)
        (\<lambda>c. write_full_members env c ms remaining lvl False))"

subsection \<open>Printing the replacement\<close>

text \<open>Text that is already encoded is re-indented line by line: \<open>chunk\<close> is what was read since
  \<open>start\<close>.\<close>

fun reindent_loop :: "env \<Rightarrow> nat \<Rightarrow> fj_splice_ctx \<Rightarrow> bytes \<Rightarrow> bytes \<Rightarrow> splice_res" where
  "reindent_loop env spaces c [] chunk =
    (if chunk \<noteq> [] then bind_res (fj_splice_reserve env c (length chunk)) (\<lambda>c. Inr (sp_append c chunk))
     else Inr c)"
| "reindent_loop env spaces c (b # rest) chunk =
    (if b \<noteq> 0x0A then reindent_loop env spaces c rest (chunk @ [b])
     else bind_res (fj_splice_reserve env c (length (chunk @ [b]) + spaces)) (\<lambda>c.
       reindent_loop env spaces (sp_append c (chunk @ [b] @ replicate spaces 0x20)) rest []))"

definition fj_splice_write_replacement :: "env \<Rightarrow> fj_splice_ctx \<Rightarrow> nat \<Rightarrow> nat \<Rightarrow> splice_res" where
  "fj_splice_write_replacement env c remaining lvl =
    (case rp_encoded (sp_replacement c) of
       None \<Rightarrow> fj_splice_write_full env c (rp_repl (sp_replacement c)) remaining (lvl + 1)
     | Some src \<Rightarrow>
         if \<not> sp_pretty c \<or> sp_indent c = 0 \<or> 0x0A \<notin> set src then
           bind_res (fj_splice_reserve env c (length src)) (\<lambda>c. Inr (sp_append c src))
         else reindent_loop env (nat (sp_indent c) * 4) c src [])"

subsection \<open>Along the path\<close>

text \<open>The members missing below \<open>segs[seg_idx]\<close>.\<close>

function fj_splice_build_suffix :: "env \<Rightarrow> fj_splice_ctx \<Rightarrow> nat \<Rightarrow> nat \<Rightarrow> nat \<Rightarrow> splice_res" where
  "fj_splice_build_suffix env c seg_idx remaining lvl =
    (if \<not> stack_ok env lvl then sp_fail c FJ_SPLICE_DEPTH_FAIL
     else if length (sp_segs c) \<le> seg_idx then Inl c
     else if seg_idx = length (sp_segs c) - 1 then fj_splice_write_replacement env c remaining (lvl + 1)
     else if remaining \<le> 1 then sp_fail c FJ_SPLICE_DEPTH_FAIL
     else let key = sp_segs c ! (seg_idx + 1);
              c = sp_append c [0x7B];
              c = (if sp_pretty c then fj_splice_newline_indent env (c\<lparr>sp_indent := sp_indent c + 1\<rparr>) else c)
       in bind_res (fj_splice_write_string env c key) (\<lambda>c.
            bind_res (fj_splice_build_suffix env (sp_colon c) (seg_idx + 1) (remaining - 1) (lvl + 1))
              (\<lambda>c. Inr (sp_close env c 0x7D False))))"
  by pat_completeness auto
termination
  by (relation "measure (\<lambda>(_, _, _, remaining, _). remaining)") auto

declare fj_splice_build_suffix.simps [simp del]

text \<open>The loop of \<open>fj_splice_write_array\<close>; \<open>target\<close> writes the element at \<open>want\<close>.\<close>

fun write_at_items :: "env \<Rightarrow> (fj_splice_ctx \<Rightarrow> yyval \<Rightarrow> splice_res) \<Rightarrow> nat \<Rightarrow> nat \<Rightarrow> nat
    \<Rightarrow> fj_splice_ctx \<Rightarrow> yyval list \<Rightarrow> nat \<Rightarrow> splice_res" where
  "write_at_items env target want remaining lvl c [] cur = Inr c"
| "write_at_items env target want remaining lvl c (v # vs) cur =
    (let c = sp_separator env c (cur = 0) in
     bind_res
       (if cur = want then target c v else fj_splice_write_full env c v (remaining - 1) (lvl + 1))
       (\<lambda>c. write_at_items env target want remaining lvl c vs (cur + 1)))"

text \<open>The loop of \<open>fj_splice_write_object\<close>: \<open>seg\<close> is the target key, \<open>last\<close> whether it is the last
  segment, \<open>target\<close> what writes the target's value. The result carries \<open>first\<close> and \<open>matched\<close>.\<close>

fun write_at_members :: "env \<Rightarrow> fj_ptr_seg \<Rightarrow> bool \<Rightarrow> (fj_splice_ctx \<Rightarrow> yyval \<Rightarrow> splice_res) \<Rightarrow> nat \<Rightarrow> nat
    \<Rightarrow> fj_splice_ctx \<Rightarrow> ((bytes \<times> bool) \<times> yyval) list \<Rightarrow> bool \<Rightarrow> bool
    \<Rightarrow> fj_splice_ctx + (fj_splice_ctx \<times> bool \<times> bool)" where
  "write_at_members env seg is_last target remaining lvl c [] first matched = Inr (c, first, matched)"
| "write_at_members env seg is_last target remaining lvl c ((k, v) # ms) first matched =
    (let is_target = fj_seg_key_eq k seg 0 in
     if is_target \<and> matched then Inl (c\<lparr>sp_status := FJ_SPLICE_AMBIGUOUS, sp_settable := False\<rparr>)
     else if is_target \<and> is_last then
       bind_res (fj_splice_write_string env (sp_separator env c first) seg) (\<lambda>c.
         bind_res (target (sp_colon c) v)
           (\<lambda>c. write_at_members env seg is_last target remaining lvl c ms False True))
     else if is_target \<and> \<not> yyjson_is_ctn v then Inl (c\<lparr>sp_settable := False\<rparr>)
     else
       bind_res (fj_splice_write_string env (sp_separator env c first) (fst k)) (\<lambda>c.
         bind_res
           (if is_target then target (sp_colon c) v
            else fj_splice_write_full env (sp_colon c) v (remaining - 1) (lvl + 1))
           (\<lambda>c. write_at_members env seg is_last target remaining lvl c ms False (matched \<or> is_target))))"

text \<open>\<open>fj_splice_write_at\<close>, with \<open>fj_splice_write_object\<close> and \<open>fj_splice_write_array\<close> around the loops.\<close>

function fj_splice_write_at :: "env \<Rightarrow> fj_splice_ctx \<Rightarrow> yyval \<Rightarrow> nat \<Rightarrow> nat \<Rightarrow> nat \<Rightarrow> splice_res" where
  "fj_splice_write_at env c v seg_idx remaining lvl =
    (if remaining \<le> 1 then sp_fail c FJ_SPLICE_DEPTH_FAIL
     else if \<not> stack_ok env lvl then sp_fail c FJ_SPLICE_DEPTH_FAIL
     else if length (sp_segs c) \<le> seg_idx then fj_splice_write_full env c v remaining (lvl + 1)
     else
       let seg = sp_segs c ! seg_idx;
           is_last = (seg_idx = length (sp_segs c) - 1);
           target = (\<lambda>c v. if is_last then fj_splice_write_replacement env c (remaining - 1) (lvl + 2)
                     else fj_splice_write_at env c v (seg_idx + 1) (remaining - 1) (lvl + 2))
       in case v of
         YObj ms \<Rightarrow>
           if \<not> stack_ok env (lvl + 1) then sp_fail c FJ_SPLICE_DEPTH_FAIL
           else bind_res (write_at_members env seg is_last target remaining (lvl + 1) (sp_open c 0x7B False) ms True False)
             (\<lambda>(c, first, matched).
               bind_res
                 (if matched then Inr c
                  else bind_res (fj_splice_write_string env (sp_separator env c first) seg) (\<lambda>c.
                    if is_last then fj_splice_write_replacement env (sp_colon c) (remaining - 1) (lvl + 2)
                    else fj_splice_build_suffix env (sp_colon c) seg_idx (remaining - 1) (lvl + 2)))
                 (\<lambda>c. Inr (sp_close env c 0x7D False)))
       | YArr items \<Rightarrow>
           if \<not> stack_ok env (lvl + 1) then sp_fail c FJ_SPLICE_DEPTH_FAIL
           else (case fj_seg_is_index (size_max env) seg of
               None \<Rightarrow> Inl (c\<lparr>sp_settable := False\<rparr>)
             | Some want \<Rightarrow>
                 if length items \<le> want then Inl (c\<lparr>sp_settable := False\<rparr>)
                 else bind_res (write_at_items env target want remaining (lvl + 1) (sp_open c 0x5B False) items 0)
                   (\<lambda>c. Inr (sp_close env c 0x5D False)))
       | _ \<Rightarrow> Inl (c\<lparr>sp_settable := False\<rparr>))"
  by pat_completeness auto
termination
  by (relation "measure (\<lambda>(_, _, _, _, remaining, _). remaining)") auto

declare fj_splice_write_at.simps [simp del]

subsection \<open>The entry point\<close>

definition fastjson_imut_pointer_set_write ::
    "env \<Rightarrow> yyval \<Rightarrow> fj_ptr_seg list \<Rightarrow> fastjson_pointer_repl \<Rightarrow> zend_long \<Rightarrow> nat \<Rightarrow> fj_splice_status + bytes" where
  "fastjson_imut_pointer_set_write env root segs replacement flags depth_limit =
    (let c = \<lparr>sp_buf = [], sp_flags = flags, sp_yflags = fastjson_translate_write_flags flags True,
              sp_pretty = has_flag flags FASTJSON_ENCODE_PRETTY_PRINT, sp_indent = 0,
              sp_replacement = replacement, sp_segs = segs, sp_status = FJ_SPLICE_OK, sp_settable = segs \<noteq> []\<rparr>
     in if segs = [] then
          (case fj_splice_write_replacement env c depth_limit 1 of
             Inl c \<Rightarrow> Inl (if sp_status c = FJ_SPLICE_OK then FJ_SPLICE_WRITE_FAIL else sp_status c)
           | Inr c \<Rightarrow> Inr (sp_buf c))
        else
          (case fj_splice_write_at env c root 0 depth_limit 1 of
             Inl c \<Rightarrow> Inl (if sp_status c \<noteq> FJ_SPLICE_OK then sp_status c
                          else if sp_settable c then FJ_SPLICE_WRITE_FAIL else FJ_SPLICE_SETTABLE_FAIL)
           | Inr c \<Rightarrow> Inr (sp_buf c)))"

end
