(* ===== verification/SpliceCorrect.thy ===== *)
theory SpliceCorrect
  imports Splice
begin

text \<open>
  What the splice writer prints. The specification is a printer of value trees, \<open>json_text\<close>, with no
  buffer, status, depth budget or path in it. The writer of an unchanged value refines it, and the
  writer along a path prints exactly the printer's text of the tree \<open>ptr_put\<close> specifies.
\<close>

subsection \<open>The printer\<close>

record style =
  st_flags :: zend_long
  st_yflags :: yyjson_write_flag
  st_pretty :: bool

definition style_of :: "fj_splice_ctx \<Rightarrow> style" where
  "style_of c = \<lparr>st_flags = sp_flags c, st_yflags = sp_yflags c, st_pretty = sp_pretty c\<rparr>"

fun join2 :: "bytes option \<Rightarrow> bytes option \<Rightarrow> bytes option" where
  "join2 None b = None"
| "join2 (Some x) b = map_option ((@) x) b"

definition string_text :: "style \<Rightarrow> bytes \<Rightarrow> bytes option" where
  "string_text st s =
    (if utf8_wf s then Some (0x22 # hex_forward (st_flags st) (esc_body (st_yflags st) s) @ [0x22]) else None)"

definition nl_text :: "style \<Rightarrow> int \<Rightarrow> bytes" where
  "nl_text st ind = (if st_pretty st then 0x0A # replicate (nat ind * 4) 0x20 else [])"

definition sep_text :: "style \<Rightarrow> int \<Rightarrow> bool \<Rightarrow> bytes" where
  "sep_text st ind first = (if first then [] else [0x2C]) @ nl_text st ind"

definition colon_text :: "style \<Rightarrow> bytes" where
  "colon_text st = 0x3A # (if st_pretty st then [0x20] else [])"

definition ctn_text :: "style \<Rightarrow> int \<Rightarrow> byte \<Rightarrow> byte \<Rightarrow> bool \<Rightarrow> bytes option \<Rightarrow> bytes option" where
  "ctn_text st ind left right emp body =
    map_option (\<lambda>b. [left] @ b @ (if emp then [] else nl_text st ind) @ [right]) body"

definition number_text :: "env \<Rightarrow> yyval \<Rightarrow> bytes option" where
  "number_text env v = (case v of YReal w \<Rightarrow> if f64_isfinite w then write_number env v else None | _ \<Rightarrow> write_number env v)"

fun json_text :: "env \<Rightarrow> style \<Rightarrow> int \<Rightarrow> yyval \<Rightarrow> bytes option"
  and items_text :: "env \<Rightarrow> style \<Rightarrow> int \<Rightarrow> bool \<Rightarrow> yyval list \<Rightarrow> bytes option"
  and members_text :: "env \<Rightarrow> style \<Rightarrow> int \<Rightarrow> bool \<Rightarrow> ((bytes \<times> bool) \<times> yyval) list \<Rightarrow> bytes option" where
  "json_text env st ind YNull = Some (ascii ''null'')"
| "json_text env st ind (YBool b) = Some (if b then ascii ''true'' else ascii ''false'')"
| "json_text env st ind (YUint n) = number_text env (YUint n)"
| "json_text env st ind (YSint n) = number_text env (YSint n)"
| "json_text env st ind (YReal n) = number_text env (YReal n)"
| "json_text env st ind (YRaw raw) = (if raw_overflows env raw then None else Some raw)"
| "json_text env st ind (YStr s t) = string_text st s"
| "json_text env st ind (YArr items) = ctn_text st ind 0x5B 0x5D (items = []) (items_text env st (ind + 1) True items)"
| "json_text env st ind (YObj ms) = ctn_text st ind 0x7B 0x7D (ms = []) (members_text env st (ind + 1) True ms)"
| "items_text env st ind first [] = Some []"
| "items_text env st ind first (v # vs) =
    join2 (Some (sep_text st ind first)) (join2 (json_text env st ind v) (items_text env st ind False vs))"
| "members_text env st ind first [] = Some []"
| "members_text env st ind first (((k, t), v) # ms) =
    join2 (Some (sep_text st ind first)) (join2 (string_text st k) (join2 (Some (colon_text st))
      (join2 (json_text env st ind v) (members_text env st ind False ms))))"

text \<open>Nesting depth; a container needs one level below it even when it is empty.\<close>

fun vdepth :: "yyval \<Rightarrow> nat" where
  "vdepth (YArr items) = Suc (foldr max (map vdepth items) 1)"
| "vdepth (YObj ms) = Suc (foldr max (map (\<lambda>m. vdepth (snd m)) ms) 1)"
| "vdepth _ = 1"

lemma less_foldr_max: "n < foldr max (map f xs) 1 \<longleftrightarrow> n < (1 :: nat) \<or> list_ex (\<lambda>x. n < f x) xs"
  by (induction xs) auto

lemma vdepth_pos: "0 < vdepth v"
  by (cases v) simp_all

lemma vdepth_ctn:
  "rd \<noteq> 0 \<Longrightarrow> rd < vdepth (YArr items) \<longleftrightarrow> rd \<le> 1 \<or> list_ex (\<lambda>v. rd - 1 < vdepth v) items"
  "rd \<noteq> 0 \<Longrightarrow> rd < vdepth (YObj ms) \<longleftrightarrow> rd \<le> 1 \<or> list_ex (\<lambda>m. rd - 1 < vdepth (snd m)) ms"
  using less_foldr_max [of "rd - 1" vdepth items] less_foldr_max [of "rd - 1" "\<lambda>m. vdepth (snd m)" ms]
  by (cases rd; auto)+

lemma join2_assoc: "join2 (join2 a b) c = join2 a (join2 b c)"
  by (cases a; cases b; cases c) simp_all

lemma join2_Some: "join2 a b = Some w \<longleftrightarrow> (\<exists>x y. a = Some x \<and> b = Some y \<and> w = x @ y)"
  by (cases a; cases b) auto

lemma join2_None: "join2 a b = None \<longleftrightarrow> a = None \<or> b = None"
  by (cases a; cases b) auto

lemma join2_Nil [simp]: "join2 (Some []) b = b" "join2 a (Some []) = a"
  by (cases b; simp) (cases a; simp)

lemma join2_append [simp]: "join2 (Some x) (join2 (Some y) b) = join2 (Some (x @ y)) b"
  by (cases b) simp_all

subsection \<open>Outcomes\<close>

definition ext :: "fj_splice_ctx \<Rightarrow> bytes \<Rightarrow> fj_splice_ctx" where
  "ext c w = c\<lparr>sp_buf := sp_buf c @ w\<rparr>"

lemma ext_simps [simp]:
  "ext (ext c v) w = ext c (v @ w)" "ext c [] = c" "style_of (ext c w) = style_of c" "sp_indent (ext c w) = sp_indent c"
  "sp_replacement (ext c w) = sp_replacement c" "sp_segs (ext c w) = sp_segs c" "sp_settable (ext c w) = sp_settable c"
  "sp_yflags (ext c w) = sp_yflags c" "sp_pretty (ext c w) = sp_pretty c" "sp_buf (ext c w) = sp_buf c @ w"
  "sp_flags (ext c w) = sp_flags c" "sp_status (ext c w) = sp_status c"
  by (simp_all add: ext_def style_of_def)

text \<open>A step on \<open>c\<close> that should append \<open>t\<close>: it does, or fails because the budget is too small (\<open>deep\<close>),
  because there is nothing valid to print, or for want of room in the buffer.\<close>

definition outcome :: "fj_splice_ctx \<Rightarrow> bytes option \<Rightarrow> bool \<Rightarrow> splice_res \<Rightarrow> bool" where
  "outcome c t deep r \<longleftrightarrow>
    (case r of
       Inr c' \<Rightarrow> \<not> deep \<and> (\<exists>w. t = Some w \<and> c' = ext c w)
     | Inl c' \<Rightarrow> sp_settable c' = sp_settable c \<and>
         (sp_status c' = FJ_SPLICE_TOO_LARGE \<or> deep \<and> sp_status c' = FJ_SPLICE_DEPTH_FAIL \<or>
          t = None \<and> (sp_status c' = FJ_SPLICE_INVALID_UTF8 \<or> sp_status c' = FJ_SPLICE_INF_OR_NAN \<or>
            sp_status c' = sp_status c)))"

lemma outcome_Inr [simp]: "outcome c (Some w) False (Inr c') \<longleftrightarrow> c' = ext c w"
  by (auto simp: outcome_def)

lemma outcome_bind:
  assumes "outcome c t d r" and "\<And>w. t = Some w \<Longrightarrow> r = Inr (ext c w) \<Longrightarrow> outcome (ext c w) t' d' (f (ext c w))"
  shows "outcome c (join2 t t') (d \<or> d') (bind_res r f)"
proof (cases r)
  case (Inl e)
  with assms(1) show ?thesis by (auto simp: outcome_def)
next
  case (Inr c')
  with assms(1) obtain w where w: "t = Some w" "c' = ext c w" "\<not> d" by (auto simp: outcome_def)
  with assms(2) [OF w(1)] Inr show ?thesis
    by (auto simp: outcome_def split: sum.splits)
qed

lemma outcome_prepend:
  "outcome (ext c w) t d r \<Longrightarrow> outcome c (join2 (Some w) t) d r"
  by (auto simp: outcome_def split: sum.splits)

definition valid_ctx :: "env \<Rightarrow> fj_splice_ctx \<Rightarrow> bool" where
  "valid_ctx env c \<longleftrightarrow> \<not> has_flg (sp_yflags c) YYJSON_WRITE_ALLOW_INVALID_UNICODE \<and> 5 \<le> zstr_max env"

lemma valid_ext [simp]: "valid_ctx env (ext c w) = valid_ctx env c"
  by (simp add: valid_ctx_def)

subsection \<open>Leaves\<close>

lemma sp_append_ext: "sp_append c w = ext c w"
  by (simp add: sp_append_def ext_def)

lemma newline_text: "fastjson_append_newline_indent zmax buf level = buf @ 0x0A # replicate (nat level * 4) 0x20"
proof -
  have "concat (replicate n [0x20, 0x20, 0x20, 0x20]) = replicate (n * 4) (0x20 :: byte)" for n
    by (induction n) (simp_all add: numeral_eq_Suc)
  then show ?thesis by (simp add: fastjson_append_newline_indent_def)
qed

lemma sp_newline: "fj_splice_newline_indent env c = ext c (0x0A # replicate (nat (sp_indent c) * 4) 0x20)"
  by (simp add: fj_splice_newline_indent_def newline_text ext_def)

lemma sp_separator_ext: "sp_separator env c first = ext c (sep_text (style_of c) (sp_indent c) first)"
  by (simp add: sp_separator_def sep_text_def nl_text_def sp_append_ext sp_newline style_of_def)

lemma sp_colon_ext: "sp_colon c = ext c (colon_text (style_of c))"
  by (simp add: sp_colon_def colon_text_def sp_append_ext style_of_def)

lemma hex_mask_0:
  "flags AND FASTJSON_ENCODE_HEX_MASK = 0 \<Longrightarrow> hex_forward flags (esc_body yf s) = esc_body yf s"
proof -
  assume m: "flags AND FASTJSON_ENCODE_HEX_MASK = 0"
  have no: "\<not> has_flag flags f" if "FASTJSON_ENCODE_HEX_MASK AND f = f" for f
  proof -
    have "flags AND f = (flags AND FASTJSON_ENCODE_HEX_MASK) AND f"
      by (simp only: and.assoc that)
    then show ?thesis by (simp add: m has_flag_def)
  qed
  have f: "\<not> has_flag flags FASTJSON_ENCODE_HEX_TAG" "\<not> has_flag flags FASTJSON_ENCODE_HEX_AMP"
    "\<not> has_flag flags FASTJSON_ENCODE_HEX_APOS" "\<not> has_flag flags FASTJSON_ENCODE_HEX_QUOT"
    by (rule no; simp add: FASTJSON_ENCODE_HEX_MASK_def FASTJSON_ENCODE_HEX_TAG_def FASTJSON_ENCODE_HEX_AMP_def
        FASTJSON_ENCODE_HEX_APOS_def FASTJSON_ENCODE_HEX_QUOT_def)+
  obtain ts where ts: "list_all json_token ts" "esc_body yf s = concat ts"
    using tokenized_body [of yf s] by (auto simp: tokens_of_def)
  have "hex_token flags t = t" for t using f by (simp add: hex_token_def hex_special_def)
  then have "map (hex_token flags) ts = ts" by (simp add: map_idI)
  then show ?thesis using hex_forward_tokens [OF ts(1), of flags "[]"] ts(2) by simp
qed

lemma hex_step:
  assumes v: "valid_ctx env c" and w: "utf8_wf s"
  shows "outcome c (string_text (style_of c) s) False
    (fj_splice_apply_hex_escapes env (ext c (0x22 # esc_body (sp_yflags c) s @ [0x22])) (length (sp_buf c)))"
proof (cases "sp_flags c AND FASTJSON_ENCODE_HEX_MASK = 0")
  case True
  then show ?thesis
    using w by (simp add: fj_splice_apply_hex_escapes_def string_text_def style_of_def hex_mask_0)
next
  case False
  have z: "5 \<le> zstr_max env" using v by (simp add: valid_ctx_def)
  show ?thesis
    using w False apply_body [OF z, of "sp_buf c" "sp_yflags c" s "sp_flags c"]
    by (auto simp: fj_splice_apply_hex_escapes_def string_text_def style_of_def sp_fail_def outcome_def ext_def)
qed

lemma string_outcome:
  assumes v: "valid_ctx env c"
  shows "outcome c (string_text (style_of c) s) False (fj_splice_write_string env c s)"
proof (cases "fastjson_string_wants_sized_writer (buf_cap env (sp_buf c)) (sp_buf c) (length s)")
  case True
  have f: "\<not> has_flg (sp_yflags c) YYJSON_WRITE_ALLOW_INVALID_UNICODE" using v by (simp add: valid_ctx_def)
  obtain st b where r: "fastjson_write_large_json_string (zstr_max env) (sp_buf c) s (sp_yflags c) = (st, b)" by fastforce
  have sw: "string_written (sp_buf c) s (sp_yflags c) (st, b)"
    using large.written [OF f, of "sp_buf c" s "zstr_max env"] r by simp
  show ?thesis
  proof (cases st)
    case FJ_STRING_SIZE_OK
    then have w: "utf8_wf s" "b = sp_buf c @ 0x22 # esc_body (sp_yflags c) s @ [0x22]"
      using sw by (simp_all add: string_written_def)
    then have "c\<lparr>sp_buf := b\<rparr> = ext c (0x22 # esc_body (sp_yflags c) s @ [0x22])" by (simp add: ext_def)
    with hex_step [OF v w(1)] True r FJ_STRING_SIZE_OK show ?thesis
      by (simp add: fj_splice_write_string_def Let_def)
  next
    case FJ_STRING_SIZE_INVALID_UTF8
    with sw True r show ?thesis
      by (simp add: fj_splice_write_string_def Let_def string_written_def sp_fail_def outcome_def string_text_def)
  next
    case FJ_STRING_SIZE_TOO_LARGE
    with True r show ?thesis
      by (simp add: fj_splice_write_string_def Let_def sp_fail_def outcome_def)
  qed
next
  case False
  have f: "\<not> has_flg (sp_yflags c) YYJSON_WRITE_ALLOW_INVALID_UNICODE" using v by (simp add: valid_ctx_def)
  show ?thesis
  proof (cases "utf8_wf s")
    case True
    then show ?thesis
      using False hex_step [OF v True]
      by (auto simp: fj_splice_write_string_def Let_def fj_splice_reserve_def sp_fail_def yy_write_body [OF f]
          sp_append_ext outcome_def)
  next
    case bad: False
    then show ?thesis
      using False
      by (auto simp: fj_splice_write_string_def Let_def fj_splice_reserve_def sp_fail_def yy_write_body [OF f]
          outcome_def string_text_def)
  qed
qed

lemma number_outcome: "outcome c (number_text env v) False (fj_splice_write_number env c v)"
  by (cases v) (auto simp: fj_splice_write_number_def number_text_def fj_splice_reserve_def sp_fail_def outcome_def
      sp_append_ext split: option.splits)

lemma raw_outcome: "outcome c (if raw_overflows env raw then None else Some raw) False (fj_splice_write_raw env c raw)"
  by (auto simp: fj_splice_write_raw_def fj_splice_reserve_def sp_fail_def outcome_def sp_append_ext)

subsection \<open>Unchanged values\<close>

lemma text_flat:
  "\<not> st_pretty st \<Longrightarrow> json_text env st i v = json_text env st j v"
  "\<not> st_pretty st \<Longrightarrow> items_text env st i first vs = items_text env st j first vs"
  "\<not> st_pretty st \<Longrightarrow> members_text env st i first ms = members_text env st j first ms"
proof (induction env st i v and env st i first vs and env st i first ms arbitrary: j and j and j
    rule: json_text_items_text_members_text.induct)
  case (8 env st ind items)
  then show ?case by (simp add: ctn_text_def nl_text_def) metis
next
  case (9 env st ind ms)
  then show ?case by (simp add: ctn_text_def nl_text_def) metis
next
  case (11 env st ind first v vs)
  then show ?case by (simp add: sep_text_def nl_text_def) metis
next
  case (13 env st ind first k t v ms)
  then show ?case by (simp add: sep_text_def nl_text_def) metis
qed simp_all

definition inner :: "fj_splice_ctx \<Rightarrow> bool \<Rightarrow> fj_splice_ctx" where
  "inner c emp = (if sp_pretty c \<and> \<not> emp then c\<lparr>sp_indent := sp_indent c + 1\<rparr> else c)"

lemma sp_open_inner: "sp_open c left emp = inner (ext c [left]) emp"
  by (simp add: sp_open_def inner_def Let_def sp_append_ext)

lemma inner_simps [simp]:
  "style_of (inner c emp) = style_of c" "valid_ctx env (inner c emp) = valid_ctx env c"
  "sp_segs (inner c emp) = sp_segs c" "sp_replacement (inner c emp) = sp_replacement c"
  "sp_settable (inner c emp) = sp_settable c" "sp_status (inner c emp) = sp_status c"
  by (simp_all add: inner_def style_of_def valid_ctx_def)

lemma inner_text:
  "json_text env (style_of c) (sp_indent (inner c False)) v = json_text env (style_of c) (sp_indent c + 1) v"
  "items_text env (style_of c) (sp_indent (inner c (vs = []))) first vs = items_text env (style_of c) (sp_indent c + 1) first vs"
  "members_text env (style_of c) (sp_indent (inner c (ms = []))) first ms = members_text env (style_of c) (sp_indent c + 1) first ms"
proof -
  have "\<not> sp_pretty c \<Longrightarrow> \<not> st_pretty (style_of c)" by (simp add: style_of_def)
  then show "json_text env (style_of c) (sp_indent (inner c False)) v = json_text env (style_of c) (sp_indent c + 1) v"
    "items_text env (style_of c) (sp_indent (inner c (vs = []))) first vs = items_text env (style_of c) (sp_indent c + 1) first vs"
    "members_text env (style_of c) (sp_indent (inner c (ms = []))) first ms = members_text env (style_of c) (sp_indent c + 1) first ms"
    by (auto simp: inner_def intro: text_flat)
qed

lemma sp_close_ext:
  "sp_close env (ext (inner c emp) w) right emp =
    ext c (w @ (if emp then [] else nl_text (style_of c) (sp_indent c)) @ [right])"
  by (auto simp: sp_close_def inner_def Let_def sp_append_ext nl_text_def style_of_def sp_newline ext_def)

lemma ctn_outcome:
  assumes "outcome (inner (ext c [left]) emp) body deep r"
  shows "outcome c (ctn_text (style_of c) (sp_indent c) left right emp body) deep
    (bind_res r (\<lambda>c. Inr (sp_close env c right emp)))"
proof (cases r)
  case (Inl e)
  with assms show ?thesis by (auto simp: outcome_def ctn_text_def)
next
  case (Inr c')
  with assms obtain w where "body = Some w" "c' = ext (inner (ext c [left]) emp) w" "\<not> deep"
    by (auto simp: outcome_def)
  with Inr show ?thesis by (simp add: ctn_text_def sp_close_ext)
qed

lemma full_outcome:
  "stack_ok env = (\<lambda>_. True) \<Longrightarrow> valid_ctx env c \<Longrightarrow>
     outcome c (json_text env (style_of c) (sp_indent c) v) (rd < vdepth v) (fj_splice_write_full env c v rd lvl)"
  "stack_ok env = (\<lambda>_. True) \<Longrightarrow> valid_ctx env c \<Longrightarrow>
     outcome c (items_text env (style_of c) (sp_indent c) first vs) (list_ex (\<lambda>v. rd < vdepth v) vs)
       (write_full_items env c vs rd lvl first)"
  "stack_ok env = (\<lambda>_. True) \<Longrightarrow> valid_ctx env c \<Longrightarrow>
     outcome c (members_text env (style_of c) (sp_indent c) first ms) (list_ex (\<lambda>m. rd < vdepth (snd m)) ms)
       (write_full_members env c ms rd lvl first)"
proof (induction env c v rd lvl and env c vs rd lvl first and env c ms rd lvl first
    rule: fj_splice_write_full_write_full_items_write_full_members.induct)
  case (1 env c v rd lvl)
  show ?case
  proof (cases "rd = 0")
    case True
    then show ?thesis using vdepth_pos [of v] by (simp add: sp_fail_def outcome_def)
  next
    case rd: False
    show ?thesis
    proof (cases v)
      case (YArr items)
      show ?thesis
      proof (cases "rd \<le> 1")
        case True
        with rd YArr "1.prems" show ?thesis by (simp add: sp_fail_def outcome_def vdepth_ctn del: vdepth.simps)
      next
        case False
        have "outcome (inner (ext c [0x5B]) (items = []))
            (items_text env (style_of c) (sp_indent (inner (ext c [0x5B]) (items = []))) True items)
            (list_ex (\<lambda>v. rd - 1 < vdepth v) items)
            (write_full_items env (inner (ext c [0x5B]) (items = [])) items (rd - 1) (lvl + 2) True)"
          using "1.IH"(1) [OF rd _ YArr False] "1.prems" by (simp add: sp_open_inner)
        from ctn_outcome [OF this, where right = "0x5D" and env = env]
        show ?thesis
          using rd False YArr "1.prems" inner_text(2) [of env "ext c [0x5B]" items True]
          by (simp add: sp_open_inner vdepth_ctn del: vdepth.simps)
      qed
    next
      case (YObj ms)
      show ?thesis
      proof (cases "rd \<le> 1")
        case True
        with rd YObj "1.prems" show ?thesis by (simp add: sp_fail_def outcome_def vdepth_ctn del: vdepth.simps)
      next
        case False
        have "outcome (inner (ext c [0x7B]) (ms = []))
            (members_text env (style_of c) (sp_indent (inner (ext c [0x7B]) (ms = []))) True ms)
            (list_ex (\<lambda>m. rd - 1 < vdepth (snd m)) ms)
            (write_full_members env (inner (ext c [0x7B]) (ms = [])) ms (rd - 1) (lvl + 2) True)"
          using "1.IH"(2) [OF rd _ YObj False] "1.prems" by (simp add: sp_open_inner)
        from ctn_outcome [OF this, where right = "0x7D" and env = env]
        show ?thesis
          using rd False YObj "1.prems" inner_text(3) [of env "ext c [0x7B]" ms True]
          by (simp add: sp_open_inner vdepth_ctn del: vdepth.simps)
      qed
    next
      case (YStr s t)
      then show ?thesis using rd "1.prems" string_outcome [OF "1.prems"(2), of s] by simp
    next
      case (YRaw raw)
      then show ?thesis using rd "1.prems" raw_outcome [of c env raw] by simp
    next
      case (YUint n)
      then show ?thesis using rd "1.prems" number_outcome [of c env "YUint n"] by simp
    next
      case (YSint n)
      then show ?thesis using rd "1.prems" number_outcome [of c env "YSint n"] by simp
    next
      case (YReal n)
      then show ?thesis using rd "1.prems" number_outcome [of c env "YReal n"] by simp
    qed (use rd "1.prems" in \<open>simp_all add: sp_append_ext\<close>)
  qed
next
  case (3 env c v vs rd lvl first)
  let ?c = "ext c (sep_text (style_of c) (sp_indent c) first)"
  have "outcome ?c (join2 (json_text env (style_of c) (sp_indent c) v) (items_text env (style_of c) (sp_indent c) False vs))
      (rd < vdepth v \<or> list_ex (\<lambda>v. rd < vdepth v) vs)
      (bind_res (fj_splice_write_full env ?c v rd lvl) (\<lambda>c. write_full_items env c vs rd lvl False))"
    by (rule outcome_bind) (use "3.IH" "3.prems" in \<open>simp_all add: sp_separator_ext\<close>)
  from outcome_prepend [OF this] show ?case by (simp add: sp_separator_ext)
next
  case (5 env c k t v ms rd lvl first)
  let ?st = "style_of c" and ?i = "sp_indent c"
  let ?c = "ext c (sep_text ?st ?i first)"
  have body: "outcome (ext ?c w) (join2 (Some (colon_text ?st)) (join2 (json_text env ?st ?i v) (members_text env ?st ?i False ms)))
      (rd < vdepth v \<or> list_ex (\<lambda>m. rd < vdepth (snd m)) ms)
      (bind_res (fj_splice_write_full env (sp_colon (ext ?c w)) v rd lvl) (\<lambda>c. write_full_members env c ms rd lvl False))"
    if r: "fj_splice_write_string env ?c k = Inr (ext ?c w)" for w
  proof (rule outcome_prepend, rule outcome_bind)
    let ?d = "ext (ext ?c w) (colon_text ?st)"
    show "outcome ?d (json_text env ?st ?i v) (rd < vdepth v) (fj_splice_write_full env (sp_colon (ext ?c w)) v rd lvl)"
      using "5.IH"(1) [of "ext ?c w"] r "5.prems" by (simp add: sp_separator_ext sp_colon_ext)
    fix u assume "fj_splice_write_full env (sp_colon (ext ?c w)) v rd lvl = Inr (ext ?d u)"
    then show "outcome (ext ?d u) (members_text env ?st ?i False ms) (list_ex (\<lambda>m. rd < vdepth (snd m)) ms)
        (write_full_members env (ext ?d u) ms rd lvl False)"
      using "5.IH"(2) [of "ext ?c w" "ext ?d u"] r "5.prems" by (simp add: sp_separator_ext sp_colon_ext)
  qed
  have "outcome ?c (join2 (string_text ?st k) (join2 (Some (colon_text ?st)) (join2 (json_text env ?st ?i v) (members_text env ?st ?i False ms))))
      (False \<or> (rd < vdepth v \<or> list_ex (\<lambda>m. rd < vdepth (snd m)) ms))
      (bind_res (fj_splice_write_string env ?c k) (\<lambda>c.
        bind_res (fj_splice_write_full env (sp_colon c) v rd lvl) (\<lambda>c. write_full_members env c ms rd lvl False)))"
  proof (rule outcome_bind)
    show "outcome ?c (string_text ?st k) False (fj_splice_write_string env ?c k)"
      using string_outcome [of env ?c k] "5.prems" by simp
  qed (rule body)
  from outcome_prepend [OF this] show ?case by (simp add: sp_separator_ext)
qed simp_all

subsection \<open>Re-indenting encoded text\<close>

definition reindent :: "nat \<Rightarrow> bytes \<Rightarrow> bytes" where
  "reindent k src = concat (map (\<lambda>b. if b = 0x0A then 0x0A # replicate k 0x20 else [b]) src)"

lemma reindent_simps [simp]:
  "reindent k [] = []" "reindent k (a @ b) = reindent k a @ reindent k b"
  by (simp_all add: reindent_def)

lemma reindent_clean: "0x0A \<notin> set src \<Longrightarrow> reindent k src = src"
  by (induction src) (auto simp: reindent_def)

lemma reindent_0: "reindent 0 src = src"
  by (induction src) (auto simp: reindent_def)

text \<open>No number of the value prints a line break; strings never do.\<close>

fun line_clean :: "env \<Rightarrow> yyval \<Rightarrow> bool" where
  "line_clean env (YArr items) \<longleftrightarrow> list_all (line_clean env) items"
| "line_clean env (YObj ms) \<longleftrightarrow> list_all (\<lambda>m. line_clean env (snd m)) ms"
| "line_clean env (YRaw raw) \<longleftrightarrow> 0x0A \<notin> set raw"
| "line_clean env (YStr s t) \<longleftrightarrow> True"
| "line_clean env (YBool b) \<longleftrightarrow> True"
| "line_clean env YNull \<longleftrightarrow> True"
| "line_clean env v \<longleftrightarrow> (case number_text env v of None \<Rightarrow> True | Some w \<Rightarrow> 0x0A \<notin> set w)"

lemma token_no_newline: "json_token t \<Longrightarrow> 0x0A \<notin> set (hex_token flags t)"
proof -
  have h: "hex_val b \<noteq> None \<Longrightarrow> b \<noteq> 0x0A" for b by (auto simp: hex_val_def)
  have u: "0x0A \<notin> set (hex_u00 a b)" if "a \<noteq> 0x0A" "b \<noteq> 0x0A" for a b using that by (simp add: hex_u00_def)
  show "json_token t \<Longrightarrow> ?thesis"
    unfolding json_token_def
  proof (elim disjE exE conjE)
    fix c assume "t = [c]" "plain_byte c"
    then show ?thesis using u by (auto simp: hex_token_def plain_byte_def)
  next
    fix e assume "t = [0x5C, e]" "e \<in> {0x22, 0x5C, 0x2F, 0x62, 0x66, 0x6E, 0x72, 0x74}"
    then show ?thesis using u by (auto simp: hex_token_def)
  next
    fix a b c d assume "t = [0x5C, 0x75, a, b, c, d]" "list_all (\<lambda>h. hex_val h \<noteq> None) [a, b, c, d]"
    then show ?thesis using h [of a] h [of b] h [of c] h [of d] by (auto simp: hex_token_def)
  qed
qed

lemma string_text_no_newline: "string_text st s = Some w \<Longrightarrow> 0x0A \<notin> set w"
proof -
  obtain ts where ts: "list_all json_token ts" "esc_body (st_yflags st) s = concat ts"
    using tokenized_body [of "st_yflags st" s] by (auto simp: tokens_of_def)
  have "0x0A \<notin> set (concat (map (hex_token (st_flags st)) ts))"
    using ts(1) token_no_newline by (auto simp: list_all_iff)
  then show "string_text st s = Some w \<Longrightarrow> ?thesis"
    using hex_forward_tokens [OF ts(1), of "st_flags st" "[]"] ts(2) by (auto simp: string_text_def split: if_splits)
qed

lemma nl_reindent:
  "st_pretty st \<Longrightarrow> 0 \<le> i \<Longrightarrow> 0 \<le> j \<Longrightarrow> nl_text st (i + j) = reindent (nat j * 4) (nl_text st i)"
proof -
  assume "st_pretty st" "0 \<le> i" "0 \<le> j"
  moreover have "reindent k (replicate n 0x20) = replicate n 0x20" for k n
    by (rule reindent_clean) simp
  moreover have "reindent k (0x0A # x) = (0x0A # replicate k 0x20) @ reindent k x" for k x
    by (simp add: reindent_def)
  ultimately show ?thesis
    by (simp add: nl_text_def nat_add_distrib replicate_add [symmetric] add_mult_distrib add.commute)
qed

lemma sep_reindent:
  "st_pretty st \<Longrightarrow> 0 \<le> i \<Longrightarrow> 0 \<le> j \<Longrightarrow> sep_text st (i + j) first = reindent (nat j * 4) (sep_text st i first)"
  by (simp add: sep_text_def nl_reindent reindent_clean)

lemma map_option_reindent_join:
  "map_option (reindent k) (join2 a b) = join2 (map_option (reindent k) a) (map_option (reindent k) b)"
  by (cases a; cases b) simp_all

lemma map_option_reindent_app:
  "map_option (reindent k) (map_option ((@) x) a) = map_option ((@) (reindent k x)) (map_option (reindent k) a)"
  by (cases a) simp_all

lemma map_reindent_clean: "(\<And>w. t = Some w \<Longrightarrow> 0x0A \<notin> set w) \<Longrightarrow> map_option (reindent k) t = t"
  by (cases t) (simp_all add: reindent_clean)

lemma ctn_reindent:
  "st_pretty st \<Longrightarrow> 0 \<le> i \<Longrightarrow> 0 \<le> j \<Longrightarrow> l \<noteq> 0x0A \<Longrightarrow> r \<noteq> 0x0A \<Longrightarrow>
   ctn_text st (i + j) l r emp (map_option (reindent (nat j * 4)) body) =
     map_option (reindent (nat j * 4)) (ctn_text st i l r emp body)"
  by (cases body) (simp_all add: ctn_text_def nl_reindent reindent_clean, simp add: reindent_def)

lemma text_reindent:
  "st_pretty st \<Longrightarrow> 0 \<le> i \<Longrightarrow> 0 \<le> j \<Longrightarrow> line_clean env v \<Longrightarrow>
     json_text env st (i + j) v = map_option (reindent (nat j * 4)) (json_text env st i v)"
  "st_pretty st \<Longrightarrow> 0 \<le> i \<Longrightarrow> 0 \<le> j \<Longrightarrow> list_all (line_clean env) vs \<Longrightarrow>
     items_text env st (i + j) first vs = map_option (reindent (nat j * 4)) (items_text env st i first vs)"
  "st_pretty st \<Longrightarrow> 0 \<le> i \<Longrightarrow> 0 \<le> j \<Longrightarrow> list_all (\<lambda>m. line_clean env (snd m)) ms \<Longrightarrow>
     members_text env st (i + j) first ms = map_option (reindent (nat j * 4)) (members_text env st i first ms)"
proof (induction env st i v and env st i first vs and env st i first ms rule: json_text_items_text_members_text.induct)
  case (8 env st ind items)
  then have b: "items_text env st (ind + 1 + j) True items = map_option (reindent (nat j * 4)) (items_text env st (ind + 1) True items)"
    by simp
  have i: "ind + j + 1 = ind + 1 + j" by simp
  show ?case unfolding json_text.simps i b by (rule ctn_reindent) (use 8 in simp_all)
next
  case (9 env st ind ms)
  then have b: "members_text env st (ind + 1 + j) True ms = map_option (reindent (nat j * 4)) (members_text env st (ind + 1) True ms)"
    by simp
  have i: "ind + j + 1 = ind + 1 + j" by simp
  show ?case unfolding json_text.simps i b by (rule ctn_reindent) (use 9 in simp_all)
next
  case (11 env st ind first v vs)
  then show ?case by (simp add: map_option_reindent_join map_option_reindent_app sep_reindent)
next
  case (13 env st ind first k t v ms)
  have "map_option (reindent m) (string_text st k) = string_text st k" for m
    using string_text_no_newline by (intro map_reindent_clean)
  moreover have "reindent m (colon_text st) = colon_text st" for m
    by (rule reindent_clean) (simp add: colon_text_def)
  ultimately show ?case using 13
    by (simp add: map_option_reindent_join map_option_reindent_app sep_reindent del: join2_append)
next
  case (7 env st ind s t)
  have "map_option (reindent m) (string_text st s) = string_text st s" for m
    using string_text_no_newline by (intro map_reindent_clean)
  then show ?case by simp
qed (auto simp: ascii_def reindent_clean intro!: map_reindent_clean [symmetric] split: option.splits)

lemma reindent_loop_outcome:
  "0x0A \<notin> set chunk \<Longrightarrow> outcome c (Some (reindent spaces (chunk @ src))) False (reindent_loop env spaces c src chunk)"
proof (induction env spaces c src chunk rule: reindent_loop.induct)
  case (1 env spaces c chunk)
  then show ?case
    by (auto simp: fj_splice_reserve_def sp_fail_def outcome_def sp_append_ext reindent_clean)
next
  case (2 env spaces c b rest chunk)
  show ?case
  proof (cases "b = 0x0A")
    case False
    with 2 show ?thesis by simp
  next
    case True
    show ?thesis
    proof (cases "zstr_max env - length (sp_buf c) < length (chunk @ [b]) + spaces")
      case big: True
      then show ?thesis using True by (simp add: fj_splice_reserve_def sp_fail_def outcome_def)
    next
      case False
      then have r: "fj_splice_reserve env c (length (chunk @ [b]) + spaces) = Inr c"
        by (simp add: fj_splice_reserve_def)
      have "outcome (ext c (chunk @ [b] @ replicate spaces 0x20)) (Some (reindent spaces rest)) False
          (reindent_loop env spaces (ext c (chunk @ [b] @ replicate spaces 0x20)) rest [])"
        using "2.IH"(2) [of c] True r by (simp add: sp_append_ext)
      from outcome_prepend [OF this] r True "2.prems" show ?thesis
        by (simp add: sp_append_ext reindent_clean) (simp add: reindent_def)
    qed
  qed
qed

end
