(* ===== verification/Walk.thy ===== *)
theory Walk
  imports KeyCache SpliceCorrect
begin

text \<open>
  From a parsed document to PHP values: the conversions of numbers in fastjson_decode.c and the
  recursive walker of fastjson_walk.inc. The walker is instantiated four times; the mutable and the
  immutable value differ in representation only, so one definition with the flag \<open>san\<close>
  (\<open>FJ_WALK_SANITIZE\<close>) stands for all.

  \<open>zval\<close> is a value the decoder builds: an array is the sequence of its buckets in order, an object a
  \<open>stdClass\<close> with its property table; an integer key is the number its \<open>zend_ulong\<close> holds as a
  \<open>zend_long\<close>. What the engine supplies is a field of \<open>php\<close>: the test for a
  numeric string key, the hash function, whether it can bound the native stack, the C conversions to \<open>double\<close> and \<open>zend_strtod\<close>, on bit patterns.
\<close>

datatype zkey = KInt int | KStr bytes

datatype zval =
    ZNull
  | ZBool bool
  | ZLong "64 word"
  | ZDouble "64 word"
  | ZString bytes
  | ZArray "(zkey \<times> zval) list"
  | ZObject "(bytes \<times> zval) list"

record php =
  platform :: env
  native_stack_limit :: bool
  numeric_str :: "bytes \<Rightarrow> 64 word option"
  hash_of :: hash_func
  u64_to_double :: "64 word \<Rightarrow> 64 word"
  s64_to_double :: "64 word \<Rightarrow> 64 word"
  zend_strtod :: "bytes \<Rightarrow> 64 word"

definition FASTJSON_DECODE_OBJECT_AS_ARRAY :: zend_long where "FASTJSON_DECODE_OBJECT_AS_ARRAY = 0x1"
definition FASTJSON_DECODE_BIGINT_AS_STRING :: zend_long where "FASTJSON_DECODE_BIGINT_AS_STRING = 0x2"
definition FASTJSON_DECODE_THROW_ON_ERROR :: zend_long where "FASTJSON_DECODE_THROW_ON_ERROR = 0x400000"
definition FASTJSON_DECODE_RELAXED :: zend_long where "FASTJSON_DECODE_RELAXED = 0x800000"

definition FASTJSON_HAS_UTF8_HANDLING_FLAG :: "zend_long \<Rightarrow> bool" where
  "FASTJSON_HAS_UTF8_HANDLING_FLAG flags =
    has_flag flags (FASTJSON_INVALID_UTF8_IGNORE OR FASTJSON_INVALID_UTF8_SUBSTITUTE)"

definition ZEND_LONG_MAX :: "64 word" where "ZEND_LONG_MAX = 0x7FFFFFFFFFFFFFFF"
definition ZEND_LONG_MIN :: int where "ZEND_LONG_MIN = -9223372036854775808"

subsection \<open>Numbers\<close>

text \<open>The digits as the loop stores them, the least significant first.\<close>

function dec_tmp :: "64 word \<Rightarrow> bytes" where
  "dec_tmp u = (0x30 + ucast (u mod 10)) # (let u = u div 10 in if u \<noteq> 0 then dec_tmp u else [])"
  by pat_completeness auto
termination
proof (relation "measure unat", goal_cases)
  case (2 u x)
  then have "unat x = unat u div 10" "0 < unat x"
    by (auto simp: unat_div unat_gt_0 simp flip: unat_eq_0)
  then show ?case by simp
qed simp

declare dec_tmp.simps [simp del]

definition fj_write_uint64_dec :: "64 word \<Rightarrow> bytes" where
  "fj_write_uint64_dec u = rev (dec_tmp u)"

definition fj_write_sint64_dec :: "64 word \<Rightarrow> bytes" where
  "fj_write_sint64_dec s =
    (if sint s < 0 then 0x2D # fj_write_uint64_dec (- (s + 1) + 1) else fj_write_uint64_dec s)"

definition fj_num_to_zval :: "php \<Rightarrow> yyval \<Rightarrow> zend_long \<Rightarrow> zval" where
  "fj_num_to_zval p val flags =
    (case val of
       YReal d \<Rightarrow> ZDouble d
     | YUint u \<Rightarrow>
         if u \<le> ZEND_LONG_MAX then ZLong u
         else if has_flag flags FASTJSON_DECODE_BIGINT_AS_STRING then ZString (fj_write_uint64_dec u)
         else ZDouble (u64_to_double p u)
     | YSint s \<Rightarrow>
         if ZEND_LONG_MIN \<le> sint s then ZLong s
         else if has_flag flags FASTJSON_DECODE_BIGINT_AS_STRING then ZString (fj_write_sint64_dec s)
         else ZDouble (s64_to_double p s)
     | _ \<Rightarrow> ZNull)"

definition raw_is_float :: "bytes \<Rightarrow> bool" where
  "raw_is_float raw \<longleftrightarrow> list_ex (\<lambda>c. c = 0x2E \<or> c = 0x65 \<or> c = 0x45) raw"

definition fj_raw_to_zval :: "php \<Rightarrow> bytes \<Rightarrow> zval" where
  "fj_raw_to_zval p raw = (if raw_is_float raw then ZDouble (zend_strtod p raw) else ZString raw)"

subsection \<open>The walker\<close>

text \<open>\<open>zend_hash_update\<close>: a key that is there keeps its place and takes the new value.\<close>

fun hash_update :: "'k \<Rightarrow> 'v \<Rightarrow> ('k \<times> 'v) list \<Rightarrow> ('k \<times> 'v) list" where
  "hash_update k v [] = [(k, v)]"
| "hash_update k v ((k', v') # ht) = (if k' = k then (k, v) # ht else (k', v') # hash_update k v ht)"

definition walk_depth_error :: "fj_request_globals \<Rightarrow> fj_request_globals" where
  "walk_depth_error g = fastjson_set_error_code FASTJSON_ERROR_DEPTH ''Maximum stack depth exceeded'' g"

definition walk_name_error :: "fj_request_globals \<Rightarrow> fj_request_globals" where
  "walk_name_error g =
    fastjson_set_error_code FASTJSON_ERROR_INVALID_PROPERTY_NAME ''The decoded property name is invalid'' g"

definition walk_string :: "bool \<Rightarrow> zend_long \<Rightarrow> bytes \<Rightarrow> bool \<Rightarrow> bytes" where
  "walk_string san flags raw tagged =
    (if san \<and> tagged then fastjson_sanitize_utf8 raw flags FJ_SAN_DECODE else raw)"

text \<open>The key for the table: \<open>fj_share_key\<close>'s string, or the bytes themselves.\<close>

definition walk_key :: "php \<Rightarrow> bytes \<Rightarrow> fj_request_globals \<Rightarrow> bytes \<times> fj_request_globals" where
  "walk_key p use_key g =
    (let (zk, share) = fj_share_key (hash_of p) use_key (key_share g)
     in (case zk of Some r \<Rightarrow> key_bytes r | None \<Rightarrow> use_key, g\<lparr>key_share := share\<rparr>))"

definition insert_array_member :: "php \<Rightarrow> bytes \<Rightarrow> zval \<Rightarrow> (zkey \<times> zval) list \<Rightarrow> fj_request_globals
    \<Rightarrow> (zkey \<times> zval) list \<times> fj_request_globals" where
  "insert_array_member p use_key child ht g =
    (case numeric_str p use_key of
       Some idx \<Rightarrow> (hash_update (KInt (sint idx)) child ht, g)
     | None \<Rightarrow> let (zk, g) = walk_key p use_key g in (hash_update (KStr zk) child ht, g))"

definition insert_property :: "php \<Rightarrow> bytes \<Rightarrow> zval \<Rightarrow> (bytes \<times> zval) list \<Rightarrow> fj_request_globals
    \<Rightarrow> (bytes \<times> zval) list \<times> fj_request_globals" where
  "insert_property p use_key child ht g =
    (let (zk, g) = walk_key p use_key g in (hash_update zk child ht, g))"

text \<open>\<open>lvl\<close> counts the walker's frames on the native stack. A failure is the state of the globals; the
  partial value is dropped by every caller.\<close>

function (sequential) fastjson_yyval_to_zval :: "php \<Rightarrow> bool \<Rightarrow> bool \<Rightarrow> zend_long \<Rightarrow> yyval \<Rightarrow> nat \<Rightarrow> int
    \<Rightarrow> fj_request_globals \<Rightarrow> fj_request_globals + zval \<times> fj_request_globals"
  and walk_items :: "php \<Rightarrow> bool \<Rightarrow> bool \<Rightarrow> zend_long \<Rightarrow> yyval list \<Rightarrow> nat \<Rightarrow> int \<Rightarrow> zval list
    \<Rightarrow> fj_request_globals \<Rightarrow> fj_request_globals + zval list \<times> fj_request_globals"
  and walk_assoc :: "php \<Rightarrow> bool \<Rightarrow> zend_long \<Rightarrow> ((bytes \<times> bool) \<times> yyval) list \<Rightarrow> nat \<Rightarrow> int
    \<Rightarrow> (zkey \<times> zval) list \<Rightarrow> fj_request_globals \<Rightarrow> fj_request_globals + (zkey \<times> zval) list \<times> fj_request_globals"
  and walk_props :: "php \<Rightarrow> bool \<Rightarrow> zend_long \<Rightarrow> ((bytes \<times> bool) \<times> yyval) list \<Rightarrow> nat \<Rightarrow> int
    \<Rightarrow> (bytes \<times> zval) list \<Rightarrow> fj_request_globals \<Rightarrow> fj_request_globals + (bytes \<times> zval) list \<times> fj_request_globals" where
  "fastjson_yyval_to_zval p san assoc flags val lvl remaining_depth g =
    (if remaining_depth \<le> 0 then Inl (walk_depth_error g)
     else case val of
       YNull \<Rightarrow> Inr (ZNull, g)
     | YBool b \<Rightarrow> Inr (ZBool b, g)
     | YUint u \<Rightarrow> Inr (fj_num_to_zval p (YUint u) flags, g)
     | YSint s \<Rightarrow> Inr (fj_num_to_zval p (YSint s) flags, g)
     | YReal d \<Rightarrow> Inr (fj_num_to_zval p (YReal d) flags, g)
     | YRaw raw \<Rightarrow> Inr (fj_raw_to_zval p raw, g)
     | YStr raw tagged \<Rightarrow> Inr (ZString (walk_string san flags raw tagged), g)
     | YArr items \<Rightarrow>
         if \<not> stack_ok (platform p) lvl then Inl (walk_depth_error g)
         else if remaining_depth \<le> 1 then Inl (walk_depth_error g)
         else bind_res (walk_items p san assoc flags items (lvl + 1) (remaining_depth - 1) [] g)
           (\<lambda>(zs, g). Inr (ZArray (map (\<lambda>(i, z). (KInt (int i), z)) (enumerate 0 zs)), g))
     | YObj members \<Rightarrow>
         if \<not> stack_ok (platform p) lvl then Inl (walk_depth_error g)
         else if remaining_depth \<le> 1 then Inl (walk_depth_error g)
         else if assoc then
           bind_res (walk_assoc p san flags members (lvl + 1) (remaining_depth - 1) [] g)
             (\<lambda>(ht, g). Inr (ZArray ht, g))
         else
           bind_res (walk_props p san flags members (lvl + 1) (remaining_depth - 1) [] g)
             (\<lambda>(ht, g). Inr (ZObject ht, g)))"
| "walk_items p san assoc flags [] lvl remaining_depth zs g = Inr (zs, g)"
| "walk_items p san assoc flags (item # items) lvl remaining_depth zs g =
    bind_res (fastjson_yyval_to_zval p san assoc flags item lvl remaining_depth g)
      (\<lambda>(child, g). walk_items p san assoc flags items lvl remaining_depth (zs @ [child]) g)"
| "walk_assoc p san flags [] lvl remaining_depth ht g = Inr (ht, g)"
| "walk_assoc p san flags ((key, vval) # members) lvl remaining_depth ht g =
    (let use_key = walk_string san flags (fst key) (snd key) in
     bind_res (fastjson_yyval_to_zval p san True flags vval lvl remaining_depth g)
      (\<lambda>(child, g). let (ht, g) = insert_array_member p use_key child ht g
         in walk_assoc p san flags members lvl remaining_depth ht g))"
| "walk_props p san flags [] lvl remaining_depth ht g = Inr (ht, g)"
| "walk_props p san flags ((key, vval) # members) lvl remaining_depth ht g =
    (let use_key = walk_string san flags (fst key) (snd key) in
     if use_key \<noteq> [] \<and> hd use_key = 0 then Inl (walk_name_error g)
     else bind_res (fastjson_yyval_to_zval p san False flags vval lvl remaining_depth g)
      (\<lambda>(child, g). let (ht, g) = insert_property p use_key child ht g
         in walk_props p san flags members lvl remaining_depth ht g))"
  by pat_completeness auto
termination
  by (relation "measure (case_sum
      (case_sum (\<lambda>(_, _, _, _, v, _). size v) (\<lambda>(_, _, _, _, vs, _). size_list size vs))
      (case_sum (\<lambda>(_, _, _, ms, _). size_list (size_prod (\<lambda>_. 0) size) ms)
        (\<lambda>(_, _, _, ms, _). size_list (size_prod (\<lambda>_. 0) size) ms)))") auto

declare fastjson_yyval_to_zval.simps [simp del]

subsection \<open>Decimal numbers\<close>

text \<open>The number a digit string denotes.\<close>

definition decimal_value :: "bytes \<Rightarrow> nat" where
  "decimal_value ds = foldl (\<lambda>n c. n * 10 + (unat c - 48)) 0 ds"

lemma digit_byte: "unat (0x30 + ucast ((u :: 64 word) mod 10) :: byte) = 48 + unat u mod 10"
proof -
  have "unat u mod 10 < 10" by simp
  then have "unat u mod 10 mod 256 = unat u mod 10" by simp
  then show ?thesis
    by (simp add: unat_word_ariths unsigned_ucast_eq take_bit_eq_mod unat_mod)
qed

lemma dec_tmp_value: "decimal_value (rev (dec_tmp u)) = unat u"
proof (induction u rule: dec_tmp.induct)
  case (1 u)
  have d: "unat (u div 10) = unat u div 10" by (simp add: unat_div)
  show ?case
  proof (cases "u div 10 = 0")
    case True
    then have "unat u div 10 = 0" using d by simp
    then show ?thesis using True
      by (subst dec_tmp.simps) (simp add: decimal_value_def digit_byte)
  next
    case False
    then have "decimal_value (rev (dec_tmp (u div 10))) = unat u div 10" using 1 d by simp
    then show ?thesis using False
      by (subst dec_tmp.simps) (simp add: decimal_value_def digit_byte)
  qed
qed

lemma dec_tmp_digits: "list_all (\<lambda>c. 0x30 \<le> c \<and> c \<le> 0x39) (dec_tmp u)"
proof (induction u rule: dec_tmp.induct)
  case (1 u)
  have "unat u mod 10 < 10" by simp
  then have "0x30 \<le> (0x30 + ucast (u mod 10) :: byte) \<and> (0x30 + ucast (u mod 10) :: byte) \<le> 0x39"
    unfolding word_le_nat_alt digit_byte by simp
  then show ?case using 1 by (subst dec_tmp.simps) (simp add: Let_def)
qed

text \<open>No leading zero, and at most the digits that fit the code's buffer of 24 bytes.\<close>

lemma dec_tmp_last: "u \<noteq> 0 \<Longrightarrow> last (dec_tmp u) \<noteq> 0x30"
proof (induction u rule: dec_tmp.induct)
  case (1 u)
  show ?case
  proof (cases "u div 10 = 0")
    case True
    moreover have "unat (u div 10) = unat u div 10" by (simp add: unat_div)
    ultimately have "unat u div 10 = 0" by simp
    then have "unat u mod 10 = unat u" "unat u \<noteq> 0" using 1(2) by (auto simp: unat_eq_0)
    then have "unat (0x30 + ucast (u mod 10) :: byte) \<noteq> 48" unfolding digit_byte by simp
    then show ?thesis using True by (subst dec_tmp.simps) (auto simp: word_unat_eq_iff)
  next
    case False
    moreover have "dec_tmp (u div 10) \<noteq> []" by (subst dec_tmp.simps) simp
    ultimately show ?thesis using 1(1) by (subst dec_tmp.simps) simp
  qed
qed

lemma dec_tmp_length: "unat u < 10 ^ Suc n \<Longrightarrow> length (dec_tmp u) \<le> Suc n"
proof (induction n arbitrary: u)
  case 0
  then have "unat (u div 10) = 0" by (simp add: unat_div)
  then show ?case by (subst dec_tmp.simps) (simp add: unat_eq_0)
next
  case (Suc n)
  then have "unat (u div 10) < 10 ^ Suc n" by (simp add: unat_div less_mult_imp_div_less mult.commute)
  then show ?case using Suc.IH by (subst dec_tmp.simps) (simp add: Let_def)
qed

lemma uint64_digits: "length (fj_write_uint64_dec u) \<le> 20"
proof -
  have "unat u < 10 ^ Suc 19" using unsigned_less [of u, where 'a = nat] by simp
  from dec_tmp_length [OF this] show ?thesis by (simp add: fj_write_uint64_dec_def)
qed

lemma sint_uint_nonneg: "\<not> sint (s :: 64 word) < 0 \<Longrightarrow> int (unat s) = sint s"
  using sint_lt [of s] by (simp add: uint_sint take_bit_eq_mod mod_pos_pos_trivial flip: uint_nat)

lemma sint_negate:
  assumes "sint s < 0"
  shows "int (unat (- (s + 1) + 1 :: 64 word)) = - sint s"
proof -
  have "int (unat (- (s + 1) + 1)) = uint (- s)" by simp
  also have "\<dots> = (- uint s) mod 2 ^ 64" by (simp add: uint_word_ariths)
  also have "\<dots> = (- sint s) mod 2 ^ 64"
    by (simp add: uint_sint take_bit_eq_mod mod_minus_eq)
  also have "\<dots> = - sint s"
    using assms sint_ge [of s] by (simp add: mod_pos_pos_trivial)
  finally show ?thesis .
qed

subsection \<open>Arrays as maps\<close>

text \<open>Members with the same key: the key keeps its first place, the last value wins.\<close>

definition last_wins :: "('k \<times> 'v) list \<Rightarrow> ('k \<times> 'v) list" where
  "last_wins ms = map (\<lambda>k. (k, the (map_of (rev ms) k))) (rev (remdups (rev (map fst ms))))"

lemma hash_update_map:
  "distinct ks \<Longrightarrow> hash_update k v (map (\<lambda>k. (k, f k)) ks) =
    (if k \<in> set ks then map (\<lambda>j. (j, if j = k then v else f j)) ks else map (\<lambda>k. (k, f k)) ks @ [(k, v)])"
  by (induction ks) (auto intro: map_cong)

lemma last_wins_snoc: "last_wins (ms @ [(k, v)]) = hash_update k v (last_wins ms)"
proof -
  let ?ks = "rev (remdups (rev (map fst ms)))"
  have d: "distinct ?ks" by simp
  show ?thesis unfolding last_wins_def hash_update_map [OF d]
    by (auto simp: image_iff)
qed

lemma last_wins_Nil [simp]: "last_wins [] = []"
  by (simp add: last_wins_def)

lemma distinct_last_wins [simp]: "distinct (map fst (last_wins ms))"
  by (simp add: last_wins_def comp_def)

lemma set_last_wins: "(k, v) \<in> set (last_wins ms) \<Longrightarrow> (k, v) \<in> set ms"
proof -
  assume "(k, v) \<in> set (last_wins ms)"
  then have "k \<in> fst ` set ms" "v = the (map_of (rev ms) k)" by (auto simp: last_wins_def)
  then obtain w where "map_of (rev ms) k = Some w" "v = w"
    by (metis map_of_eq_None_iff option.exhaust option.sel set_rev)
  then show ?thesis using map_of_SomeD by fastforce
qed

subsection \<open>The value of a document\<close>

definition array_key :: "php \<Rightarrow> bytes \<Rightarrow> zkey" where
  "array_key p k = (case numeric_str p k of Some idx \<Rightarrow> KInt (sint idx) | None \<Rightarrow> KStr k)"

definition list_array :: "zval list \<Rightarrow> zval" where
  "list_array zs = ZArray (map (\<lambda>(i, z). (KInt (int i), z)) (enumerate 0 zs))"

fun zval_of :: "php \<Rightarrow> bool \<Rightarrow> bool \<Rightarrow> zend_long \<Rightarrow> yyval \<Rightarrow> zval" where
  "zval_of p san assoc flags YNull = ZNull"
| "zval_of p san assoc flags (YBool b) = ZBool b"
| "zval_of p san assoc flags (YUint u) = fj_num_to_zval p (YUint u) flags"
| "zval_of p san assoc flags (YSint s) = fj_num_to_zval p (YSint s) flags"
| "zval_of p san assoc flags (YReal d) = ZDouble d"
| "zval_of p san assoc flags (YRaw raw) = fj_raw_to_zval p raw"
| "zval_of p san assoc flags (YStr s t) = ZString (walk_string san flags s t)"
| "zval_of p san assoc flags (YArr items) = list_array (map (zval_of p san assoc flags) items)"
| "zval_of p san assoc flags (YObj ms) =
    (if assoc then
       ZArray (last_wins (map (\<lambda>m. (array_key p (walk_string san flags (fst (fst m)) (snd (fst m))),
         zval_of p san assoc flags (snd m))) ms))
     else
       ZObject (last_wins (map (\<lambda>m. (walk_string san flags (fst (fst m)) (snd (fst m)),
         zval_of p san assoc flags (snd m))) ms)))"

text \<open>No property name starts with a NUL byte.\<close>

definition name_ok :: "bytes \<Rightarrow> bool" where
  "name_ok k \<longleftrightarrow> k = [] \<or> hd k \<noteq> 0"

fun names_ok :: "bool \<Rightarrow> zend_long \<Rightarrow> yyval \<Rightarrow> bool" where
  "names_ok san flags (YArr items) = list_all (names_ok san flags) items"
| "names_ok san flags (YObj ms) =
    list_all (\<lambda>m. name_ok (walk_string san flags (fst (fst m)) (snd (fst m))) \<and> names_ok san flags (snd m)) ms"
| "names_ok san flags _ = True"

subsection \<open>The walk computes it\<close>

lemma walk_key_eq: "walk_key p k g = (k, g\<lparr>key_share := snd (fj_share_key (hash_of p) k (key_share g))\<rparr>)"
  by (auto simp: walk_key_def split_beta split: option.splits dest: share_key_content)

lemma insert_array_member_eq:
  "\<exists>c. insert_array_member p k child ht g = (hash_update (array_key p k) child ht, g\<lparr>key_share := c\<rparr>)"
proof (cases "numeric_str p k")
  case (Some i)
  have "g\<lparr>key_share := key_share g\<rparr> = g" by simp
  then show ?thesis using Some by (metis insert_array_member_def array_key_def option.simps(5))
qed (auto simp: insert_array_member_def array_key_def walk_key_eq)

lemma insert_property_eq:
  "\<exists>c. insert_property p k child ht g = (hash_update k child ht, g\<lparr>key_share := c\<rparr>)"
  by (auto simp: insert_property_def walk_key_eq)

text \<open>\<open>deep\<close> and \<open>bad\<close>: the value exceeds the depth, or has a forbidden property name.\<close>

definition walk_result :: "fj_request_globals \<Rightarrow> bool \<Rightarrow> bool \<Rightarrow> 'r
    \<Rightarrow> fj_request_globals + 'r \<times> fj_request_globals \<Rightarrow> bool" where
  "walk_result g deep bad x r =
    (case r of
       Inr (y, g') \<Rightarrow> \<not> deep \<and> \<not> bad \<and> y = x \<and> last_err g' = last_err g
     | Inl g' \<Rightarrow> deep \<and> last_err g' = last_err (walk_depth_error g) \<or> bad \<and> last_err g' = last_err (walk_name_error g))"

lemma walk_error_states:
  "last_err (walk_depth_error g) = fastjson_error_state_set FASTJSON_ERROR_DEPTH (Some ''Maximum stack depth exceeded'')"
  "last_err (walk_name_error g) =
    fastjson_error_state_set FASTJSON_ERROR_INVALID_PROPERTY_NAME (Some ''The decoded property name is invalid'')"
  by (simp_all add: walk_depth_error_def walk_name_error_def set_code_is_state)

lemma walk_result_Inr: "walk_result g False False x (Inr (x, g))"
  by (simp add: walk_result_def)

lemma walk_result_deep: "walk_result g True bad x (Inl (walk_depth_error g))"
  by (simp add: walk_result_def)

lemma walk_result_bad: "walk_result g deep True x (Inl (walk_name_error g))"
  by (simp add: walk_result_def)

lemma walk_result_share [simp]: "walk_result (g\<lparr>key_share := c\<rparr>) d b x r = walk_result g d b x r"
  unfolding walk_result_def walk_error_states by (simp split: sum.split)

lemma walk_result_bind:
  assumes "walk_result g d1 b1 x r"
    "\<And>g'. r = Inr (x, g') \<Longrightarrow> walk_result g' d2 b2 y (f (x, g'))"
  shows "walk_result g (d1 \<or> d2) (b1 \<or> b2) y (bind_res r f)"
proof (cases r)
  case (Inl g')
  then show ?thesis using assms(1) by (auto simp: walk_result_def)
next
  case (Inr q)
  then obtain g' where q: "q = (x, g')" "\<not> d1" "\<not> b1" "last_err g' = last_err g"
    using assms(1) by (cases q) (auto simp: walk_result_def)
  have "walk_result g' d2 b2 y (f (x, g'))" using assms(2) Inr q(1) by simp
  then show ?thesis using Inr q
    by (auto simp: walk_result_def walk_error_states split: sum.splits prod.splits)
qed

lemma walk_result_weaken: "walk_result g d b x r \<Longrightarrow> d = d' \<Longrightarrow> b = b' \<Longrightarrow> x = x' \<Longrightarrow> walk_result g d' b' x' r"
  by simp

lemma fold_last_wins: "fold (\<lambda>(k, v). hash_update k v) ms [] = last_wins ms"
  by (induction ms rule: rev_induct) (auto simp: last_wins_snoc)

abbreviation walk_members :: "(bytes \<Rightarrow> bool \<Rightarrow> 'k) \<Rightarrow> (yyval \<Rightarrow> zval) \<Rightarrow> ((bytes \<times> bool) \<times> yyval) list \<Rightarrow> ('k \<times> zval) list" where
  "walk_members name f ms \<equiv> map (\<lambda>m. (name (fst (fst m)) (snd (fst m)), f (snd m))) ms"

lemma vdepth_ctn_int:
  assumes "0 < d"
  shows "d < int (vdepth (YArr items)) \<longleftrightarrow> d \<le> 1 \<or> list_ex (\<lambda>v. d - 1 < int (vdepth v)) items"
    "d < int (vdepth (YObj ms)) \<longleftrightarrow> d \<le> 1 \<or> list_ex (\<lambda>m. d - 1 < int (vdepth (snd m))) ms"
proof -
  obtain n where "d = int n" "n \<noteq> 0" using assms by (metis less_irrefl of_nat_0 pos_int_cases)
  moreover have "int n - 1 < int m \<longleftrightarrow> n - 1 < m" if "n \<noteq> 0" for n m using that by auto
  ultimately show "d < int (vdepth (YArr items)) \<longleftrightarrow> d \<le> 1 \<or> list_ex (\<lambda>v. d - 1 < int (vdepth v)) items"
    "d < int (vdepth (YObj ms)) \<longleftrightarrow> d \<le> 1 \<or> list_ex (\<lambda>m. d - 1 < int (vdepth (snd m))) ms"
    using vdepth_ctn(1) [of n items] vdepth_ctn(2) [of n ms] by (simp_all del: vdepth.simps)
qed

text \<open>Every container frame of the walk fits the native stack.\<close>

fun stack_fits :: "php \<Rightarrow> nat \<Rightarrow> yyval \<Rightarrow> bool" where
  "stack_fits p lvl (YArr items) = (stack_ok (platform p) lvl \<and> list_all (stack_fits p (lvl + 1)) items)"
| "stack_fits p lvl (YObj ms) = (stack_ok (platform p) lvl \<and> list_all (\<lambda>m. stack_fits p (lvl + 1) (snd m)) ms)"
| "stack_fits p lvl _ = True"

definition too_deep :: "php \<Rightarrow> nat \<Rightarrow> int \<Rightarrow> yyval \<Rightarrow> bool" where
  "too_deep p lvl d v \<longleftrightarrow> d < int (vdepth v) \<or> \<not> stack_fits p lvl v"

lemma list_ex_or: "list_ex (\<lambda>x. P x \<or> Q x) xs \<longleftrightarrow> list_ex P xs \<or> list_ex Q xs"
  by (induction xs) auto

lemma too_deep_ctn:
  assumes "0 < d"
  shows "too_deep p lvl d (YArr items) \<longleftrightarrow> \<not> stack_ok (platform p) lvl \<or> d \<le> 1 \<or> list_ex (too_deep p (lvl + 1) (d - 1)) items"
    "too_deep p lvl d (YObj ms) \<longleftrightarrow> \<not> stack_ok (platform p) lvl \<or> d \<le> 1 \<or>
      list_ex (\<lambda>m. too_deep p (lvl + 1) (d - 1) (snd m)) ms"
  using vdepth_ctn_int [OF assms]
  by (auto simp: too_deep_def list_ex_or list_ex_iff list_all_iff simp del: vdepth.simps)

lemma walk_outcome:
  shows "walk_result g (too_deep p lvl d v) (\<not> assoc \<and> \<not> names_ok san flags v) (zval_of p san assoc flags v)
      (fastjson_yyval_to_zval p san assoc flags v lvl d g)"
    and "walk_result g (list_ex (too_deep p lvl d) items) (\<not> assoc \<and> \<not> list_all (names_ok san flags) items)
      (zs @ map (zval_of p san assoc flags) items) (walk_items p san assoc flags items lvl d zs g)"
    and "walk_result g (list_ex (\<lambda>m. too_deep p lvl d (snd m)) ms) False
      (fold (\<lambda>(k, v). hash_update k v)
        (walk_members (\<lambda>s t. array_key p (walk_string san flags s t)) (zval_of p san True flags) ms) ht)
      (walk_assoc p san flags ms lvl d ht g)"
    and "walk_result g (list_ex (\<lambda>m. too_deep p lvl d (snd m)) ms)
      (\<not> list_all (\<lambda>m. name_ok (walk_string san flags (fst (fst m)) (snd (fst m))) \<and> names_ok san flags (snd m)) ms)
      (fold (\<lambda>(k, v). hash_update k v) (walk_members (walk_string san flags) (zval_of p san False flags) ms) ht')
      (walk_props p san flags ms lvl d ht' g)"
proof (induction p san assoc flags v lvl d g and p san assoc flags items lvl d zs g and p san flags ms lvl d ht g
    and p san flags ms lvl d ht' g rule: fastjson_yyval_to_zval_walk_items_walk_assoc_walk_props.induct)
  case (1 p san assoc flags v lvl d g)
  show ?case
  proof (cases "d \<le> 0")
    case True
    then have "too_deep p lvl d v" using vdepth_pos [of v] by (simp add: too_deep_def)
    then show ?thesis using True by (subst fastjson_yyval_to_zval.simps) (simp add: walk_result_deep)
  next
    case False
    then have d: "0 < d" by simp
    show ?thesis
    proof (cases v)
      case (YArr items)
      show ?thesis
      proof (cases "\<not> stack_ok (platform p) lvl \<or> d \<le> 1")
        case True
        then show ?thesis using d YArr too_deep_ctn(1) [OF d]
          by (subst fastjson_yyval_to_zval.simps) (simp add: walk_result_deep)
      next
        case False
        have "walk_result g (list_ex (too_deep p (lvl + 1) (d - 1)) items) (\<not> assoc \<and> \<not> list_all (names_ok san flags) items)
            ([] @ map (zval_of p san assoc flags) items) (walk_items p san assoc flags items (lvl + 1) (d - 1) [] g)"
          using 1(1) d YArr False by simp
        from walk_result_bind [OF this, of False False "zval_of p san assoc flags v"
            "\<lambda>(zs, g). Inr (ZArray (map (\<lambda>(i, z). (KInt (int i), z)) (enumerate 0 zs)), g)"]
        show ?thesis using d YArr False too_deep_ctn(1) [OF d]
          by (subst fastjson_yyval_to_zval.simps) (simp add: walk_result_def list_array_def)
      qed
    next
      case (YObj ms)
      show ?thesis
      proof (cases "\<not> stack_ok (platform p) lvl \<or> d \<le> 1")
        case True
        then show ?thesis using d YObj too_deep_ctn(2) [OF d]
          by (subst fastjson_yyval_to_zval.simps) (simp add: walk_result_deep)
      next
        case False
        show ?thesis
        proof (cases assoc)
          case True
          have "walk_result g (list_ex (\<lambda>m. too_deep p (lvl + 1) (d - 1) (snd m)) ms) False
              (last_wins (walk_members (\<lambda>s t. array_key p (walk_string san flags s t)) (zval_of p san True flags) ms))
              (walk_assoc p san flags ms (lvl + 1) (d - 1) [] g)"
            using 1(2) d YObj False True by (simp flip: fold_last_wins)
          from walk_result_bind [OF this, of False False "zval_of p san assoc flags v" "\<lambda>(ht, g). Inr (ZArray ht, g)"]
          show ?thesis using d YObj False True too_deep_ctn(2) [OF d]
            by (subst fastjson_yyval_to_zval.simps) (simp add: walk_result_def)
        next
          case nassoc: False
          have "walk_result g (list_ex (\<lambda>m. too_deep p (lvl + 1) (d - 1) (snd m)) ms)
              (\<not> list_all (\<lambda>m. name_ok (walk_string san flags (fst (fst m)) (snd (fst m))) \<and> names_ok san flags (snd m)) ms)
              (last_wins (walk_members (walk_string san flags) (zval_of p san False flags) ms))
              (walk_props p san flags ms (lvl + 1) (d - 1) [] g)"
            using 1(3) d YObj False nassoc by (simp flip: fold_last_wins)
          from walk_result_bind [OF this, of False False "zval_of p san assoc flags v" "\<lambda>(ht, g). Inr (ZObject ht, g)"]
          show ?thesis using d YObj False nassoc too_deep_ctn(2) [OF d]
            by (subst fastjson_yyval_to_zval.simps) (simp add: walk_result_def)
        qed
      qed
    qed (use d in \<open>subst fastjson_yyval_to_zval.simps; simp add: walk_result_def too_deep_def fj_num_to_zval_def\<close>)+
  qed
next
  case (3 p san assoc flags item items lvl d zs g)
  have "walk_result g (too_deep p lvl d item) (\<not> assoc \<and> \<not> names_ok san flags item) (zval_of p san assoc flags item)
      (fastjson_yyval_to_zval p san assoc flags item lvl d g)"
    using 3(1) .
  then have "walk_result g (too_deep p lvl d item \<or> list_ex (too_deep p lvl d) items)
      (\<not> assoc \<and> \<not> names_ok san flags item \<or> \<not> assoc \<and> \<not> list_all (names_ok san flags) items)
      (zs @ map (zval_of p san assoc flags) (item # items)) (walk_items p san assoc flags (item # items) lvl d zs g)"
    unfolding walk_items.simps by (rule walk_result_bind) (use 3(2) in fastforce)
  then show ?case by (rule walk_result_weaken) auto
next
  case (5 p san flags key vval members lvl d ht g)
  let ?k = "walk_string san flags (fst key) (snd key)"
  have "walk_result g (too_deep p lvl d vval) False (zval_of p san True flags vval)
      (fastjson_yyval_to_zval p san True flags vval lvl d g)"
    using 5(1) [OF refl] by simp
  then have "walk_result g (too_deep p lvl d vval \<or> list_ex (\<lambda>m. too_deep p lvl d (snd m)) members) (False \<or> False)
      (fold (\<lambda>(k, v). hash_update k v)
        (walk_members (\<lambda>s t. array_key p (walk_string san flags s t)) (zval_of p san True flags) ((key, vval) # members)) ht)
      (walk_assoc p san flags ((key, vval) # members) lvl d ht g)"
    unfolding walk_assoc.simps Let_def
  proof (rule walk_result_bind)
    fix g' assume r: "fastjson_yyval_to_zval p san True flags vval lvl d g = Inr (zval_of p san True flags vval, g')"
    obtain c where c: "insert_array_member p ?k (zval_of p san True flags vval) ht g' =
        (hash_update (array_key p ?k) (zval_of p san True flags vval) ht, g'\<lparr>key_share := c\<rparr>)"
      using insert_array_member_eq by blast
    from 5(2) [OF refl r refl c [symmetric] refl] c
    show "walk_result g' (list_ex (\<lambda>m. too_deep p lvl d (snd m)) members) False
      (fold (\<lambda>(k, v). hash_update k v)
        (walk_members (\<lambda>s t. array_key p (walk_string san flags s t)) (zval_of p san True flags) ((key, vval) # members)) ht)
      (case (zval_of p san True flags vval, g') of (child, g) \<Rightarrow>
        (case insert_array_member p ?k child ht g of (ht, g) \<Rightarrow> walk_assoc p san flags members lvl d ht g))"
      by simp
  qed
  then show ?case by (rule walk_result_weaken) auto
next
  case (7 p san flags key vval members lvl d ht g)
  let ?k = "walk_string san flags (fst key) (snd key)"
  show ?case
  proof (cases "name_ok ?k")
    case False
    then show ?thesis by (simp add: name_ok_def walk_result_bad)
  next
    case True
    then have n: "\<not> (?k \<noteq> [] \<and> hd ?k = 0)" by (simp add: name_ok_def)
    have "walk_result g (too_deep p lvl d vval) (\<not> names_ok san flags vval) (zval_of p san False flags vval)
        (fastjson_yyval_to_zval p san False flags vval lvl d g)"
      using 7(1) [OF refl n] by simp
    then have "walk_result g (too_deep p lvl d vval \<or> list_ex (\<lambda>m. too_deep p lvl d (snd m)) members)
        (\<not> names_ok san flags vval \<or>
          \<not> list_all (\<lambda>m. name_ok (walk_string san flags (fst (fst m)) (snd (fst m))) \<and> names_ok san flags (snd m)) members)
        (fold (\<lambda>(k, v). hash_update k v)
          (walk_members (walk_string san flags) (zval_of p san False flags) ((key, vval) # members)) ht)
        (walk_props p san flags ((key, vval) # members) lvl d ht g)"
      unfolding walk_props.simps Let_def if_not_P [OF n]
    proof (rule walk_result_bind)
      fix g' assume r: "fastjson_yyval_to_zval p san False flags vval lvl d g = Inr (zval_of p san False flags vval, g')"
      obtain c where c: "insert_property p ?k (zval_of p san False flags vval) ht g' =
          (hash_update ?k (zval_of p san False flags vval) ht, g'\<lparr>key_share := c\<rparr>)"
        using insert_property_eq by blast
      from 7(2) [OF refl n r refl c [symmetric] refl] c
      show "walk_result g' (list_ex (\<lambda>m. too_deep p lvl d (snd m)) members)
        (\<not> list_all (\<lambda>m. name_ok (walk_string san flags (fst (fst m)) (snd (fst m))) \<and> names_ok san flags (snd m)) members)
        (fold (\<lambda>(k, v). hash_update k v)
          (walk_members (walk_string san flags) (zval_of p san False flags) ((key, vval) # members)) ht)
        (case (zval_of p san False flags vval, g') of (child, g) \<Rightarrow>
          (case insert_property p ?k child ht g of (ht, g) \<Rightarrow> walk_props p san flags members lvl d ht g))"
        by simp
    qed
    then show ?thesis by (rule walk_result_weaken) (use True in auto)
  qed
qed (simp_all add: walk_result_def)

subsection \<open>What decoded values look like\<close>

lemma walk_cases:
  "case fastjson_yyval_to_zval p san assoc flags v lvl d g of
     Inr (z, g') \<Rightarrow> \<not> too_deep p lvl d v \<and> (assoc \<or> names_ok san flags v) \<and> z = zval_of p san assoc flags v \<and>
       last_err g' = last_err g
   | Inl g' \<Rightarrow> too_deep p lvl d v \<and> last_err g' = last_err (walk_depth_error g) \<or>
       (\<not> assoc \<and> \<not> names_ok san flags v) \<and> last_err g' = last_err (walk_name_error g)"
  using walk_outcome(1) [of g p lvl d v assoc san flags] unfolding walk_result_def
  by (simp split: sum.splits prod.splits)

lemma map_of_last_wins: "map_of (last_wins ms) = map_of (rev ms)"
proof
  fix k
  have "map_of (map (\<lambda>k. (k, f k)) ks) k = (if k \<in> set ks then Some (f k) else None)" for f :: "'a \<Rightarrow> 'b" and ks
    by (induction ks) auto
  then have "map_of (last_wins ms) k = (if k \<in> fst ` set ms then Some (the (map_of (rev ms) k)) else None)"
    by (simp add: last_wins_def)
  also have "\<dots> = map_of (rev ms) k"
    by (auto simp: image_iff) (metis map_of_eq_None_iff fst_conv image_eqI option.exhaust option.sel set_rev, metis map_of_eq_None_iff fst_conv imageE set_rev surjective_pairing)
  finally show "map_of (last_wins ms) k = map_of (rev ms) k" .
qed

text \<open>The shape of decoded values.\<close>

fun zval_wf :: "php \<Rightarrow> bool \<Rightarrow> zval \<Rightarrow> bool" where
  "zval_wf p assoc (ZArray ht) =
    (distinct (map fst ht) \<and> list_all (\<lambda>m. case fst m of KInt _ \<Rightarrow> True | KStr k \<Rightarrow> numeric_str p k = None) ht \<and>
     list_all (\<lambda>m. zval_wf p assoc (snd m)) ht)"
| "zval_wf p assoc (ZObject ht) =
    (\<not> assoc \<and> distinct (map fst ht) \<and> list_all (\<lambda>m. name_ok (fst m)) ht \<and> list_all (\<lambda>m. zval_wf p assoc (snd m)) ht)"
| "zval_wf p assoc _ = True"

lemma num_wf [simp]: "zval_wf p assoc (fj_num_to_zval p v flags)"
  by (simp add: fj_num_to_zval_def split: yyval.split)

lemma raw_wf [simp]: "zval_wf p assoc (fj_raw_to_zval p raw)"
  by (simp add: fj_raw_to_zval_def)

lemma list_array_children: "list_all (\<lambda>m. P (snd m)) (map (\<lambda>(i, z). (KInt (int i), z)) (enumerate n zs)) = list_all P zs"
  by (induction zs arbitrary: n) simp_all

lemma list_array_keys: "map fst (map (\<lambda>(i, z). (KInt (int i), z)) (enumerate n zs)) = map (\<lambda>i. KInt (int i)) [n..<n + length zs]"
  by (induction zs arbitrary: n) (simp_all add: upt_rec)

lemma list_array_wf: "zval_wf p assoc (list_array zs) = list_all (zval_wf p assoc) zs"
proof -
  have "distinct (map (\<lambda>i. KInt (int i)) [0..<length zs])" by (simp add: distinct_map inj_on_def)
  moreover have "list_all (\<lambda>m. case fst m of KInt _ \<Rightarrow> True | KStr k \<Rightarrow> numeric_str p k = None)
      (map (\<lambda>(i, z). (KInt (int i), z)) (enumerate n zs))" for n
    by (induction zs arbitrary: n) simp_all
  ultimately show ?thesis
    unfolding list_array_def zval_wf.simps list_array_keys list_array_children by simp
qed

lemma array_key_wf: "case array_key p k of KInt _ \<Rightarrow> True | KStr k \<Rightarrow> numeric_str p k = None"
  by (simp add: array_key_def split: option.split)

lemma last_wins_all: "list_all P ms \<Longrightarrow> list_all P (last_wins ms)"
  using set_last_wins by (fastforce simp: list_all_iff)

lemma zval_of_wf: "assoc \<or> names_ok san flags v \<Longrightarrow> zval_wf p assoc (zval_of p san assoc flags v)"
proof (induction p san assoc flags v rule: zval_of.induct)
  case (8 p san assoc flags items)
  then show ?case by (auto simp: list_array_wf list_all_iff)
next
  case (9 p san assoc flags ms)
  then show ?case
    by (cases assoc) (auto simp: list_all_iff array_key_wf dest!: set_last_wins)
qed simp_all

text \<open>Every byte string of a value is UTF-8.\<close>

fun zval_utf8 :: "zval \<Rightarrow> bool" where
  "zval_utf8 (ZString s) = fastjson_utf8_well_formed s"
| "zval_utf8 (ZArray ht) =
    (list_all (\<lambda>m. case fst m of KInt _ \<Rightarrow> True | KStr k \<Rightarrow> fastjson_utf8_well_formed k) ht \<and>
     list_all (\<lambda>m. zval_utf8 (snd m)) ht)"
| "zval_utf8 (ZObject ht) =
    (list_all (\<lambda>m. fastjson_utf8_well_formed (fst m)) ht \<and> list_all (\<lambda>m. zval_utf8 (snd m)) ht)"
| "zval_utf8 _ = True"

text \<open>What the reader promises: a string that is not UTF-8 carries the tag.\<close>

fun tags_ok :: "yyval \<Rightarrow> bool" where
  "tags_ok (YStr s t) = (t \<or> fastjson_utf8_well_formed s)"
| "tags_ok (YRaw raw) = fastjson_utf8_well_formed raw"
| "tags_ok (YArr items) = list_all tags_ok items"
| "tags_ok (YObj ms) =
    list_all (\<lambda>m. (snd (fst m) \<or> fastjson_utf8_well_formed (fst (fst m))) \<and> tags_ok (snd m)) ms"
| "tags_ok _ = True"

lemma walk_string_utf8: "t \<or> fastjson_utf8_well_formed s \<Longrightarrow> fastjson_utf8_well_formed (walk_string True flags s t)"
  by (auto simp: walk_string_def well_formed_wf fastjson_sanitize_utf8_def Let_def sanitize_loop_wf)

lemma ascii_utf8: "list_all (\<lambda>c. c < 0x80) ds \<Longrightarrow> utf8_wf ds"
  by (induction ds) simp_all

lemma decimal_utf8: "utf8_wf (fj_write_uint64_dec u)" "utf8_wf (fj_write_sint64_dec u)"
proof -
  have "list_all (\<lambda>c. c < 0x80) (rev (dec_tmp u))" for u
    using dec_tmp_digits [of u] by (auto simp: list_all_iff elim!: ballE intro: le_less_trans)
  then have all: "utf8_wf (fj_write_uint64_dec u)" for u
    by (simp add: fj_write_uint64_dec_def ascii_utf8)
  then show "utf8_wf (fj_write_uint64_dec u)" "utf8_wf (fj_write_sint64_dec u)"
    by (simp_all add: fj_write_sint64_dec_def)
qed

lemma num_utf8 [simp]: "zval_utf8 (fj_num_to_zval p v flags)"
  by (simp add: fj_num_to_zval_def well_formed_wf decimal_utf8 split: yyval.split)

lemma list_array_utf8: "zval_utf8 (list_array zs) = list_all zval_utf8 zs"
proof -
  have "list_all (\<lambda>m. case fst m of KInt _ \<Rightarrow> True | KStr k \<Rightarrow> fastjson_utf8_well_formed k)
      (map (\<lambda>(i, z). (KInt (int i), z)) (enumerate n zs))" for n
    by (induction zs arbitrary: n) simp_all
  then show ?thesis unfolding list_array_def zval_utf8.simps list_array_children by simp
qed

lemma zval_of_utf8: "tags_ok v \<Longrightarrow> zval_utf8 (zval_of p True assoc flags v)"
proof (induction p True assoc flags v rule: zval_of.induct)
  case (8 p assoc flags items)
  then show ?case by (auto simp: list_array_utf8 list_all_iff)
next
  case (9 p assoc flags ms)
  have t: "snd (fst x) \<or> fastjson_utf8_well_formed (fst (fst x))" "tags_ok (snd x)" if "x \<in> set ms" for x
    using 9(3) that by (simp_all add: list_all_iff)
  have m: "fastjson_utf8_well_formed (walk_string True flags (fst (fst x)) (snd (fst x)))"
      "zval_utf8 (zval_of p True assoc flags (snd x))" if "x \<in> set ms" for x
  proof -
    show "fastjson_utf8_well_formed (walk_string True flags (fst (fst x)) (snd (fst x)))"
      using t(1) [OF that] by (rule walk_string_utf8)
    show "zval_utf8 (zval_of p True assoc flags (snd x))"
      using 9(1,2) that t(2) [OF that] by (cases assoc) simp_all
  qed
  show ?case
  proof (cases assoc)
    case True
    have "list_all (\<lambda>m. (case fst m of KInt _ \<Rightarrow> True | KStr k \<Rightarrow> fastjson_utf8_well_formed k) \<and> zval_utf8 (snd m))
        (last_wins (walk_members (\<lambda>s t. array_key p (walk_string True flags s t)) (zval_of p True assoc flags) ms))"
      using m by (intro last_wins_all) (auto simp: list_all_iff array_key_def split: option.split)
    then show ?thesis using True by (simp add: list_all_iff)
  next
    case False
    have "list_all (\<lambda>m. fastjson_utf8_well_formed (fst m) \<and> zval_utf8 (snd m))
        (last_wins (walk_members (walk_string True flags) (zval_of p True assoc flags) ms))"
      using m by (intro last_wins_all) (auto simp: list_all_iff)
    then show ?thesis using False by (simp add: list_all_iff)
  qed
qed (auto simp: fj_raw_to_zval_def walk_string_utf8)

subsection \<open>Properties\<close>

text \<open>C6: the walk of a document succeeds exactly when the document is no deeper than the given depth and the
  native stack allow and, for objects, no property name starts with a NUL byte. The value is then the
  document read as PHP: a list for an array, for an object an array or a \<open>stdClass\<close> in which a repeated
  key keeps its first place and its last value. The key cache never shows. Otherwise the last error is
  the depth or the property name.\<close>

theorem walk_is_document_value:
  "case fastjson_yyval_to_zval p san assoc flags v lvl d g of
     Inr (z, g') \<Rightarrow> int (vdepth v) \<le> d \<and> stack_fits p lvl v \<and> (assoc \<or> names_ok san flags v) \<and>
       z = zval_of p san assoc flags v \<and> last_err g' = last_err g
   | Inl g' \<Rightarrow> \<not> (int (vdepth v) \<le> d \<and> stack_fits p lvl v) \<and> fastjson_last_error g' = FASTJSON_ERROR_DEPTH \<or>
       \<not> assoc \<and> \<not> names_ok san flags v \<and> fastjson_last_error g' = FASTJSON_ERROR_INVALID_PROPERTY_NAME"
  using walk_cases [where p = p and san = san and assoc = assoc and flags = flags and v = v and lvl = lvl and d = d and g = g]
  by (auto simp: too_deep_def fastjson_last_error_def walk_error_states fastjson_error_state_set_def split: sum.splits)

text \<open>C34: every value the walk builds is a well-formed PHP value: no array or object holds a key twice, a
  string that the engine reads as a number is never a string key of an array, no property name starts with
  a NUL byte, and no object appears when arrays were asked for.\<close>

theorem walk_type_invariant:
  "case fastjson_yyval_to_zval p san assoc flags v lvl d g of Inr (z, g') \<Rightarrow> zval_wf p assoc z | Inl g' \<Rightarrow> True"
  using walk_cases [where p = p and san = san and assoc = assoc and flags = flags and v = v and lvl = lvl and d = d and g = g] zval_of_wf [of assoc san flags v p]
  by (auto split: sum.splits)

text \<open>C35: with \<open>IGNORE\<close> or \<open>SUBSTITUTE\<close> every string and key of the result is UTF-8, given that the reader tags
  the strings that are not.\<close>

theorem walk_sanitizes:
  assumes "tags_ok v"
  shows "case fastjson_yyval_to_zval p True assoc flags v lvl d g of Inr (z, g') \<Rightarrow> zval_utf8 z | Inl g' \<Rightarrow> True"
  using walk_cases [where p = p and san = True and assoc = assoc and flags = flags and v = v and lvl = lvl and d = d and g = g] zval_of_utf8 [OF assms, of p assoc flags]
  by (auto split: sum.splits)

definition demo_php :: php where
  "demo_php = \<lparr>platform = \<lparr>zstr_max = 1000, size_max = 1000, buf_cap = length, stack_ok = (\<lambda>_. True),
      write_number = (\<lambda>_. None), strtod_finite = (\<lambda>_. True)\<rparr>,
    native_stack_limit = True, numeric_str = (\<lambda>_. None), hash_of = (\<lambda>_. 0), u64_to_double = id,
    s64_to_double = id, zend_strtod = (\<lambda>_. 0)\<rparr>"

lemma walk_sanitizes_witness:
  "case fastjson_yyval_to_zval demo_php True True FASTJSON_INVALID_UTF8_IGNORE (YArr [YStr [0x61, 0xFF] True]) 0 512
      \<lparr>last_err = fastjson_error_state_clear, key_share = None\<rparr> of
    Inr (z, g') \<Rightarrow> zval_utf8 z | Inl g' \<Rightarrow> True"
  by (rule walk_sanitizes) simp

text \<open>A repeated member of an object: the property holds the value of the last member with its name.\<close>

theorem property_is_last_member:
  "case fastjson_yyval_to_zval p san False flags (YObj ms) lvl d g of
     Inr (ZObject ht, g') \<Rightarrow>
       map_of ht k = map_of (rev (walk_members (walk_string san flags) (zval_of p san False flags) ms)) k
   | Inr _ \<Rightarrow> False
   | Inl g' \<Rightarrow> True"
  using walk_cases [where p = p and san = san and assoc = False and flags = flags and v = "YObj ms" and lvl = lvl and d = d and g = g]
  by (auto simp: map_of_last_wins split: sum.splits)

text \<open>C40: the decimal text of an integer too large for PHP denotes that integer, fits the 24-byte buffer, has
  digits only and no leading zero.\<close>

theorem bigint_text:
  "decimal_value (fj_write_uint64_dec u) = unat u \<and> list_all (\<lambda>c. 0x30 \<le> c \<and> c \<le> 0x39) (fj_write_uint64_dec u) \<and>
   (if u = 0 then fj_write_uint64_dec u = [0x30] else hd (fj_write_uint64_dec u) \<noteq> 0x30) \<and>
   length (fj_write_uint64_dec u) \<le> 24 \<and>
   (if sint s < 0 then hd (fj_write_sint64_dec s) = 0x2D \<and> int (decimal_value (tl (fj_write_sint64_dec s))) = - sint s
    else int (decimal_value (fj_write_sint64_dec s)) = sint s) \<and> length (fj_write_sint64_dec s) \<le> 24"
proof -
  have val: "decimal_value (fj_write_uint64_dec u) = unat u" for u
    by (simp add: fj_write_uint64_dec_def dec_tmp_value)
  have digits: "list_all (\<lambda>c. 0x30 \<le> c \<and> c \<le> 0x39) (fj_write_uint64_dec u)"
    using dec_tmp_digits [of u] by (simp add: fj_write_uint64_dec_def)
  have lead: "if u = 0 then fj_write_uint64_dec u = [0x30] else hd (fj_write_uint64_dec u) \<noteq> 0x30"
    using dec_tmp_last [of u] by (auto simp: fj_write_uint64_dec_def hd_rev dec_tmp.simps [of 0])
  have len: "length (fj_write_uint64_dec u) \<le> 24" "length (fj_write_sint64_dec s) \<le> 24"
    using uint64_digits [of u] uint64_digits [of "- (s + 1) + 1"] uint64_digits [of s]
    by (simp_all add: fj_write_sint64_dec_def)
  have neg: "sint s < 0 \<Longrightarrow> int (decimal_value (tl (fj_write_sint64_dec s))) = - sint s"
    using sint_negate [of s] by (simp add: fj_write_sint64_dec_def val)
  have pos: "\<not> sint s < 0 \<Longrightarrow> int (decimal_value (fj_write_sint64_dec s)) = sint s"
    using sint_uint_nonneg [of s] by (simp add: fj_write_sint64_dec_def val)
  show ?thesis using val [of u] digits lead len neg pos by (auto simp: fj_write_sint64_dec_def)
qed

end
