(* ===== verification/Encoder.thy ===== *)
theory Encoder
  imports Walk
begin

text \<open>
  The direct-write encoder (fastjson_directwrite.c): a PHP value is printed into one buffer, without an
  intermediate tree.

  A value handed to the encoder is a \<open>pval\<close>. Arrays are copied on write while they are walked, so an array is its
  buckets, with the identity its recursion flag hangs on (\<open>None\<close> for an immutable array). References and
  objects are identities into the request's state \<open>php_world\<close>: the reference cells, the declared
  property slots, the recursion flags, the ini setting, a pending exception and the module globals. The
  engine and the user's code are the record \<open>engine\<close>: \<open>jsonSerialize()\<close>, a property hook, the JSON view of
  an object's properties and the destructors run by a release may change anything of that state.

  The buffer and the flags of \<open>fastjson_dw_ctx\<close> are a record with the world in it, threaded through every
  function; a C function returning \<open>bool\<close> returns the flag and the state. The recursive functions take
  their fuel at the one place they meet, \<open>dw_encode_zval\<close> (and \<open>dw_discard_zval\<close>); the functions around it get
  the recursive call as an argument, and \<open>None\<close> is a lack of fuel.
\<close>

subsection \<open>Values and the request\<close>

datatype pval =
    PNull
  | PBool bool
  | PLong "64 word"
  | PDouble "64 word"
  | PString bytes
  | PArray "nat option" "(zkey \<times> pval) list"
  | PObject nat
  | PReference nat
  | PUnsupported

datatype prop_slot = PropValue pval | PropIndirect nat | PropHook nat bool

record props_table =
  pt_id :: nat
  pt_immutable :: bool
  pt_entries :: "(zkey \<times> prop_slot) list"

datatype recursion_flag = GuardArray nat | GuardProps nat | GuardObject nat | GuardJson nat

record php_world =
  ref_cells :: "nat \<Rightarrow> pval"
  prop_slots :: "nat \<Rightarrow> pval option"
  guards :: "recursion_flag set"
  serialize_precision :: int
  exception :: bool
  globals :: fj_request_globals

record class_info =
  json_serializable :: bool
  enum_case :: "pval option option"
  has_hooks :: bool

datatype numeric_string = NumLong "64 word" | NumDouble "64 word" | NotNumeric

record engine =
  runtime :: php
  class_of :: "nat \<Rightarrow> class_info"
  json_serialize :: "nat \<Rightarrow> php_world \<Rightarrow> pval \<times> php_world"
  get_properties :: "nat \<Rightarrow> php_world \<Rightarrow> props_table option \<times> php_world"
  read_hook :: "nat \<Rightarrow> nat \<Rightarrow> php_world \<Rightarrow> pval option \<times> php_world"
  zval_ptr_dtor :: "pval \<Rightarrow> php_world \<Rightarrow> php_world"
  zend_release_properties :: "props_table \<Rightarrow> php_world \<Rightarrow> php_world"
  php_gcvt :: "64 word \<Rightarrow> int \<Rightarrow> bytes"
  double_to_long :: "64 word \<Rightarrow> 64 word"
  is_numeric_string :: "bytes \<Rightarrow> numeric_string"
  zend_long_to_str :: "64 word \<Rightarrow> bytes"

record fastjson_dw_ctx =
  dw_buf :: bytes
  dw_flags :: zend_long
  dw_yflags :: yyjson_write_flag
  partial_output :: bool
  pretty_print :: bool
  hard_error :: bool
  discard_aborted :: bool
  dw_error :: fastjson_error_state
  call_depth :: nat
  indent_level :: int
  world :: php_world

type_synonym dw_res = "(bool \<times> fastjson_dw_ctx) option"

definition FASTJSON_ENCODE_FORCE_OBJECT :: zend_long where "FASTJSON_ENCODE_FORCE_OBJECT = 0x10"
definition FASTJSON_ENCODE_NUMERIC_CHECK :: zend_long where "FASTJSON_ENCODE_NUMERIC_CHECK = 0x20"
definition FASTJSON_ENCODE_PARTIAL_OUTPUT_ON_ERROR :: zend_long where "FASTJSON_ENCODE_PARTIAL_OUTPUT_ON_ERROR = 0x200"
definition FASTJSON_ENCODE_PRESERVE_ZERO_FRACTION :: zend_long where "FASTJSON_ENCODE_PRESERVE_ZERO_FRACTION = 0x400"
definition FASTJSON_ENCODE_THROW_ON_ERROR :: zend_long where "FASTJSON_ENCODE_THROW_ON_ERROR = 0x400000"
definition FASTJSON_NUM_INT_WORST :: nat where "FASTJSON_NUM_INT_WORST = 24"
definition ZEND_DOUBLE_MAX_LENGTH :: nat where "ZEND_DOUBLE_MAX_LENGTH = 1024"

abbreviation plat :: "engine \<Rightarrow> env" where "plat e \<equiv> platform (runtime e)"

text \<open>\<open>zend_call_stack_overflowed\<close>; \<open>lvl\<close> counts the encoder's frames.\<close>

definition stack_overflowed :: "engine \<Rightarrow> nat \<Rightarrow> bool" where
  "stack_overflowed e lvl \<longleftrightarrow> native_stack_limit (runtime e) \<and> \<not> stack_ok (plat e) lvl"

text \<open>\<open>ZVAL_DEREF\<close>.\<close>

definition zval_deref :: "php_world \<Rightarrow> pval \<Rightarrow> pval" where
  "zval_deref w v = (case v of PReference r \<Rightarrow> ref_cells w r | _ \<Rightarrow> v)"

text \<open>\<open>zend_array_is_list\<close>: the keys are 0, 1, 2 and so on, in this order.\<close>

definition array_is_list :: "(zkey \<times> 'v) list \<Rightarrow> bool" where
  "array_is_list ht \<longleftrightarrow> map fst ht = map (\<lambda>i. KInt (int i)) [0..<length ht]"

definition dw_guarded :: "recursion_flag \<Rightarrow> fastjson_dw_ctx \<Rightarrow> bool" where
  "dw_guarded f s \<longleftrightarrow> f \<in> guards (world s)"

definition dw_protect :: "recursion_flag \<Rightarrow> fastjson_dw_ctx \<Rightarrow> fastjson_dw_ctx" where
  "dw_protect f s = s\<lparr>world := (world s)\<lparr>guards := insert f (guards (world s))\<rparr>\<rparr>"

definition dw_unprotect :: "recursion_flag \<Rightarrow> fastjson_dw_ctx \<Rightarrow> fastjson_dw_ctx" where
  "dw_unprotect f s = s\<lparr>world := (world s)\<lparr>guards := guards (world s) - {f}\<rparr>\<rparr>"

definition dw_release :: "engine \<Rightarrow> pval \<Rightarrow> fastjson_dw_ctx \<Rightarrow> fastjson_dw_ctx" where
  "dw_release e v s = s\<lparr>world := zval_ptr_dtor e v (world s)\<rparr>"

definition dw_release_props :: "engine \<Rightarrow> props_table \<Rightarrow> fastjson_dw_ctx \<Rightarrow> fastjson_dw_ctx" where
  "dw_release_props e props s = s\<lparr>world := zend_release_properties e props (world s)\<rparr>"

definition dw_append :: "bytes \<Rightarrow> fastjson_dw_ctx \<Rightarrow> fastjson_dw_ctx" where
  "dw_append b s = s\<lparr>dw_buf := dw_buf s @ b\<rparr>"

subsection \<open>Errors and the buffer\<close>

definition dw_set_error :: "int \<Rightarrow> string \<Rightarrow> fastjson_dw_ctx \<Rightarrow> fastjson_dw_ctx" where
  "dw_set_error code msg s =
    s\<lparr>dw_error := fastjson_error_state_set code (Some msg),
      world := (world s)\<lparr>globals := fastjson_set_error_code code msg (globals (world s))\<rparr>\<rparr>"

definition dw_fail_too_large :: "fastjson_dw_ctx \<Rightarrow> bool \<times> fastjson_dw_ctx" where
  "dw_fail_too_large s = (False, dw_set_error FASTJSON_ERROR_UNSUPPORTED_TYPE ''Encoded JSON string is too large'' s)"

definition dw_reserve :: "engine \<Rightarrow> nat \<Rightarrow> fastjson_dw_ctx \<Rightarrow> bool \<times> fastjson_dw_ctx" where
  "dw_reserve e add_len s =
    (if zstr_max (plat e) - length (dw_buf s) < add_len then dw_fail_too_large s else (True, s))"

definition dw_reserve_string :: "engine \<Rightarrow> nat \<Rightarrow> fastjson_dw_ctx \<Rightarrow> bool \<times> fastjson_dw_ctx" where
  "dw_reserve_string e len s =
    (if (zstr_max (plat e) - 2) div 6 < len then dw_fail_too_large s else dw_reserve e (len * 6 + 2) s)"

definition dw_emit_newline_indent :: "engine \<Rightarrow> int \<Rightarrow> fastjson_dw_ctx \<Rightarrow> fastjson_dw_ctx" where
  "dw_emit_newline_indent e level s =
    s\<lparr>dw_buf := fastjson_append_newline_indent (zstr_max (plat e)) (dw_buf s) level\<rparr>"

definition dw_apply_hex_escapes :: "engine \<Rightarrow> nat \<Rightarrow> fastjson_dw_ctx \<Rightarrow> bool \<times> fastjson_dw_ctx" where
  "dw_apply_hex_escapes e start_pos s =
    (if dw_flags s AND FASTJSON_ENCODE_HEX_MASK = 0 then (True, s)
     else case fastjson_apply_hex_escapes (zstr_max (plat e)) (dw_buf s) (dw_flags s) start_pos of
         None \<Rightarrow> dw_fail_too_large s
       | Some b \<Rightarrow> (True, s\<lparr>dw_buf := b\<rparr>))"

definition dw_partial_or_fail :: "int \<Rightarrow> string \<Rightarrow> bool \<Rightarrow> fastjson_dw_ctx \<Rightarrow> bool \<times> fastjson_dw_ctx" where
  "dw_partial_or_fail error_code error_msg emit_zero_not_null s =
    (let s = dw_set_error error_code error_msg s in
     if partial_output s then
       (True, if emit_zero_not_null then dw_append [0x30] s else dw_append (ascii ''null'') s)
     else (False, s))"

definition dw_depth_fail :: "fastjson_dw_ctx \<Rightarrow> bool \<times> fastjson_dw_ctx" where
  "dw_depth_fail s = dw_partial_or_fail FASTJSON_ERROR_DEPTH ''Maximum stack depth exceeded'' False s"

definition dw_recursion_fail :: "fastjson_dw_ctx \<Rightarrow> bool \<times> fastjson_dw_ctx" where
  "dw_recursion_fail s = dw_partial_or_fail FASTJSON_ERROR_RECURSION ''Recursion detected'' False s"

definition dw_utf8_error :: "fastjson_dw_ctx \<Rightarrow> fastjson_dw_ctx" where
  "dw_utf8_error s = dw_set_error FASTJSON_ERROR_UTF8 ''Malformed UTF-8 characters, possibly incorrectly encoded'' s"

subsection \<open>Strings\<close>

text \<open>One attempt to write a string at the end of the buffer, by the sized writer or in one pass.\<close>

definition dw_try_string :: "engine \<Rightarrow> bytes \<Rightarrow> fastjson_dw_ctx \<Rightarrow> fj_string_size_status \<times> bytes" where
  "dw_try_string e s c =
    (if fastjson_string_wants_sized_writer (buf_cap (plat e) (dw_buf c)) (dw_buf c) (length s) then
       fastjson_write_large_json_string (zstr_max (plat e)) (dw_buf c) s (dw_yflags c)
     else if \<not> fst (dw_reserve_string e (length s) c) then (FJ_STRING_SIZE_TOO_LARGE, dw_buf c)
     else case yyjson_write_string_to_buf s (dw_yflags c) of
         None \<Rightarrow> (FJ_STRING_SIZE_INVALID_UTF8, dw_buf c)
       | Some w \<Rightarrow> (FJ_STRING_SIZE_OK, dw_buf c @ w))"

definition dw_emit_string_ex :: "engine \<Rightarrow> bytes \<Rightarrow> bool \<Rightarrow> fastjson_dw_ctx \<Rightarrow> bool \<times> fastjson_dw_ctx" where
  "dw_emit_string_ex e s is_key c =
    (let start_pos = length (dw_buf c);
         invalid = (\<lambda>c. let c = dw_utf8_error c in
           if partial_output c then (True, dw_append (if is_key then [0x22, 0x22] else ascii ''null'') c)
           else (False, c))
     in case dw_try_string e s c of
          (FJ_STRING_SIZE_OK, b) \<Rightarrow> dw_apply_hex_escapes e start_pos (c\<lparr>dw_buf := b\<rparr>)
        | (FJ_STRING_SIZE_TOO_LARGE, _) \<Rightarrow> dw_fail_too_large c
        | (FJ_STRING_SIZE_INVALID_UTF8, _) \<Rightarrow>
            if FASTJSON_HAS_UTF8_HANDLING_FLAG (dw_flags c) then
              (case dw_try_string e (fastjson_sanitize_utf8 s (dw_flags c) FJ_SAN_ENCODE) c of
                 (FJ_STRING_SIZE_OK, b) \<Rightarrow> dw_apply_hex_escapes e start_pos (c\<lparr>dw_buf := b\<rparr>)
               | (FJ_STRING_SIZE_TOO_LARGE, _) \<Rightarrow> dw_fail_too_large c
               | (FJ_STRING_SIZE_INVALID_UTF8, _) \<Rightarrow> invalid c)
            else invalid c)"

definition dw_emit_string :: "engine \<Rightarrow> bytes \<Rightarrow> fastjson_dw_ctx \<Rightarrow> bool \<times> fastjson_dw_ctx" where
  "dw_emit_string e s c = dw_emit_string_ex e s False c"

subsection \<open>Numbers\<close>

text \<open>\<open>yyjson_write_number\<close> has a text for every integer.\<close>

definition dw_emit_long :: "engine \<Rightarrow> 64 word \<Rightarrow> fastjson_dw_ctx \<Rightarrow> fastjson_dw_ctx" where
  "dw_emit_long e n s = (case write_number (plat e) (YSint n) of Some t \<Rightarrow> dw_append t s | None \<Rightarrow> s)"

text \<open>\<open>fabs (d) < 1e17\<close> and \<open>a == b\<close> on the bit patterns of doubles.\<close>

definition f64_abs :: "64 word \<Rightarrow> 64 word" where
  "f64_abs d = d AND 0x7FFFFFFFFFFFFFFF"

definition f64_abs_below_1e17 :: "64 word \<Rightarrow> bool" where
  "f64_abs_below_1e17 d \<longleftrightarrow> f64_abs d < 0x4376345785D8A000"

definition f64_eq :: "64 word \<Rightarrow> 64 word \<Rightarrow> bool" where
  "f64_eq a b \<longleftrightarrow> f64_abs a \<le> 0x7FF0000000000000 \<and> f64_abs b \<le> 0x7FF0000000000000 \<and>
    (a = b \<or> f64_abs a = 0 \<and> f64_abs b = 0)"

definition dw_emit_double :: "engine \<Rightarrow> 64 word \<Rightarrow> fastjson_dw_ctx \<Rightarrow> bool \<times> fastjson_dw_ctx" where
  "dw_emit_double e d s =
    (if \<not> f64_isfinite d then
       (let s = dw_set_error FASTJSON_ERROR_INF_OR_NAN ''Inf and NaN cannot be JSON encoded'' s in
        if partial_output s then (True, dw_append [0x30] s)
        else (False, s\<lparr>hard_error := True, dw_buf := []\<rparr>))
     else
       let preserve = has_flag (dw_flags s) FASTJSON_ENCODE_PRESERVE_ZERO_FRACTION;
           precision = serialize_precision (world s)
       in if precision \<noteq> -1 then
            (let num = php_gcvt e d precision;
                 num = (if preserve \<and> 0x2E \<notin> set num \<and> length num < ZEND_DOUBLE_MAX_LENGTH - 2
                        then num @ [0x2E, 0x30] else num)
             in (True, dw_append num s))
          else if d = 0x8000000000000000 then
            (True, dw_append (if preserve then ascii ''-0.0'' else ascii ''-0'') s)
          else if \<not> preserve \<and> f64_abs_below_1e17 d \<and> f64_eq (s64_to_double (runtime e) (double_to_long e d)) d then
            (True, dw_emit_long e (double_to_long e d) s)
          else case write_number (plat e) (YReal d) of
            Some t \<Rightarrow> (True, dw_append t s)
          | None \<Rightarrow>
              let s = dw_set_error FASTJSON_ERROR_INF_OR_NAN ''Inf and NaN cannot be JSON encoded'' s in
              if partial_output s then (True, dw_append [0x30] s) else (False, s))"

definition dw_emit_object_key :: "engine \<Rightarrow> zkey \<Rightarrow> fastjson_dw_ctx \<Rightarrow> bool \<times> fastjson_dw_ctx" where
  "dw_emit_object_key e key s =
    (let (ok, s) =
       (case key of
          KStr k \<Rightarrow> dw_emit_string_ex e k True s
        | KInt index \<Rightarrow>
            case dw_reserve e (FASTJSON_NUM_INT_WORST + 2) s of
              (False, s) \<Rightarrow> (False, s)
            | (True, s) \<Rightarrow>
                (True, dw_append [0x22] (dw_emit_long e (word_of_int index) (dw_append [0x22] s))))
     in if \<not> ok then (False, s)
        else let s = dw_append [0x3A] s in (True, if pretty_print s then dw_append [0x20] s else s))"

text \<open>The NUMERIC_CHECK test that spares a string the engine's number scan.\<close>

definition c_isspace :: "byte \<Rightarrow> bool" where
  "c_isspace c \<longleftrightarrow> c = 0x20 \<or> (0x09 \<le> c \<and> c \<le> 0x0D)"

definition may_be_numeric :: "bytes \<Rightarrow> bool" where
  "may_be_numeric s \<longleftrightarrow>
    s = [] \<or> c_isspace (hd s) \<or> hd s = 0x2D \<or> hd s = 0x2B \<or> hd s = 0x2E \<or> (0x30 \<le> hd s \<and> hd s \<le> 0x39)"

definition dw_emit_string_value :: "engine \<Rightarrow> bytes \<Rightarrow> fastjson_dw_ctx \<Rightarrow> bool \<times> fastjson_dw_ctx" where
  "dw_emit_string_value e str s =
    (if has_flag (dw_flags s) FASTJSON_ENCODE_NUMERIC_CHECK \<and> may_be_numeric str then
       (case is_numeric_string e str of
          NumLong lval \<Rightarrow> (True, dw_emit_long e lval s)
        | NumDouble dval \<Rightarrow> if f64_isfinite dval then dw_emit_double e dval s else dw_emit_string e str s
        | NotNumeric \<Rightarrow> dw_emit_string e str s)
     else dw_emit_string e str s)"

text \<open>What a function still does to the state before it returns its flag.\<close>

definition dw_finally :: "(fastjson_dw_ctx \<Rightarrow> fastjson_dw_ctx) \<Rightarrow> (bool \<times> fastjson_dw_ctx) option \<Rightarrow> (bool \<times> fastjson_dw_ctx) option" where
  "dw_finally f r = map_option (map_prod id f) r"

subsection \<open>After a hard error: visiting what is left\<close>

text \<open>As \<open>json_encode\<close> keeps looking for errors behind an infinity, the rest of every open container is
  visited without output. \<open>disc\<close> is \<open>dw_discard_zval\<close> with the frames above it.\<close>

type_synonym dw_call = "pval \<Rightarrow> int \<Rightarrow> fastjson_dw_ctx \<Rightarrow> dw_res"

definition dw_discard_string :: "engine \<Rightarrow> bytes \<Rightarrow> fastjson_dw_ctx \<Rightarrow> bool \<times> fastjson_dw_ctx" where
  "dw_discard_string e str s =
    (if (zstr_max (plat e) - 2) div 6 < length str then dw_fail_too_large s
     else if FASTJSON_HAS_UTF8_HANDLING_FLAG (dw_flags s) \<or> fastjson_utf8_well_formed str then (True, s)
     else (False, dw_utf8_error s))"

text \<open>A call that returned \<open>true\<close>, then the next one.\<close>

definition dw_then :: "dw_res \<Rightarrow> (fastjson_dw_ctx \<Rightarrow> dw_res) \<Rightarrow> dw_res" where
  "dw_then r f = (case r of None \<Rightarrow> None | Some (ok, s) \<Rightarrow> if ok then f s else Some (False, s))"

fun dw_discard_array_range :: "engine \<Rightarrow> dw_call \<Rightarrow> (zkey \<times> pval) list \<Rightarrow> int \<Rightarrow> bool \<Rightarrow> fastjson_dw_ctx \<Rightarrow> dw_res" where
  "dw_discard_array_range e disc [] remaining_depth as_list s = Some (True, s)"
| "dw_discard_array_range e disc ((key, item) # ht) remaining_depth as_list s =
    dw_then (Some (if as_list then (True, s)
        else case key of KStr k \<Rightarrow> dw_discard_string e k s | KInt _ \<Rightarrow> (True, s))) (\<lambda>s.
      dw_then (disc (zval_deref (world s) item) remaining_depth s)
        (\<lambda>s. dw_discard_array_range e disc ht remaining_depth as_list s))"

definition dw_discard_array :: "engine \<Rightarrow> dw_call \<Rightarrow> nat option \<Rightarrow> (zkey \<times> pval) list \<Rightarrow> int \<Rightarrow> bool \<Rightarrow> nat
    \<Rightarrow> fastjson_dw_ctx \<Rightarrow> dw_res" where
  "dw_discard_array e disc ident ht remaining_depth force_object lvl s =
    (if stack_overflowed e lvl then Some (dw_depth_fail s)
     else if remaining_depth \<le> 0 then Some (dw_depth_fail s)
     else
       let as_list = \<not> force_object \<and> array_is_list ht in
       case ident of
         None \<Rightarrow> dw_discard_array_range e disc ht (remaining_depth - 1) as_list s
       | Some i \<Rightarrow>
           if dw_guarded (GuardArray i) s then Some (dw_recursion_fail s)
           else dw_finally (dw_unprotect (GuardArray i))
             (dw_discard_array_range e disc ht (remaining_depth - 1) as_list (dw_protect (GuardArray i) s)))"

text \<open>A mangled name of a private or protected property.\<close>

definition mangled :: "zkey \<Rightarrow> bool" where
  "mangled key \<longleftrightarrow> (case key of KStr k \<Rightarrow> k \<noteq> [] \<and> hd k = 0 | KInt _ \<Rightarrow> False)"

definition slot_value :: "php_world \<Rightarrow> prop_slot \<Rightarrow> pval option" where
  "slot_value w item = (case item of PropValue v \<Rightarrow> Some v | PropIndirect n \<Rightarrow> prop_slots w n | PropHook _ _ \<Rightarrow> None)"

definition dw_discard_object_property :: "engine \<Rightarrow> dw_call \<Rightarrow> zkey \<Rightarrow> prop_slot \<Rightarrow> int \<Rightarrow> fastjson_dw_ctx \<Rightarrow> dw_res" where
  "dw_discard_object_property e disc key item remaining_depth s =
    (if mangled key then Some (True, s)
     else case slot_value (world s) item of
         None \<Rightarrow> Some (True, s)
       | Some v \<Rightarrow>
           dw_then (Some (case key of KStr k \<Rightarrow> dw_discard_string e k s | KInt _ \<Rightarrow> (True, s)))
             (\<lambda>s. disc (zval_deref (world s) v) remaining_depth s))"

fun dw_discard_object_props_range :: "engine \<Rightarrow> dw_call \<Rightarrow> (zkey \<times> prop_slot) list \<Rightarrow> int \<Rightarrow> fastjson_dw_ctx \<Rightarrow> dw_res" where
  "dw_discard_object_props_range e disc [] remaining_depth s = Some (True, s)"
| "dw_discard_object_props_range e disc ((key, item) # props) remaining_depth s =
    dw_then (dw_discard_object_property e disc key item remaining_depth s)
      (\<lambda>s. dw_discard_object_props_range e disc props remaining_depth s)"

text \<open>What carries the recursion flag while an object's properties are walked.\<close>

definition props_guard :: "engine \<Rightarrow> nat \<Rightarrow> props_table \<Rightarrow> recursion_flag option" where
  "props_guard e obj props =
    (if has_hooks (class_of e obj) then Some (GuardObject obj)
     else if pt_immutable props then None else Some (GuardProps (pt_id props)))"

definition dw_get_properties :: "engine \<Rightarrow> nat \<Rightarrow> fastjson_dw_ctx \<Rightarrow> props_table option \<times> fastjson_dw_ctx" where
  "dw_get_properties e obj s = (let (props, w) = get_properties e obj (world s) in (props, s\<lparr>world := w\<rparr>))"

definition dw_discard_object_props :: "engine \<Rightarrow> dw_call \<Rightarrow> nat \<Rightarrow> int \<Rightarrow> fastjson_dw_ctx \<Rightarrow> dw_res" where
  "dw_discard_object_props e disc obj remaining_depth s =
    (case dw_get_properties e obj s of
       (None, s) \<Rightarrow> Some (\<not> exception (world s), s)
     | (Some props, s) \<Rightarrow>
         case props_guard e obj props of
           None \<Rightarrow> dw_finally (dw_release_props e props)
             (dw_discard_object_props_range e disc (pt_entries props) (remaining_depth - 1) s)
         | Some f \<Rightarrow>
             if dw_guarded f s then Some (dw_recursion_fail (dw_release_props e props s))
             else dw_finally (\<lambda>s. dw_release_props e props (dw_unprotect f s))
               (dw_discard_object_props_range e disc (pt_entries props) (remaining_depth - 1) (dw_protect f s)))"

definition dw_enum_fail :: "fastjson_dw_ctx \<Rightarrow> bool \<times> fastjson_dw_ctx" where
  "dw_enum_fail s =
    dw_partial_or_fail FASTJSON_ERROR_NON_BACKED_ENUM ''Non-backed enums have no default serialization'' True s"

definition dw_discard_object :: "engine \<Rightarrow> dw_call \<Rightarrow> nat \<Rightarrow> int \<Rightarrow> nat \<Rightarrow> fastjson_dw_ctx \<Rightarrow> dw_res" where
  "dw_discard_object e disc obj remaining_depth lvl s =
    (if stack_overflowed e lvl then Some (dw_depth_fail s)
     else if json_serializable (class_of e obj) then Some (True, s)
     else case enum_case (class_of e obj) of
         Some None \<Rightarrow> Some (dw_enum_fail s)
       | Some (Some backing) \<Rightarrow> disc backing remaining_depth s
       | None \<Rightarrow>
           if remaining_depth \<le> 0 then Some (dw_depth_fail s)
           else dw_discard_object_props e disc obj remaining_depth s)"

definition dw_discard_zval_inner :: "engine \<Rightarrow> dw_call \<Rightarrow> pval \<Rightarrow> int \<Rightarrow> nat \<Rightarrow> fastjson_dw_ctx \<Rightarrow> dw_res" where
  "dw_discard_zval_inner e disc zv remaining_depth lvl s =
    (case zv of
       PNull \<Rightarrow> Some (True, s)
     | PBool _ \<Rightarrow> Some (True, s)
     | PLong _ \<Rightarrow> Some (True, s)
     | PDouble d \<Rightarrow>
         Some (True, if \<not> f64_isfinite d \<and> \<not> hard_error s
           then dw_set_error FASTJSON_ERROR_INF_OR_NAN ''Inf and NaN cannot be JSON encoded'' s else s)
     | PString str \<Rightarrow>
         Some (if has_flag (dw_flags s) FASTJSON_ENCODE_NUMERIC_CHECK \<and> may_be_numeric str \<and>
             (case is_numeric_string e str of NumLong _ \<Rightarrow> True | NumDouble dval \<Rightarrow> f64_isfinite dval | NotNumeric \<Rightarrow> False)
           then (True, s) else dw_discard_string e str s)
     | PArray ident ht \<Rightarrow>
         dw_finally (dw_release e (PArray ident ht))
           (dw_discard_array e disc ident ht remaining_depth (has_flag (dw_flags s) FASTJSON_ENCODE_FORCE_OBJECT) lvl s)
     | PObject obj \<Rightarrow> dw_discard_object e disc obj remaining_depth lvl s
     | PReference r \<Rightarrow> disc (ref_cells (world s) r) remaining_depth s
     | PUnsupported \<Rightarrow> Some (dw_partial_or_fail FASTJSON_ERROR_UNSUPPORTED_TYPE ''Type is not supported'' False s))"

text \<open>Without a native stack limit the calls are counted.\<close>

definition dw_counted :: "engine \<Rightarrow> (fastjson_dw_ctx \<Rightarrow> dw_res) \<Rightarrow> fastjson_dw_ctx \<Rightarrow> dw_res" where
  "dw_counted e f s =
    (if native_stack_limit (runtime e) then f s
     else if 1024 \<le> call_depth s then Some (dw_depth_fail s)
     else dw_finally (\<lambda>s. s\<lparr>call_depth := call_depth s - 1\<rparr>) (f (s\<lparr>call_depth := call_depth s + 1\<rparr>)))"

primrec dw_discard_zval :: "engine \<Rightarrow> nat \<Rightarrow> nat \<Rightarrow> dw_call" where
  "dw_discard_zval e 0 lvl zv remaining_depth s = None"
| "dw_discard_zval e (Suc n) lvl zv remaining_depth s =
    dw_counted e (dw_discard_zval_inner e (dw_discard_zval e n (lvl + 1)) zv remaining_depth lvl) s"

subsection \<open>Containers\<close>

text \<open>The tail of a container behind a failed element: after a hard error it is visited once, and an error in
  it stops every enclosing container from starting its own visit. The element's failure stands.\<close>

definition dw_after_failure :: "(fastjson_dw_ctx \<Rightarrow> dw_res) \<Rightarrow> fastjson_dw_ctx \<Rightarrow> dw_res" where
  "dw_after_failure discard s =
    (if hard_error s \<and> \<not> discard_aborted s then
       (case discard s of
          None \<Rightarrow> None
        | Some (ok, s) \<Rightarrow> Some (False, if ok then s else s\<lparr>discard_aborted := True\<rparr>))
     else Some (False, s))"

definition dw_else :: "dw_res \<Rightarrow> (fastjson_dw_ctx \<Rightarrow> dw_res) \<Rightarrow> (fastjson_dw_ctx \<Rightarrow> dw_res) \<Rightarrow> dw_res" where
  "dw_else r success failure =
    (case r of None \<Rightarrow> None | Some (ok, s) \<Rightarrow> if ok then success s else failure s)"

definition dw_separator :: "engine \<Rightarrow> bool \<Rightarrow> fastjson_dw_ctx \<Rightarrow> fastjson_dw_ctx" where
  "dw_separator e first s =
    (let s = (if \<not> first then dw_append [0x2C] s else s)
     in if pretty_print s then dw_emit_newline_indent e (indent_level s) s else s)"

text \<open>The elements of an array, as a list or as an object; \<open>remaining_depth\<close> is that of the elements.\<close>

fun dw_emit_elements :: "engine \<Rightarrow> dw_call \<Rightarrow> dw_call \<Rightarrow> bool \<Rightarrow> (zkey \<times> pval) list \<Rightarrow> int \<Rightarrow> bool \<Rightarrow> fastjson_dw_ctx \<Rightarrow> dw_res" where
  "dw_emit_elements e enc disc as_list [] remaining_depth first s = Some (True, s)"
| "dw_emit_elements e enc disc as_list ((key, item) # ht) remaining_depth first s =
    (let item = zval_deref (world s) item;
         s = dw_separator e first s
     in dw_else
          (dw_then (Some (if as_list then (True, s) else dw_emit_object_key e key s)) (enc item remaining_depth))
          (dw_emit_elements e enc disc as_list ht remaining_depth False)
          (dw_after_failure (dw_discard_array_range e disc ht remaining_depth as_list)))"

definition dw_emit_array :: "engine \<Rightarrow> dw_call \<Rightarrow> dw_call \<Rightarrow> nat option \<Rightarrow> (zkey \<times> pval) list \<Rightarrow> int \<Rightarrow> bool \<Rightarrow> nat
    \<Rightarrow> fastjson_dw_ctx \<Rightarrow> dw_res" where
  "dw_emit_array e enc disc ident ht remaining_depth force_object lvl s =
    (if stack_overflowed e lvl then Some (dw_depth_fail s)
     else if remaining_depth \<le> 0 then Some (dw_depth_fail s)
     else if (case ident of Some i \<Rightarrow> dw_guarded (GuardArray i) s | None \<Rightarrow> False) then Some (dw_recursion_fail s)
     else
       let s = (case ident of Some i \<Rightarrow> dw_protect (GuardArray i) s | None \<Rightarrow> s);
           unprotect = (\<lambda>s. case ident of Some i \<Rightarrow> dw_unprotect (GuardArray i) s | None \<Rightarrow> s);
           as_list = \<not> force_object \<and> array_is_list ht;
           pretty = pretty_print s;
           nonempty = ht \<noteq> [];
           s = dw_append (if as_list then [0x5B] else [0x7B]) s;
           s = (if pretty \<and> nonempty then s\<lparr>indent_level := indent_level s + 1\<rparr> else s)
       in dw_else (dw_emit_elements e enc disc as_list ht (remaining_depth - 1) True s)
            (\<lambda>s. let s = (if pretty \<and> nonempty then
                    let s = s\<lparr>indent_level := indent_level s - 1\<rparr> in dw_emit_newline_indent e (indent_level s) s else s)
               in Some (True, unprotect (dw_append (if as_list then [0x5D] else [0x7D]) s)))
            (\<lambda>s. let s = unprotect s
               in Some (False, if pretty \<and> nonempty then s\<lparr>indent_level := indent_level s - 1\<rparr> else s)))"

text \<open>The value of a property: read from its slot or by its hook. The outer \<open>None\<close> is an exception of the hook.\<close>

definition dw_read_property :: "engine \<Rightarrow> nat \<Rightarrow> prop_slot \<Rightarrow> fastjson_dw_ctx \<Rightarrow> pval option option \<times> fastjson_dw_ctx" where
  "dw_read_property e obj item s =
    (case item of
       PropHook info no_get \<Rightarrow>
         if no_get then (Some None, s)
         else let (hooked, w) = read_hook e obj info (world s); s = s\<lparr>world := w\<rparr>
           in if exception w then (None, case hooked of Some v \<Rightarrow> dw_release e v s | None \<Rightarrow> s) else (Some hooked, s)
     | _ \<Rightarrow> (Some (slot_value (world s) item), s))"

fun dw_emit_props :: "engine \<Rightarrow> dw_call \<Rightarrow> dw_call \<Rightarrow> nat \<Rightarrow> (zkey \<times> prop_slot) list \<Rightarrow> int \<Rightarrow> bool \<Rightarrow> bool \<Rightarrow> fastjson_dw_ctx \<Rightarrow> dw_res" where
  "dw_emit_props e enc disc obj [] remaining_depth first body_open s =
    (let s = (if body_open then
           let s = s\<lparr>indent_level := indent_level s - 1\<rparr> in dw_emit_newline_indent e (indent_level s) s else s)
     in Some (True, dw_append [0x7D] s))"
| "dw_emit_props e enc disc obj ((key, item) # props) remaining_depth first body_open s =
    (if mangled key then dw_emit_props e enc disc obj props remaining_depth first body_open s
     else case dw_read_property e obj item s of
         (None, s) \<Rightarrow> Some (False, if body_open then s\<lparr>indent_level := indent_level s - 1\<rparr> else s)
       | (Some None, s) \<Rightarrow> dw_emit_props e enc disc obj props remaining_depth first body_open s
       | (Some (Some hooked), s) \<Rightarrow>
           let v = zval_deref (world s) hooked;
               s = (if pretty_print s \<and> \<not> body_open then s\<lparr>indent_level := indent_level s + 1\<rparr> else s);
               body_open = (body_open \<or> pretty_print s);
               s = dw_separator e first s;
               release = (\<lambda>s. case item of PropHook _ _ \<Rightarrow> dw_release e hooked s | _ \<Rightarrow> s)
           in dw_else
                (dw_then (Some (dw_emit_object_key e key s)) (enc v remaining_depth))
                (\<lambda>s. dw_emit_props e enc disc obj props remaining_depth False body_open (release s))
                (\<lambda>s. dw_finally (\<lambda>s. if body_open then s\<lparr>indent_level := indent_level s - 1\<rparr> else s)
                   (dw_after_failure (dw_discard_object_props_range e disc props remaining_depth) (release s))))"

definition dw_emit_object_props :: "engine \<Rightarrow> dw_call \<Rightarrow> dw_call \<Rightarrow> nat \<Rightarrow> int \<Rightarrow> fastjson_dw_ctx \<Rightarrow> dw_res" where
  "dw_emit_object_props e enc disc obj remaining_depth s =
    (case dw_get_properties e obj s of
       (None, s) \<Rightarrow> if exception (world s) then Some (False, s) else Some (True, dw_append [0x7B, 0x7D] s)
     | (Some props, s) \<Rightarrow>
         case props_guard e obj props of
           None \<Rightarrow> dw_finally (dw_release_props e props)
             (dw_emit_props e enc disc obj (pt_entries props) (remaining_depth - 1) True False (dw_append [0x7B] s))
         | Some f \<Rightarrow>
             if dw_guarded f s then Some (dw_recursion_fail (dw_release_props e props s))
             else dw_finally (\<lambda>s. dw_release_props e props (dw_unprotect f s))
               (dw_emit_props e enc disc obj (pt_entries props) (remaining_depth - 1) True False
                 (dw_append [0x7B] (dw_protect f s))))"

definition dw_emit_jsonserializable :: "engine \<Rightarrow> dw_call \<Rightarrow> dw_call \<Rightarrow> nat \<Rightarrow> int \<Rightarrow> fastjson_dw_ctx \<Rightarrow> dw_res" where
  "dw_emit_jsonserializable e enc disc obj remaining_depth s =
    (if dw_guarded (GuardJson obj) s then Some (dw_recursion_fail s)
     else
       let s = dw_protect (GuardJson obj) s;
           (retval, w) = json_serialize e obj (world s);
           s = s\<lparr>world := w\<rparr>;
           release = (\<lambda>s. dw_release e (PObject obj) (dw_release e retval s))
       in if exception w then Some (False, release (dw_unprotect (GuardJson obj) s))
          else if retval = PObject obj then
            let s = dw_unprotect (GuardJson obj) s in
            dw_finally release
              (if remaining_depth \<le> 0 then Some (dw_depth_fail s)
               else dw_emit_object_props e enc disc obj remaining_depth s)
          else dw_finally (\<lambda>s. release (dw_unprotect (GuardJson obj) s)) (enc retval remaining_depth s))"

definition dw_emit_object :: "engine \<Rightarrow> dw_call \<Rightarrow> dw_call \<Rightarrow> nat \<Rightarrow> int \<Rightarrow> nat \<Rightarrow> fastjson_dw_ctx \<Rightarrow> dw_res" where
  "dw_emit_object e enc disc obj remaining_depth lvl s =
    (if stack_overflowed e lvl then Some (dw_depth_fail s)
     else if json_serializable (class_of e obj) then dw_emit_jsonserializable e enc disc obj remaining_depth s
     else case enum_case (class_of e obj) of
         Some None \<Rightarrow> Some (dw_enum_fail s)
       | Some (Some backing) \<Rightarrow> enc backing remaining_depth s
       | None \<Rightarrow>
           if remaining_depth \<le> 0 then Some (dw_depth_fail s)
           else dw_finally (dw_release e (PObject obj)) (dw_emit_object_props e enc disc obj remaining_depth s))"

definition dw_encode_zval_inner :: "engine \<Rightarrow> dw_call \<Rightarrow> dw_call \<Rightarrow> pval \<Rightarrow> int \<Rightarrow> nat \<Rightarrow> fastjson_dw_ctx \<Rightarrow> dw_res" where
  "dw_encode_zval_inner e enc disc zv remaining_depth lvl s =
    (case zv of
       PNull \<Rightarrow> Some (True, dw_append (ascii ''null'') s)
     | PBool b \<Rightarrow> Some (True, dw_append (if b then ascii ''true'' else ascii ''false'') s)
     | PLong n \<Rightarrow> Some (True, dw_emit_long e n s)
     | PDouble d \<Rightarrow> Some (dw_emit_double e d s)
     | PString str \<Rightarrow> Some (dw_emit_string_value e str s)
     | PArray ident ht \<Rightarrow>
         dw_finally (dw_release e (PArray ident ht))
           (dw_emit_array e enc disc ident ht remaining_depth (has_flag (dw_flags s) FASTJSON_ENCODE_FORCE_OBJECT) lvl s)
     | PObject obj \<Rightarrow> dw_emit_object e enc disc obj remaining_depth lvl s
     | PReference r \<Rightarrow> enc (ref_cells (world s) r) remaining_depth s
     | PUnsupported \<Rightarrow> Some (dw_partial_or_fail FASTJSON_ERROR_UNSUPPORTED_TYPE ''Type is not supported'' False s))"

primrec dw_encode_zval :: "engine \<Rightarrow> nat \<Rightarrow> nat \<Rightarrow> dw_call" where
  "dw_encode_zval e 0 lvl zv remaining_depth s = None"
| "dw_encode_zval e (Suc n) lvl zv remaining_depth s =
    dw_counted e
      (dw_encode_zval_inner e (dw_encode_zval e n (lvl + 1)) (dw_discard_zval e n (lvl + 1)) zv remaining_depth lvl) s"

subsection \<open>The encoder\<close>

definition fastjson_directwrite_encode :: "engine \<Rightarrow> nat \<Rightarrow> pval \<Rightarrow> zend_long \<Rightarrow> int \<Rightarrow> php_world
    \<Rightarrow> (bytes option \<times> fastjson_error_state \<times> php_world) option" where
  "fastjson_directwrite_encode e n val flags depth w =
    (case val of
       PNull \<Rightarrow> Some (Some (ascii ''null''), fastjson_error_state_clear, w)
     | PBool False \<Rightarrow> Some (Some (ascii ''false''), fastjson_error_state_clear, w)
     | PBool True \<Rightarrow> Some (Some (ascii ''true''), fastjson_error_state_clear, w)
     | PLong i \<Rightarrow> Some (Some (zend_long_to_str e i), fastjson_error_state_clear, w)
     | _ \<Rightarrow>
        let ctx = \<lparr>dw_buf = [], dw_flags = flags, dw_yflags = fastjson_translate_write_flags flags False,
              partial_output = has_flag flags FASTJSON_ENCODE_PARTIAL_OUTPUT_ON_ERROR,
              pretty_print = has_flag flags FASTJSON_ENCODE_PRETTY_PRINT, hard_error = False, discard_aborted = False,
              dw_error = fastjson_error_state_clear, call_depth = 0, indent_level = 0, world = w\<rparr>
        in case dw_encode_zval e n 0 val depth ctx of
             None \<Rightarrow> None
           | Some (ok, ctx) \<Rightarrow>
               Some (if \<not> ok \<or> hard_error ctx then None else Some (dw_buf ctx), dw_error ctx, world ctx))"

end
