(* ===== verification/InfNan.thy ===== *)
theory InfNan
  imports Prelude
begin

text \<open>
  \<open>fastjson_input_has_inf_nan_literal\<close> (fastjson.c): does the text hold \<open>inf\<close> or \<open>nan\<close>, in any case, outside
  strings and comments. It guards the second parse of a document whose first parse stopped at a number:
  the retry admits the literals only so that an overflowing exponent becomes an infinity.
\<close>

subsection \<open>The scan\<close>

definition lower :: "byte \<Rightarrow> byte" where "lower c = c OR 0x20"

definition is_eol :: "byte \<Rightarrow> bool" where "is_eol c \<longleftrightarrow> c = 0x0A \<or> c = 0x0D"

text \<open>A line comment from behind its \<open>//\<close>: the newline is passed by the \<open>i++\<close> of the loop.\<close>

fun skip_line :: "bytes \<Rightarrow> bytes" where
  "skip_line [] = []"
| "skip_line (c # t) = (if is_eol c then t else skip_line t)"

text \<open>A block comment from behind its \<open>/*\<close>.\<close>

fun skip_block :: "bytes \<Rightarrow> bytes" where
  "skip_block (c # d # t) = (if c = 0x2A \<and> d = 0x2F then t else skip_block (d # t))"
| "skip_block t = []"

lemma skip_line_length: "length (skip_line t) \<le> length t"
  by (induction t) auto

lemma skip_block_length: "length (skip_block t) \<le> length t"
  by (induction t rule: skip_block.induct) auto

definition inf_nan_here :: "byte \<Rightarrow> bytes \<Rightarrow> bool" where
  "inf_nan_here c t =
    (let lc = lower c in
     if lc = 0x69 \<and> 2 \<le> length t \<and> lower (t ! 0) = 0x6E \<and> lower (t ! 1) = 0x66 then True
     else lc = 0x6E \<and> 2 \<le> length t \<and> lower (t ! 0) = 0x61 \<and> lower (t ! 1) = 0x6E)"

function inf_nan_loop :: "bool \<Rightarrow> bool \<Rightarrow> bool \<Rightarrow> bytes \<Rightarrow> bool" where
  "inf_nan_loop allow_comments in_str escape [] = False"
| "inf_nan_loop allow_comments in_str escape (c # t) =
    (if in_str then
       (if escape then inf_nan_loop allow_comments True False t
        else if c = 0x5C then inf_nan_loop allow_comments True True t
        else if c = 0x22 then inf_nan_loop allow_comments False False t
        else inf_nan_loop allow_comments True False t)
     else if allow_comments \<and> c = 0x2F \<and> t \<noteq> [] \<and> hd t = 0x2F then
       inf_nan_loop allow_comments in_str escape (skip_line (tl t))
     else if allow_comments \<and> c = 0x2F \<and> t \<noteq> [] \<and> hd t = 0x2A then
       inf_nan_loop allow_comments in_str escape (skip_block (tl t))
     else if c = 0x22 then inf_nan_loop allow_comments True escape t
     else if inf_nan_here c t then True
     else inf_nan_loop allow_comments in_str escape t)"
  by pat_completeness auto
termination
proof (relation "measure (\<lambda>(_, _, _, r). length r)", goal_cases)
  case (6 a i e c t)
  then show ?case using skip_line_length [of "tl t"] by (cases t) auto
next
  case (7 a i e c t)
  then show ?case using skip_block_length [of "tl t"] by (cases t) auto
qed simp_all

definition fastjson_input_has_inf_nan_literal :: "bytes \<Rightarrow> bool \<Rightarrow> bool" where
  "fastjson_input_has_inf_nan_literal s allow_comments = inf_nan_loop allow_comments False False s"

subsection \<open>Specification\<close>

text \<open>The inside of a string up to its closing quote.\<close>

inductive string_body :: "bytes \<Rightarrow> bool" where
  empty_body: "string_body []"
| plain_char: "c \<noteq> 0x22 \<Longrightarrow> c \<noteq> 0x5C \<Longrightarrow> string_body b \<Longrightarrow> string_body (c # b)"
| escaped_char: "string_body b \<Longrightarrow> string_body (0x5C # c # b)"

fun closes_block :: "bytes \<Rightarrow> bool" where
  "closes_block (c # d # t) \<longleftrightarrow> c = 0x2A \<and> d = 0x2F \<or> closes_block (d # t)"
| "closes_block t \<longleftrightarrow> False"

definition comment_start :: "bool \<Rightarrow> bytes \<Rightarrow> bool" where
  "comment_start allow r \<longleftrightarrow> allow \<and> (\<exists>d t. r = 0x2F # d # t \<and> (d = 0x2F \<or> d = 0x2A))"

text \<open>\<open>outside a s r\<close>: the suffix \<open>r\<close> of \<open>s\<close> starts outside strings and comments.\<close>

inductive outside :: "bool \<Rightarrow> bytes \<Rightarrow> bytes \<Rightarrow> bool" for a s where
  at_start: "outside a s s"
| past_char: "outside a s (c # t) \<Longrightarrow> c \<noteq> 0x22 \<Longrightarrow> \<not> comment_start a (c # t) \<Longrightarrow> outside a s t"
| past_string: "outside a s (0x22 # b @ 0x22 # t) \<Longrightarrow> string_body b \<Longrightarrow> outside a s t"
| past_line: "a \<Longrightarrow> outside a s (0x2F # 0x2F # b @ e # t) \<Longrightarrow> list_all (\<lambda>c. \<not> is_eol c) b \<Longrightarrow> is_eol e \<Longrightarrow> outside a s t"
| past_block: "a \<Longrightarrow> outside a s (0x2F # 0x2A # b @ 0x2A # 0x2F # t) \<Longrightarrow> \<not> closes_block (b @ [0x2A]) \<Longrightarrow> outside a s t"

definition literal_at :: "bytes \<Rightarrow> bool" where
  "literal_at r \<longleftrightarrow> map lower (take 3 r) = [0x69, 0x6E, 0x66] \<or> map lower (take 3 r) = [0x6E, 0x61, 0x6E]"

lemma inf_nan_here_literal: "inf_nan_here c t \<longleftrightarrow> literal_at (c # t)"
proof (cases "2 \<le> length t")
  case True
  then obtain d e u where "t = d # e # u" by (cases t; cases "tl t") auto
  then show ?thesis by (auto simp: inf_nan_here_def literal_at_def Let_def)
next
  case False
  then have "length (take 3 (c # t)) < 3" by simp
  then have "map lower (take 3 (c # t)) \<noteq> [x, y, z]" for x y z
    by (metis length_map length_Cons less_irrefl list.size(3) numeral_3_eq_3)
  with False show ?thesis by (simp add: inf_nan_here_def literal_at_def Let_def)
qed

subsection \<open>The states of the loop\<close>

text \<open>Behind an opening quote.\<close>

lemma loop_in_string:
  "inf_nan_loop a True esc r \<longleftrightarrow>
    (\<exists>b t. (if esc then 0x5C # r else r) = b @ 0x22 # t \<and> string_body b \<and> inf_nan_loop a False False t)"
proof (induction r arbitrary: esc)
  case Nil
  have "\<not> string_body [0x5C]" by (auto elim: string_body.cases)
  then show ?case by (auto simp: Cons_eq_append_conv)
next
  case (Cons c r)
  show ?case
  proof (cases esc)
    case True
    have "(\<exists>b t. 0x5C # c # r = b @ 0x22 # t \<and> string_body b \<and> inf_nan_loop a False False t) \<longleftrightarrow>
        (\<exists>b t. r = b @ 0x22 # t \<and> string_body b \<and> inf_nan_loop a False False t)"
    proof
      assume "\<exists>b t. 0x5C # c # r = b @ 0x22 # t \<and> string_body b \<and> inf_nan_loop a False False t"
      then obtain b t where b: "0x5C # c # r = b @ 0x22 # t" "string_body b" "inf_nan_loop a False False t" by blast
      from b(2,1) obtain b' where "b = 0x5C # c # b'" "string_body b'" by cases auto
      with b show "\<exists>b t. r = b @ 0x22 # t \<and> string_body b \<and> inf_nan_loop a False False t" by auto
    next
      assume "\<exists>b t. r = b @ 0x22 # t \<and> string_body b \<and> inf_nan_loop a False False t"
      then show "\<exists>b t. 0x5C # c # r = b @ 0x22 # t \<and> string_body b \<and> inf_nan_loop a False False t"
        by (metis append_Cons escaped_char)
    qed
    with True Cons.IH [of False] show ?thesis by simp
  next
    case False
    consider "c = 0x5C" | "c = 0x22" | "c \<noteq> 0x5C" "c \<noteq> 0x22" by blast
    then show ?thesis
    proof cases
      case 1
      with False Cons.IH [of True] show ?thesis by simp
    next
      case 2
      have "string_body b \<Longrightarrow> 0x22 # r = b @ 0x22 # t \<Longrightarrow> b = [] \<and> t = r" for b t
        by (erule string_body.cases) auto
      with 2 False empty_body show ?thesis by (auto 0 4)
    next
      case 3
      have "(\<exists>b t. c # r = b @ 0x22 # t \<and> string_body b \<and> inf_nan_loop a False False t) \<longleftrightarrow>
          (\<exists>b t. r = b @ 0x22 # t \<and> string_body b \<and> inf_nan_loop a False False t)"
      proof
        assume "\<exists>b t. c # r = b @ 0x22 # t \<and> string_body b \<and> inf_nan_loop a False False t"
        then obtain b t where b: "c # r = b @ 0x22 # t" "string_body b" "inf_nan_loop a False False t" by blast
        from b(2,1) 3 obtain b' where "b = c # b'" "string_body b'" by cases auto
        with b show "\<exists>b t. r = b @ 0x22 # t \<and> string_body b \<and> inf_nan_loop a False False t" by auto
      next
        assume "\<exists>b t. r = b @ 0x22 # t \<and> string_body b \<and> inf_nan_loop a False False t"
        then show "\<exists>b t. c # r = b @ 0x22 # t \<and> string_body b \<and> inf_nan_loop a False False t"
          using 3 by (metis append_Cons plain_char)
      qed
      with 3 False Cons.IH [of False] show ?thesis by simp
    qed
  qed
qed

lemma skip_line_spec:
  "skip_line r \<noteq> [] \<Longrightarrow> \<exists>b e. r = b @ e # skip_line r \<and> list_all (\<lambda>c. \<not> is_eol c) b \<and> is_eol e"
proof (induction r)
  case (Cons c r)
  show ?case
  proof (cases "is_eol c")
    case True
    then have "c # r = [] @ c # skip_line (c # r)" by simp
    with True show ?thesis by fastforce
  next
    case False
    with Cons obtain b e where "r = b @ e # skip_line r" "list_all (\<lambda>c. \<not> is_eol c) b" "is_eol e" by auto
    with False have "c # r = (c # b) @ e # skip_line (c # r) \<and> list_all (\<lambda>c. \<not> is_eol c) (c # b) \<and> is_eol e" by simp
    then show ?thesis by blast
  qed
qed simp

lemma skip_line_at: "list_all (\<lambda>c. \<not> is_eol c) b \<Longrightarrow> is_eol e \<Longrightarrow> skip_line (b @ e # t) = t"
  by (induction b) auto

lemma skip_block_spec:
  "skip_block r \<noteq> [] \<Longrightarrow> \<exists>b. r = b @ 0x2A # 0x2F # skip_block r \<and> \<not> closes_block (b @ [0x2A])"
proof (induction r rule: skip_block.induct)
  case (1 c d t)
  show ?case
  proof (cases "c = 0x2A \<and> d = 0x2F")
    case True
    then have "c # d # t = [] @ 0x2A # 0x2F # skip_block (c # d # t) \<and> \<not> closes_block ([] @ [0x2A])" by simp
    then show ?thesis by blast
  next
    case False
    with 1 obtain b where b: "d # t = b @ 0x2A # 0x2F # skip_block (d # t)" "\<not> closes_block (b @ [0x2A])" by auto
    have "\<not> closes_block ((c # b) @ [0x2A])" using b False by (cases b) auto
    with b(1) False have "c # d # t = (c # b) @ 0x2A # 0x2F # skip_block (c # d # t) \<and> \<not> closes_block ((c # b) @ [0x2A])"
      by auto
    then show ?thesis by blast
  qed
qed simp_all

lemma skip_block_at: "\<not> closes_block (b @ [0x2A]) \<Longrightarrow> skip_block (b @ 0x2A # 0x2F # t) = t"
proof (induction b)
  case (Cons c b)
  then show ?case by (cases b) auto
qed simp

subsection \<open>The scan finds exactly the literals outside\<close>

lemma comment_start_iff:
  "comment_start a (c # t) \<longleftrightarrow> a \<and> c = 0x2F \<and> t \<noteq> [] \<and> (hd t = 0x2F \<or> hd t = 0x2A)"
  by (cases t) (auto simp: comment_start_def)

lemma literal_head: "literal_at (c # t) \<Longrightarrow> c \<noteq> 0x22 \<and> c \<noteq> 0x2F"
  by (auto simp: literal_at_def lower_def)

lemma loop_literal: "literal_at r \<Longrightarrow> inf_nan_loop a False False r"
  by (cases r) (auto simp: inf_nan_here_literal literal_at_def [of "[]"] dest: literal_head)

lemma loop_outside: "outside a s r \<Longrightarrow> inf_nan_loop a False False r \<Longrightarrow> inf_nan_loop a False False s"
proof (induction rule: outside.induct)
  case (past_char c t)
  then show ?case by (auto simp: comment_start_iff)
next
  case (past_string b t)
  have "inf_nan_loop a True False (b @ 0x22 # t)"
    unfolding loop_in_string using past_string by auto
  with past_string show ?case by simp
next
  case (past_line b e t)
  then show ?case by (simp add: skip_line_at)
next
  case (past_block b t)
  then show ?case by (simp add: skip_block_at)
qed

lemma loop_finds:
  "inf_nan_loop a False False r \<Longrightarrow> outside a s r \<Longrightarrow> \<exists>r'. outside a s r' \<and> literal_at r'"
proof (induction r rule: length_induct)
  case (1 r)
  obtain c t where r: "r = c # t" using 1(2) by (cases r) auto
  consider (line) u where "a" "r = 0x2F # 0x2F # u" | (block) u where "a" "r = 0x2F # 0x2A # u"
    | (str) "c = 0x22" | (lit) "literal_at r" | (plain) "c \<noteq> 0x22" "\<not> comment_start a r" "\<not> literal_at r"
    unfolding comment_start_def using r by blast
  then show ?case
  proof cases
    case line
    then have l: "inf_nan_loop a False False (skip_line u)" using 1(2) by simp
    then have "skip_line u \<noteq> []" by auto
    from skip_line_spec [OF this] have "outside a s (skip_line u)" using line 1(3) past_line by metis
    moreover have "length (skip_line u) < length r" using skip_line_length [of u] line by simp
    ultimately show ?thesis using 1(1) l by blast
  next
    case block
    then have l: "inf_nan_loop a False False (skip_block u)" using 1(2) by simp
    then have "skip_block u \<noteq> []" by auto
    from skip_block_spec [OF this] have "outside a s (skip_block u)" using block 1(3) past_block by metis
    moreover have "length (skip_block u) < length r" using skip_block_length [of u] block by simp
    ultimately show ?thesis using 1(1) l by blast
  next
    case str
    then have "inf_nan_loop a True False t" using 1(2) r by simp
    then obtain b u where b: "t = b @ 0x22 # u" "string_body b" "inf_nan_loop a False False u"
      unfolding loop_in_string by auto
    with 1(3) str r have "outside a s u" by (auto intro: past_string)
    moreover have "length u < length r" using b r by simp
    ultimately show ?thesis using 1(1) b(3) by blast
  next
    case lit
    then show ?thesis using 1(3) by blast
  next
    case plain
    then have "inf_nan_loop a False False t" using 1(2) r by (auto simp: comment_start_iff inf_nan_here_literal split: if_splits)
    moreover have "outside a s t" using plain 1(3) r by (auto intro: past_char)
    ultimately show ?thesis using 1(1) r by auto
  qed
qed

subsection \<open>Properties\<close>

text \<open>C39: the scan reports a literal exactly when one starts outside every string and, where comments are
  allowed, outside every comment; an escaped quote does not end a string and a carriage return ends a line
  comment.\<close>

theorem inf_nan_scan_exact:
  "fastjson_input_has_inf_nan_literal s allow_comments \<longleftrightarrow> (\<exists>r. outside allow_comments s r \<and> literal_at r)"
  unfolding fastjson_input_has_inf_nan_literal_def
  using loop_finds [OF _ at_start] loop_outside loop_literal by blast

end
