(* ===== verification/Merge.thy ===== *)
theory Merge
  imports YyVal
begin

text \<open>
  JSON Merge Patch (RFC 7396) in fastjson_decode.c: the iterative nesting test, the merge of small
  objects by linear search and the merge of the others through a hash index, under a depth budget
  for the result. A C function that returns \<open>NULL\<close> because the result is nested too deep is \<open>None\<close>
  (it has set \<open>depth_failed\<close>); the builder is the list of members added so far.
\<close>

type_synonym 'v members = "((bytes \<times> bool) \<times> 'v) list"

subsection \<open>How deep a value is nested\<close>

fun yy_children :: "yyval \<Rightarrow> yyval list" where
  "yy_children (YArr items) = items"
| "yy_children (YObj ms) = map snd ms"
| "yy_children v = []"

fun yy_nodes :: "yyval \<Rightarrow> nat" where
  "yy_nodes (YArr items) = 2 + sum_list (map yy_nodes items)"
| "yy_nodes (YObj ms) = 2 + sum_list (map (\<lambda>m. yy_nodes (snd m)) ms)"
| "yy_nodes _ = 1"

lemma yy_nodes_children: "yyjson_is_ctn c \<Longrightarrow> yy_nodes c = 2 + sum_list (map yy_nodes (yy_children c))"
  by (cases c) (simp_all add: yyjson_is_ctn_def comp_def)

text \<open>The loop over a stack of iterators, the innermost first; an iterator is the children it has
  still to visit.\<close>

function depth_loop :: "nat \<Rightarrow> yyval list list \<Rightarrow> nat \<Rightarrow> bool" where
  "depth_loop limit [] depth = False"
| "depth_loop limit ([] # stack) depth = (if stack = [] then False else depth_loop limit stack (depth - 1))"
| "depth_loop limit ((child # iter) # stack) depth =
    (if \<not> yyjson_is_ctn child then depth_loop limit (iter # stack) depth
     else if limit \<le> depth + 1 then True
     else depth_loop limit (yy_children child # iter # stack) (depth + 1))"
  by pat_completeness auto

termination
proof (relation "measure (\<lambda>(_, stack, _). sum_list (map (\<lambda>f. Suc (sum_list (map yy_nodes f))) stack))", goal_cases)
  case (3 limit child iter stack depth)
  have "0 < yy_nodes child" by (cases child) simp_all
  then show ?case by simp
next
  case (4 limit child iter stack depth)
  then show ?case by (simp add: yy_nodes_children)
qed simp_all

definition fastjson_val_depth_reaches :: "yyval \<Rightarrow> nat \<Rightarrow> bool" where
  "fastjson_val_depth_reaches root limit =
    (if limit = 0 then True
     else if \<not> yyjson_is_ctn root then False
     else if limit = 1 then True
     else depth_loop limit [yy_children root] 1)"

subsection \<open>The merge\<close>

definition fj_merge_copy_checked :: "yyval \<Rightarrow> nat \<Rightarrow> yyval option" where
  "fj_merge_copy_checked value remaining_depth =
    (if remaining_depth = 0 \<or> fastjson_val_depth_reaches value remaining_depth then None else Some value)"

fun dup_loop :: "bytes list \<Rightarrow> 'v members \<Rightarrow> bool" where
  "dup_loop seen [] = False"
| "dup_loop seen ((k, v) # ms) = (if fst k \<in> set seen then True else dup_loop (seen @ [fst k]) ms)"

definition fj_merge_has_duplicate_keys :: "'v members \<Rightarrow> bool" where
  "fj_merge_has_duplicate_keys ms = dup_loop [] ms"

text \<open>\<open>yyjson_obj_getn\<close>: the first member with the key.\<close>

fun obj_getn :: "'v members \<Rightarrow> bytes \<Rightarrow> 'v option" where
  "obj_getn [] key = None"
| "obj_getn ((k, v) # ms) key = (if fst k = key then Some v else obj_getn ms key)"

text \<open>The two loops of \<open>fastjson_merge_patch_linear\<close>; \<open>copy\<close> and \<open>merge\<close> are the calls on the members'
  values with one level less.\<close>

fun linear_orig :: "(yyval \<Rightarrow> yyval option) \<Rightarrow> (yyval option \<Rightarrow> yyval \<Rightarrow> yyval option) \<Rightarrow> yyval members
    \<Rightarrow> yyval members \<Rightarrow> yyval members \<Rightarrow> yyval members option" where
  "linear_orig copy merge patch [] builder = Some builder"
| "linear_orig copy merge patch ((key, orig_value) # ms) builder =
    (case obj_getn patch (fst key) of
       None \<Rightarrow>
         (case copy orig_value of None \<Rightarrow> None | Some v \<Rightarrow> linear_orig copy merge patch ms (builder @ [(key, v)]))
     | Some patch_value \<Rightarrow>
         if patch_value = YNull then linear_orig copy merge patch ms builder
         else (case merge (Some orig_value) patch_value of
             None \<Rightarrow> None
           | Some v \<Rightarrow> linear_orig copy merge patch ms (builder @ [(key, v)])))"

fun linear_patch :: "(yyval option \<Rightarrow> yyval \<Rightarrow> yyval option) \<Rightarrow> yyval members \<Rightarrow> yyval members \<Rightarrow> yyval members
    \<Rightarrow> yyval members option" where
  "linear_patch merge orig [] builder = Some builder"
| "linear_patch merge orig ((key, patch_value) # ms) builder =
    (if patch_value = YNull then linear_patch merge orig ms builder
     else if obj_getn orig (fst key) \<noteq> None then linear_patch merge orig ms builder
     else case merge None patch_value of
         None \<Rightarrow> None
       | Some v \<Rightarrow> linear_patch merge orig ms (builder @ [(key, v)]))"

text \<open>The hash index: members by first occurrence, each with its last value.\<close>

record fj_merge_member =
  mm_key :: "bytes \<times> bool"
  mm_value :: yyval
  mm_emitted :: bool

record fj_merge_index =
  mi_by_key :: "bytes \<rightharpoonup> nat"
  mi_members :: "fj_merge_member list"

fun member_index_loop :: "yyval members \<Rightarrow> fj_merge_index \<Rightarrow> fj_merge_index" where
  "member_index_loop [] index = index"
| "member_index_loop ((key, v) # ms) index =
    (case mi_by_key index (fst key) of
       None \<Rightarrow>
         member_index_loop ms (index\<lparr>
           mi_by_key := (mi_by_key index)(fst key \<mapsto> length (mi_members index)),
           mi_members := mi_members index @ [\<lparr>mm_key = key, mm_value = v, mm_emitted = False\<rparr>]\<rparr>)
     | Some i \<Rightarrow>
         member_index_loop ms (index\<lparr>mi_members := (mi_members index)[i := (mi_members index ! i)\<lparr>mm_value := v\<rparr>]\<rparr>))"

definition fj_merge_index_init :: "yyval members \<Rightarrow> fj_merge_index" where
  "fj_merge_index_init object = member_index_loop object \<lparr>mi_by_key = (\<lambda>_. None), mi_members = []\<rparr>"

fun indexed_orig :: "(yyval \<Rightarrow> yyval option) \<Rightarrow> (yyval option \<Rightarrow> yyval \<Rightarrow> yyval option) \<Rightarrow> fj_merge_member list
    \<Rightarrow> fj_merge_index \<Rightarrow> yyval members \<Rightarrow> (yyval members \<times> fj_merge_index) option" where
  "indexed_orig copy merge [] patch_index builder = Some (builder, patch_index)"
| "indexed_orig copy merge (member # ms) patch_index builder =
    (case mi_by_key patch_index (fst (mm_key member)) of
       None \<Rightarrow>
         (case copy (mm_value member) of
            None \<Rightarrow> None
          | Some v \<Rightarrow> indexed_orig copy merge ms patch_index (builder @ [(mm_key member, v)]))
     | Some j \<Rightarrow>
         let patch_member = mi_members patch_index ! j;
             patch_index = patch_index\<lparr>mi_members := (mi_members patch_index)[j := patch_member\<lparr>mm_emitted := True\<rparr>]\<rparr>
         in if mm_value patch_member = YNull then indexed_orig copy merge ms patch_index builder
            else (case merge (Some (mm_value member)) (mm_value patch_member) of
                None \<Rightarrow> None
              | Some v \<Rightarrow> indexed_orig copy merge ms patch_index (builder @ [(mm_key member, v)])))"

fun indexed_patch :: "(yyval option \<Rightarrow> yyval \<Rightarrow> yyval option) \<Rightarrow> fj_merge_member list \<Rightarrow> yyval members
    \<Rightarrow> yyval members option" where
  "indexed_patch merge [] builder = Some builder"
| "indexed_patch merge (member # ms) builder =
    (if mm_emitted member \<or> mm_value member = YNull then indexed_patch merge ms builder
     else case merge None (mm_value member) of
         None \<Rightarrow> None
       | Some v \<Rightarrow> indexed_patch merge ms (builder @ [(mm_key member, v)]))"

definition fastjson_merge_patch_indexed :: "(yyval \<Rightarrow> yyval option) \<Rightarrow> (yyval option \<Rightarrow> yyval \<Rightarrow> yyval option)
    \<Rightarrow> yyval members \<Rightarrow> yyval members \<Rightarrow> yyval option" where
  "fastjson_merge_patch_indexed copy merge orig patch =
    (case indexed_orig copy merge (mi_members (fj_merge_index_init orig)) (fj_merge_index_init patch) [] of
       None \<Rightarrow> None
     | Some (builder, patch_index) \<Rightarrow> map_option YObj (indexed_patch merge (mi_members patch_index) builder))"

definition fastjson_merge_patch_linear :: "(yyval \<Rightarrow> yyval option) \<Rightarrow> (yyval option \<Rightarrow> yyval \<Rightarrow> yyval option)
    \<Rightarrow> yyval members \<Rightarrow> yyval members \<Rightarrow> yyval option" where
  "fastjson_merge_patch_linear copy merge orig patch =
    (if fj_merge_has_duplicate_keys orig \<or> fj_merge_has_duplicate_keys patch
     then fastjson_merge_patch_indexed copy merge orig patch
     else case linear_orig copy merge patch orig [] of
         None \<Rightarrow> None
       | Some builder \<Rightarrow> map_option YObj (linear_patch merge orig patch builder))"

text \<open>The members of the original value: none when it is \<open>NULL\<close> or no object.\<close>

definition orig_members :: "yyval option \<Rightarrow> yyval members" where
  "orig_members orig = (case orig of Some (YObj ms) \<Rightarrow> ms | _ \<Rightarrow> [])"

fun fastjson_merge_patch_bounded :: "env \<Rightarrow> yyval option \<Rightarrow> yyval \<Rightarrow> nat \<Rightarrow> nat \<Rightarrow> yyval option" where
  "fastjson_merge_patch_bounded env orig patch remaining_depth lvl =
    (if remaining_depth = 0 \<or> \<not> stack_ok env lvl then None
     else case patch of
         YObj patch_members \<Rightarrow>
           if remaining_depth \<le> 1 then None
           else
             let copy = (\<lambda>v. fj_merge_copy_checked v (remaining_depth - 1));
                 merge = (\<lambda>ov pv. fastjson_merge_patch_bounded env ov pv (remaining_depth - 1) (lvl + 2))
             in if length patch_members \<le> 16 \<and> length (orig_members orig) \<le> 16
                then fastjson_merge_patch_linear copy merge (orig_members orig) patch_members
                else fastjson_merge_patch_indexed copy merge (orig_members orig) patch_members
       | _ \<Rightarrow> fj_merge_copy_checked patch remaining_depth)"

declare fastjson_merge_patch_bounded.simps [simp del]

subsection \<open>The nesting test is the recursive depth\<close>

fun nesting :: "yyval \<Rightarrow> nat" where
  "nesting (YArr items) = Suc (foldr max (map nesting items) 0)"
| "nesting (YObj ms) = Suc (foldr max (map (\<lambda>m. nesting (snd m)) ms) 0)"
| "nesting _ = 0"

lemma foldr_max_le: "foldr max (map f xs) 0 < Suc n \<longleftrightarrow> list_all (\<lambda>x. f x \<le> n) xs" for n :: nat
  by (induction xs) auto

lemma nesting_children:
  "yyjson_is_ctn v \<Longrightarrow> 0 < limit \<Longrightarrow> limit \<le> nesting v \<longleftrightarrow> limit = 1 \<or> list_ex (\<lambda>c. limit - 1 \<le> nesting c) (yy_children v)"
proof -
  assume v: "yyjson_is_ctn v" "0 < limit"
  have n: "Suc (foldr max (map f xs) 0) < limit \<longleftrightarrow> 1 < limit \<and> list_all (\<lambda>x. Suc (f x) < limit) xs" for f xs
  proof (cases limit)
    case (Suc n)
    show ?thesis
      using foldr_max_le [of f xs "n - 1"] Suc by (cases n) (auto simp: list_all_iff less_Suc_eq_le)
  qed (use v in simp)
  show ?thesis
  proof (cases v)
    case (YArr items)
    with v(2) n [of nesting items] show ?thesis
      by (cases limit) (auto simp: list_all_iff list_ex_iff not_less [symmetric])
  next
    case (YObj ms)
    with v(2) n [of "\<lambda>m. nesting (snd m)" ms] show ?thesis
      by (cases limit) (auto simp: list_all_iff list_ex_iff not_less [symmetric])
  qed (use v in \<open>simp_all add: yyjson_is_ctn_def\<close>)
qed

lemma nesting_ctn: "0 < nesting v \<longleftrightarrow> yyjson_is_ctn v"
  by (cases v) (simp_all add: yyjson_is_ctn_def)

lemma children_reach:
  assumes "yyjson_is_ctn v" "depth + 1 < limit"
  shows "list_ex (\<lambda>c. yyjson_is_ctn c \<and> limit \<le> Suc depth + nesting c) (yy_children v) \<longleftrightarrow> limit \<le> depth + nesting v"
proof -
  have "yyjson_is_ctn c \<and> limit \<le> Suc depth + nesting c \<longleftrightarrow> limit - depth - 1 \<le> nesting c" for c
    using assms(2) nesting_ctn [of c] by auto
  then show ?thesis using nesting_children [OF assms(1), of "limit - depth"] assms(2) by auto
qed

fun stack_reaches :: "nat \<Rightarrow> yyval list list \<Rightarrow> nat \<Rightarrow> bool" where
  "stack_reaches limit [] depth = False"
| "stack_reaches limit (iter # stack) depth \<longleftrightarrow>
    list_ex (\<lambda>c. yyjson_is_ctn c \<and> limit \<le> depth + nesting c) iter \<or> stack_reaches limit stack (depth - 1)"

lemma depth_loop_reaches:
  "length stack = depth \<Longrightarrow> depth < limit \<Longrightarrow> depth_loop limit stack depth \<longleftrightarrow> stack_reaches limit stack depth"
proof (induction limit stack depth rule: depth_loop.induct)
  case (3 limit child iter stack depth)
  show ?case
  proof (cases "yyjson_is_ctn child")
    case False
    with 3 show ?thesis by simp
  next
    case ctn: True
    show ?thesis
    proof (cases "limit \<le> depth + 1")
      case True
      with ctn nesting_ctn [of child] show ?thesis by auto
    next
      case False
      then have "depth + 1 < limit" by simp
      note children_reach [OF ctn this]
      with 3 ctn False show ?thesis by simp
    qed
  qed
qed auto

lemma depth_reaches_iff: "fastjson_val_depth_reaches v limit \<longleftrightarrow> limit \<le> nesting v"
proof (cases "yyjson_is_ctn v")
  case False
  then show ?thesis using nesting_ctn [of v] by (auto simp: fastjson_val_depth_reaches_def)
next
  case True
  have "depth_loop limit [yy_children v] 1 \<longleftrightarrow> limit \<le> nesting v" if "2 \<le> limit"
  proof -
    have "list_ex (\<lambda>c. yyjson_is_ctn c \<and> limit \<le> Suc (nesting c)) (yy_children v) \<longleftrightarrow> limit \<le> nesting v"
      using children_reach [OF True, of 0 limit] that by simp
    then show ?thesis using depth_loop_reaches [of "[yy_children v]" 1 limit] that by simp
  qed
  then show ?thesis
    using True nesting_ctn [of v] by (auto simp: fastjson_val_depth_reaches_def)
qed

lemma copy_checked: "fj_merge_copy_checked v rd = (if nesting v < rd then Some v else None)"
  by (auto simp: fj_merge_copy_checked_def depth_reaches_iff)

subsection \<open>Specification\<close>

text \<open>An object's members as PHP sees them: one per key, at the place of its first occurrence, with its
  last value.\<close>

fun put_member :: "bytes \<times> bool \<Rightarrow> 'v \<Rightarrow> 'v members \<Rightarrow> 'v members" where
  "put_member k v [] = [(k, v)]"
| "put_member k v ((k', v') # ms) = (if fst k' = fst k then (k', v) # ms else (k', v') # put_member k v ms)"

definition canon :: "'v members \<Rightarrow> 'v members" where
  "canon ms = fold (\<lambda>(k, v). put_member k v) ms []"

text \<open>RFC 7396: members of the original that the patch does not mention stay, those it sets to \<open>null\<close>
  go, the others are merged; members only in the patch follow. A member of the patch comes with the
  merge of its value.\<close>

definition merge_members :: "yyval members \<Rightarrow> (yyval \<times> (yyval option \<Rightarrow> yyval)) members \<Rightarrow> yyval members" where
  "merge_members oms ops =
    concat (map (\<lambda>(k, v). case obj_getn ops (fst k) of
        None \<Rightarrow> [(k, v)]
      | Some (pv, f) \<Rightarrow> if pv = YNull then [] else [(k, f (Some v))]) oms) @
    concat (map (\<lambda>(k, pv, f). if pv = YNull \<or> obj_getn oms (fst k) \<noteq> None then [] else [(k, f None)]) ops)"

fun json_merge :: "yyval option \<Rightarrow> yyval \<Rightarrow> yyval" where
  "json_merge orig (YObj pms) =
    YObj (merge_members (canon (orig_members orig)) (canon (map (\<lambda>(k, v). (k, (v, \<lambda>ov. json_merge ov v))) pms)))"
| "json_merge orig v = v"

definition orig_part :: "yyval members \<Rightarrow> (bytes \<times> bool) \<times> yyval \<Rightarrow> yyval members" where
  "orig_part pms = (\<lambda>(k, v). case obj_getn pms (fst k) of
      None \<Rightarrow> [(k, v)]
    | Some pv \<Rightarrow> if pv = YNull then [] else [(k, json_merge (Some v) pv)])"

definition patch_part :: "yyval members \<Rightarrow> (bytes \<times> bool) \<times> yyval \<Rightarrow> yyval members" where
  "patch_part oms = (\<lambda>(k, pv). if pv = YNull \<or> obj_getn oms (fst k) \<noteq> None then [] else [(k, json_merge None pv)])"

lemma put_member_map: "put_member k (g v) (map (\<lambda>(k, v). (k, g v)) ms) = map (\<lambda>(k, v). (k, g v)) (put_member k v ms)"
  by (induction ms) auto

lemma canon_map: "canon (map (\<lambda>(k, v). (k, g v)) ms) = map (\<lambda>(k, v). (k, g v)) (canon ms)"
proof -
  have "fold (\<lambda>(k, v). put_member k v) (map (\<lambda>(k, v). (k, g v)) ms) (map (\<lambda>(k, v). (k, g v)) acc) =
      map (\<lambda>(k, v). (k, g v)) (fold (\<lambda>(k, v). put_member k v) ms acc)" for acc
    by (induction ms arbitrary: acc) (auto simp: put_member_map)
  from this [of "[]"] show ?thesis by (simp add: canon_def)
qed

lemma obj_getn_map: "obj_getn (map (\<lambda>(k, v). (k, g v)) ms) key = map_option g (obj_getn ms key)"
  by (induction ms) auto

lemma json_merge_obj:
  "json_merge orig (YObj pms) =
    (let oms = canon (orig_members orig); pms = canon pms
     in YObj (concat (map (orig_part pms) oms) @ concat (map (patch_part oms) pms)))"
proof -
  have "(\<lambda>(k, v). case obj_getn (map (\<lambda>(k, v). (k, (v, \<lambda>ov. json_merge ov v))) ms) (fst k) of
        None \<Rightarrow> [(k, v)] | Some (pv, f) \<Rightarrow> if pv = YNull then [] else [(k, f (Some v))]) = orig_part ms" for ms
    unfolding orig_part_def obj_getn_map [of "\<lambda>v. (v, \<lambda>ov. json_merge ov v)"] by (auto split: option.splits)
  moreover have "(\<lambda>(k, pv, f). if pv = YNull \<or> obj_getn oms (fst k) \<noteq> None then [] else [(k, f None)]) \<circ>
      (\<lambda>(k, v). (k, v, \<lambda>ov. json_merge ov v)) = patch_part oms" for oms :: "yyval members"
    by (auto simp: patch_part_def fun_eq_iff)
  ultimately show ?thesis
    unfolding json_merge.simps merge_members_def canon_map [of "\<lambda>v. (v, \<lambda>ov. json_merge ov v)"] Let_def map_map
    by simp
qed

declare json_merge.simps(1) [simp del]

subsection \<open>The hash index\<close>

definition mi_view :: "fj_merge_index \<Rightarrow> yyval members" where
  "mi_view index = map (\<lambda>m. (mm_key m, mm_value m)) (mi_members index)"

definition indexes :: "fj_merge_index \<Rightarrow> yyval members \<Rightarrow> bool" where
  "indexes index ms \<longleftrightarrow> mi_view index = ms \<and> distinct (map (\<lambda>m. fst (fst m)) ms) \<and>
     (\<forall>k i. mi_by_key index k = Some i \<longleftrightarrow> i < length ms \<and> fst (fst (ms ! i)) = k)"

lemma put_member_new: "k \<notin> (\<lambda>m. fst (fst m)) ` set ms \<Longrightarrow> put_member (k, t) v ms = ms @ [((k, t), v)]"
  by (induction ms) auto

lemma put_member_old:
  "distinct (map (\<lambda>m. fst (fst m)) ms) \<Longrightarrow> i < length ms \<Longrightarrow> fst (fst (ms ! i)) = fst k \<Longrightarrow>
   put_member k v ms = ms[i := (fst (ms ! i), v)]"
proof (induction ms arbitrary: i)
  case (Cons m ms)
  obtain k' v' where m: "m = (k', v')" by (cases m)
  show ?case
  proof (cases i)
    case 0
    with Cons.prems m show ?thesis by simp
  next
    case (Suc j)
    with Cons.prems m have "fst k' \<noteq> fst k" by (force simp: in_set_conv_nth)
    with Suc Cons m show ?thesis by simp
  qed
qed simp

lemma put_member_distinct:
  "distinct (map (\<lambda>m. fst (fst m)) ms) \<Longrightarrow> distinct (map (\<lambda>m. fst (fst m)) (put_member k v ms))"
proof -
  have "(\<lambda>m. fst (fst m)) ` set (put_member k v ms) = insert (fst k) ((\<lambda>m. fst (fst m)) ` set ms)" for ms
  proof (induction ms)
    case (Cons m ms)
    then show ?case by (cases m) (simp add: insert_commute)
  qed simp
  then show "distinct (map (\<lambda>m. fst (fst m)) ms) \<Longrightarrow> ?thesis" by (induction ms) auto
qed

lemma canon_distinct: "distinct (map (\<lambda>m. fst (fst m)) (canon ms))"
proof -
  have "distinct (map (\<lambda>m. fst (fst m)) acc) \<Longrightarrow>
      distinct (map (\<lambda>m. fst (fst m)) (fold (\<lambda>(k, v). put_member k v) ms acc))" for acc
    by (induction ms arbitrary: acc) (auto simp: put_member_distinct)
  then show ?thesis by (simp add: canon_def)
qed

lemma member_index_loop_indexes:
  "indexes index acc \<Longrightarrow> indexes (member_index_loop ms index) (fold (\<lambda>(k, v). put_member k v) ms acc)"
proof (induction ms arbitrary: index acc)
  case (Cons m ms)
  obtain k v where m: "m = (k, v)" by (cases m)
  have inv: "mi_view index = acc" "distinct (map (\<lambda>m. fst (fst m)) acc)"
    "\<And>k i. mi_by_key index k = Some i \<longleftrightarrow> i < length acc \<and> fst (fst (acc ! i)) = k"
    using Cons.prems by (auto simp: indexes_def)
  have len: "length (mi_members index) = length acc" using inv(1) by (auto simp: mi_view_def)
  show ?case
  proof (cases "mi_by_key index (fst k)")
    case None
    then have absent: "fst (fst (acc ! i)) \<noteq> fst k" if "i < length acc" for i using inv(3) [of "fst k" i] that by simp
    then have "fst k \<notin> (\<lambda>m. fst (fst m)) ` set acc" by (metis (no_types, lifting) imageE in_set_conv_nth)
    then have put: "put_member k v acc = acc @ [(k, v)]" using put_member_new [of "fst k" acc "snd k" v] by simp
    let ?index = "index\<lparr>mi_by_key := (mi_by_key index)(fst k \<mapsto> length (mi_members index)),
        mi_members := mi_members index @ [\<lparr>mm_key = k, mm_value = v, mm_emitted = False\<rparr>]\<rparr>"
    have "mi_by_key ?index k' = Some i \<longleftrightarrow> i < length (acc @ [(k, v)]) \<and> fst (fst ((acc @ [(k, v)]) ! i)) = k'" for k' i
    proof (cases "i < length acc")
      case True
      then show ?thesis using inv(3) [of k' i] absent [OF True] len by (auto simp: nth_append)
    next
      case False
      then show ?thesis using inv(3) [of k' i] len by (cases "i = length acc") auto
    qed
    moreover have "mi_view ?index = acc @ [(k, v)]" using inv(1) by (simp add: mi_view_def)
    ultimately have "indexes ?index (put_member k v acc)"
      using put_member_distinct [OF inv(2), of k v] unfolding indexes_def put by blast
    from Cons.IH [OF this] None m show ?thesis by simp
  next
    case (Some i)
    then have i: "i < length acc" "fst (fst (acc ! i)) = fst k" using inv(3) by auto
    have put: "put_member k v acc = acc[i := (fst (acc ! i), v)]"
      by (rule put_member_old) (use inv(2) i in simp_all)
    let ?index = "index\<lparr>mi_members := (mi_members index)[i := (mi_members index ! i)\<lparr>mm_value := v\<rparr>]\<rparr>"
    have "i < length (mi_members index)" using i(1) len by simp
    then have "mi_view index ! i = (mm_key (mi_members index ! i), mm_value (mi_members index ! i))"
      by (simp add: mi_view_def)
    then have "mm_key (mi_members index ! i) = fst (acc ! i)" by (simp add: inv(1))
    then have "mi_view ?index = acc[i := (fst (acc ! i), v)]" using inv(1) by (simp add: mi_view_def map_update)
    moreover have "fst (fst (acc[i := (fst (acc ! i), v)] ! j)) = fst (fst (acc ! j))" for j
      using i(1) by (cases "j = i") simp_all
    then have "mi_by_key ?index k' = Some j \<longleftrightarrow> j < length (acc[i := (fst (acc ! i), v)]) \<and>
        fst (fst (acc[i := (fst (acc ! i), v)] ! j)) = k'" for k' j
      using inv(3) [of k' j] by simp
    ultimately have "indexes ?index (put_member k v acc)"
      using put_member_distinct [OF inv(2), of k v] unfolding indexes_def put by blast
    from Cons.IH [OF this] Some m show ?thesis by simp
  qed
qed simp

lemma index_init_indexes: "indexes (fj_merge_index_init ms) (canon ms)"
  unfolding fj_merge_index_init_def canon_def
  by (rule member_index_loop_indexes) (simp add: indexes_def mi_view_def)

subsection \<open>The loops\<close>

lemma obj_getn_None: "obj_getn ms key = None \<longleftrightarrow> list_all (\<lambda>m. fst (fst m) \<noteq> key) ms"
  by (induction ms) (auto split: if_splits)

lemma obj_getn_nth:
  "distinct (map (\<lambda>m. fst (fst m)) ms) \<Longrightarrow> i < length ms \<Longrightarrow> obj_getn ms (fst (fst (ms ! i))) = Some (snd (ms ! i))"
proof (induction ms arbitrary: i)
  case (Cons m ms)
  obtain k v where m: "m = (k, v)" by (cases m)
  show ?case
  proof (cases i)
    case (Suc j)
    then have "ms ! j \<in> set ms" using Cons.prems(2) by simp
    then have "fst (fst (ms ! j)) \<in> (\<lambda>m. fst (fst m)) ` set ms" by (rule imageI)
    moreover have "fst k \<notin> (\<lambda>m. fst (fst m)) ` set ms" using Cons.prems(1) m by simp
    ultimately have "fst (fst (ms ! j)) \<noteq> fst k" by metis
    with Suc Cons m show ?thesis by auto
  qed (simp add: m)
qed simp

lemma indexes_get:
  assumes "indexes index ms"
  shows "obj_getn ms key = map_option (\<lambda>j. mm_value (mi_members index ! j)) (mi_by_key index key)"
proof -
  have v: "mi_view index = ms" "distinct (map (\<lambda>m. fst (fst m)) ms)"
    "\<And>i. mi_by_key index key = Some i \<longleftrightarrow> i < length ms \<and> fst (fst (ms ! i)) = key"
    using assms by (auto simp: indexes_def)
  show ?thesis
  proof (cases "mi_by_key index key")
    case None
    then show ?thesis using v(3) by (simp add: obj_getn_None list_all_length)
  next
    case (Some j)
    then have j: "j < length ms" "fst (fst (ms ! j)) = key" using v(3) by auto
    have "j < length (mi_members index)" using j(1) v(1) [symmetric] by (simp add: mi_view_def)
    then have "snd (mi_view index ! j) = mm_value (mi_members index ! j)" by (simp add: mi_view_def)
    with obj_getn_nth [OF v(2) j(1)] Some j(2) v(1) show ?thesis by simp
  qed
qed

text \<open>What a loop returns that appends \<open>xs\<close> to the builder, each value within the budget \<open>n\<close>.\<close>

definition within :: "nat \<Rightarrow> yyval members \<Rightarrow> yyval members \<Rightarrow> yyval members option" where
  "within n xs builder = (if list_all (\<lambda>m. nesting (snd m) < n) xs then Some (builder @ xs) else None)"

definition steps :: "nat \<Rightarrow> (yyval \<Rightarrow> yyval option) \<Rightarrow> (yyval option \<Rightarrow> yyval \<Rightarrow> yyval option) \<Rightarrow> bool" where
  "steps n copy merge \<longleftrightarrow> (\<forall>v. copy v = (if nesting v < n then Some v else None)) \<and>
     (\<forall>ov pv. merge ov pv = (if nesting (json_merge ov pv) < n then Some (json_merge ov pv) else None))"

lemma linear_orig_within:
  "steps n copy merge \<Longrightarrow> linear_orig copy merge pms ms builder = within n (concat (map (orig_part pms) ms)) builder"
proof (induction ms arbitrary: builder)
  case (Cons m ms)
  then show ?case by (cases m) (simp add: steps_def within_def orig_part_def split: option.splits)
qed (simp add: within_def)

lemma linear_patch_within:
  "steps n copy merge \<Longrightarrow> linear_patch merge oms ms builder = within n (concat (map (patch_part oms) ms)) builder"
proof (induction ms arbitrary: builder)
  case (Cons m ms)
  then show ?case by (cases m) (simp add: steps_def within_def patch_part_def split: option.splits)
qed (simp add: within_def)

definition mark :: "bytes set \<Rightarrow> fj_merge_index \<Rightarrow> fj_merge_index" where
  "mark K index = index\<lparr>mi_members := map (\<lambda>m. m\<lparr>mm_emitted := mm_emitted m \<or> fst (mm_key m) \<in> K\<rparr>) (mi_members index)\<rparr>"

lemma mark_mark: "mark K (mark L index) = mark (L \<union> K) index"
  by (auto simp: mark_def)

lemma mark_indexes: "indexes (mark K index) ms = indexes index ms"
  by (simp add: indexes_def mark_def mi_view_def comp_def)

lemma mark_step:
  assumes "indexes index ms"
  shows "(case mi_by_key index key of None \<Rightarrow> index
    | Some j \<Rightarrow> index\<lparr>mi_members := (mi_members index)[j := (mi_members index ! j)\<lparr>mm_emitted := True\<rparr>]\<rparr>) = mark {key} index"
proof -
  have len: "length ms = length (mi_members index)" using assms by (auto simp: indexes_def mi_view_def)
  have nth: "fst (mm_key (mi_members index ! i)) = key \<longleftrightarrow> mi_by_key index key = Some i" if "i < length (mi_members index)" for i
  proof -
    have "fst (mi_view index ! i) = mm_key (mi_members index ! i)" using that by (simp add: mi_view_def)
    with assms that len show ?thesis by (auto simp: indexes_def)
  qed
  show ?thesis
  proof (cases "mi_by_key index key")
    case None
    then have "map (\<lambda>m. m\<lparr>mm_emitted := mm_emitted m \<or> fst (mm_key m) = key\<rparr>) (mi_members index) = mi_members index"
      using nth by (intro nth_equalityI) simp_all
    with None show ?thesis by (simp add: mark_def)
  next
    case (Some j)
    have "(mi_members index)[j := (mi_members index ! j)\<lparr>mm_emitted := True\<rparr>] =
        map (\<lambda>m. m\<lparr>mm_emitted := mm_emitted m \<or> fst (mm_key m) = key\<rparr>) (mi_members index)"
    proof (intro nth_equalityI)
      fix i
      assume "i < length ((mi_members index)[j := (mi_members index ! j)\<lparr>mm_emitted := True\<rparr>])"
      then have "i < length (mi_members index)" by simp
      with nth [OF this] Some show "(mi_members index)[j := (mi_members index ! j)\<lparr>mm_emitted := True\<rparr>] ! i =
          map (\<lambda>m. m\<lparr>mm_emitted := mm_emitted m \<or> fst (mm_key m) = key\<rparr>) (mi_members index) ! i"
        by (cases "i = j") simp_all
    qed simp
    with Some show ?thesis by (simp add: mark_def)
  qed
qed

lemma indexed_orig_within:
  "steps n copy merge \<Longrightarrow> indexes pidx pms \<Longrightarrow>
   indexed_orig copy merge ms pidx builder =
     map_option (\<lambda>b. (b, mark ((\<lambda>m. fst (mm_key m)) ` set ms) pidx))
       (within n (concat (map (orig_part pms) (map (\<lambda>m. (mm_key m, mm_value m)) ms))) builder)"
proof (induction ms arbitrary: pidx builder)
  case Nil
  then show ?case by (simp add: within_def mark_def)
next
  case (Cons m ms)
  let ?key = "fst (mm_key m)"
  have mark: "mark ((\<lambda>m. fst (mm_key m)) ` set (m # ms)) pidx = mark ((\<lambda>m. fst (mm_key m)) ` set ms) (mark {?key} pidx)"
    by (simp add: mark_mark)
  have IH: "indexed_orig copy merge ms (mark {?key} pidx) b =
     map_option (\<lambda>b. (b, mark ((\<lambda>m. fst (mm_key m)) ` set (m # ms)) pidx))
       (within n (concat (map (orig_part pms) (map (\<lambda>m. (mm_key m, mm_value m)) ms))) b)" for b
    using Cons.IH [of "mark {?key} pidx" b] Cons.prems unfolding mark mark_indexes by simp
  note step = mark_step [OF Cons.prems(2), of ?key] and get = indexes_get [OF Cons.prems(2), of ?key]
  have copy: "copy (mm_value m) = (if nesting (mm_value m) < n then Some (mm_value m) else None)"
    and merge: "merge (Some (mm_value m)) pv =
      (if nesting (json_merge (Some (mm_value m)) pv) < n then Some (json_merge (Some (mm_value m)) pv) else None)" for pv
    using Cons.prems(1) by (simp_all add: steps_def)
  show ?case
  proof (cases "mi_by_key pidx ?key")
    case None
    with step have "mark {?key} pidx = pidx" by simp
    with None IH get show ?thesis
      by (simp add: orig_part_def copy within_def del: image_insert list.set)
  next
    case (Some j)
    with step have "pidx\<lparr>mi_members := (mi_members pidx)[j := (mi_members pidx ! j)\<lparr>mm_emitted := True\<rparr>]\<rparr> = mark {?key} pidx"
      by simp
    with Some IH get show ?thesis
      by (simp add: orig_part_def merge within_def Let_def del: image_insert list.set)
  qed
qed

lemma indexed_patch_within:
  "steps n copy merge \<Longrightarrow> list_all (\<lambda>m. mm_emitted m \<longleftrightarrow> obj_getn oms (fst (mm_key m)) \<noteq> None) ms \<Longrightarrow>
   indexed_patch merge ms builder =
     within n (concat (map (patch_part oms) (map (\<lambda>m. (mm_key m, mm_value m)) ms))) builder"
proof (induction ms arbitrary: builder)
  case (Cons m ms)
  then show ?case by (simp add: steps_def within_def patch_part_def split: option.splits)
qed (simp add: within_def)

subsection \<open>Both paths compute the specification\<close>

lemma index_init_fresh: "list_all (\<lambda>m. \<not> mm_emitted m) (mi_members (fj_merge_index_init ms))"
proof -
  have "list_all (\<lambda>m. \<not> mm_emitted m) (mi_members index) \<Longrightarrow> list_all (\<lambda>m. \<not> mm_emitted m) (mi_members (member_index_loop ms index))" for index
  proof (induction ms index rule: member_index_loop.induct)
    case (2 key v ms index)
    show ?case
    proof (cases "mi_by_key index (fst key)")
      case None
      with 2 show ?thesis by simp
    next
      case (Some i)
      have "list_all (\<lambda>m. \<not> mm_emitted m) ((mi_members index)[i := (mi_members index ! i)\<lparr>mm_value := v\<rparr>])"
        using "2.prems" set_update_subset_insert [of "mi_members index" i "(mi_members index ! i)\<lparr>mm_value := v\<rparr>"]
        by (cases "i < length (mi_members index)") (auto simp: list_all_iff list_update_beyond)
      with Some 2 show ?thesis by simp
    qed
  qed simp
  then show ?thesis by (simp add: fj_merge_index_init_def)
qed

definition merged_members :: "yyval members \<Rightarrow> yyval members \<Rightarrow> yyval members" where
  "merged_members oms pms =
    concat (map (orig_part (canon pms)) (canon oms)) @ concat (map (patch_part (canon oms)) (canon pms))"

lemma within_append:
  "(case within n xs builder of None \<Rightarrow> None | Some b \<Rightarrow> map_option YObj (within n ys b)) =
     map_option YObj (within n (xs @ ys) builder)"
  by (simp add: within_def)

lemma indexed_merged:
  assumes "steps n copy merge"
  shows "fastjson_merge_patch_indexed copy merge oms pms = map_option YObj (within n (merged_members oms pms) [])"
proof -
  let ?o = "fj_merge_index_init oms" and ?p = "fj_merge_index_init pms"
  let ?K = "(\<lambda>m. fst (mm_key m)) ` set (mi_members ?o)"
  have view: "map (\<lambda>m. (mm_key m, mm_value m)) (mi_members ?o) = canon oms"
    "map (\<lambda>m. (mm_key m, mm_value m)) (mi_members (mark K ?p)) = canon pms" for K
    using index_init_indexes [of oms] index_init_indexes [of pms]
    by (simp_all add: indexes_def mi_view_def mark_def comp_def)
  have K: "key \<in> ?K \<longleftrightarrow> obj_getn (canon oms) key \<noteq> None" for key
    by (auto simp: view(1) [symmetric] obj_getn_None list_all_iff simp del: not_None_eq)
  have "list_all (\<lambda>m. mm_emitted m \<longleftrightarrow> obj_getn (canon oms) (fst (mm_key m)) \<noteq> None) (mi_members (mark ?K ?p))"
    using index_init_fresh [of pms] unfolding K [symmetric] by (auto simp: mark_def list_all_iff)
  from indexed_patch_within [OF assms this] indexed_orig_within [OF assms index_init_indexes [of pms]] show ?thesis
    unfolding fastjson_merge_patch_indexed_def merged_members_def within_append [symmetric]
    by (auto simp: view simp del: map_map split: option.splits)
qed

lemma dup_loop_iff: "dup_loop seen ms \<longleftrightarrow> \<not> (distinct (map (\<lambda>m. fst (fst m)) ms) \<and> set seen \<inter> (\<lambda>m. fst (fst m)) ` set ms = {})"
  by (induction seen ms rule: dup_loop.induct) auto

lemma canon_id: "distinct (map (\<lambda>m. fst (fst m)) ms) \<Longrightarrow> canon ms = ms"
proof -
  have "distinct (map (\<lambda>m. fst (fst m)) (acc @ ms)) \<Longrightarrow> fold (\<lambda>(k, v). put_member k v) ms acc = acc @ ms" for acc
  proof (induction ms arbitrary: acc)
    case (Cons m ms)
    obtain k t v where m: "m = ((k, t), v)" by (metis prod.collapse)
    have "put_member (k, t) v acc = acc @ [m]"
      unfolding m by (rule put_member_new) (use Cons.prems m in auto)
    with Cons.IH [of "acc @ [m]"] Cons.prems m show ?case by simp
  qed simp
  from this [of "[]"] show "distinct (map (\<lambda>m. fst (fst m)) ms) \<Longrightarrow> ?thesis" by (simp add: canon_def)
qed

lemma linear_merged:
  assumes "steps n copy merge"
  shows "fastjson_merge_patch_linear copy merge oms pms = map_option YObj (within n (merged_members oms pms) [])"
proof (cases "fj_merge_has_duplicate_keys oms \<or> fj_merge_has_duplicate_keys pms")
  case True
  then show ?thesis using indexed_merged [OF assms] by (simp add: fastjson_merge_patch_linear_def)
next
  case False
  then have "canon oms = oms" "canon pms = pms"
    by (simp_all add: fj_merge_has_duplicate_keys_def dup_loop_iff canon_id)
  with False show ?thesis
    unfolding fastjson_merge_patch_linear_def merged_members_def within_append [symmetric]
    by (auto simp: linear_orig_within [OF assms] linear_patch_within [OF assms] split: option.splits)
qed

lemma json_merge_merged: "json_merge orig (YObj pms) = YObj (merged_members (orig_members orig) pms)"
  by (simp add: json_merge_obj merged_members_def Let_def)

lemma nesting_obj_less: "nesting (YObj ms) < Suc (Suc n) \<longleftrightarrow> list_all (\<lambda>m. nesting (snd m) < Suc n) ms"
  using foldr_max_le [of "\<lambda>m. nesting (snd m)" ms n] by (simp add: less_Suc_eq_le)

lemma merge_bounded:
  assumes st: "stack_ok env = (\<lambda>_. True)"
  shows "fastjson_merge_patch_bounded env orig patch rd lvl =
    (if nesting (json_merge orig patch) < rd then Some (json_merge orig patch) else None)"
proof (induction rd arbitrary: orig patch lvl)
  case 0
  then show ?case by (subst fastjson_merge_patch_bounded.simps) simp
next
  case (Suc rd)
  have leaf: ?case if "\<not> (\<exists>pms. patch = YObj pms)"
    using that st by (subst fastjson_merge_patch_bounded.simps) (cases patch; simp add: copy_checked)
  show ?case
  proof (cases "\<exists>pms. patch = YObj pms")
    case True
    then obtain pms where patch: "patch = YObj pms" by blast
    show ?thesis
    proof (cases rd)
      case 0
      then show ?thesis using st patch
        by (subst fastjson_merge_patch_bounded.simps) (simp add: json_merge_merged)
    next
      case (Suc n)
      have steps: "steps rd (\<lambda>v. fj_merge_copy_checked v rd) (\<lambda>ov pv. fastjson_merge_patch_bounded env ov pv rd (lvl + 2))"
        using Suc.IH by (simp add: steps_def copy_checked)
      have "fastjson_merge_patch_bounded env orig patch (Suc rd) lvl =
          map_option YObj (within rd (merged_members (orig_members orig) pms) [])"
        using linear_merged [OF steps] indexed_merged [OF steps] st patch Suc
        by (subst fastjson_merge_patch_bounded.simps) (simp add: Let_def)
      then show ?thesis
        using nesting_obj_less [of "merged_members (orig_members orig) pms" n] Suc
        by (simp add: within_def patch json_merge_merged del: nesting.simps)
    qed
  qed (rule leaf)
qed

subsection \<open>What the members of the result are\<close>

lemma obj_getn_append: "obj_getn (a @ b) key = (case obj_getn a key of None \<Rightarrow> obj_getn b key | Some v \<Rightarrow> Some v)"
  by (induction a) (auto split: option.splits)

lemma obj_getn_put: "obj_getn (put_member k v ms) key = (if key = fst k then Some v else obj_getn ms key)"
  by (induction ms) (auto split: if_splits)

lemma obj_getn_canon: "obj_getn (canon ms) key = obj_getn (rev ms) key"
proof -
  have "obj_getn (fold (\<lambda>(k, v). put_member k v) ms acc) key =
      (case obj_getn (rev ms) key of None \<Rightarrow> obj_getn acc key | Some v \<Rightarrow> Some v)" for acc
    by (induction ms arbitrary: acc) (auto simp: obj_getn_append obj_getn_put split: option.splits)
  from this [of "[]"] show ?thesis by (simp add: canon_def split: option.splits)
qed

lemma obj_getn_keys: "obj_getn ms key = None \<longleftrightarrow> key \<notin> set (map (\<lambda>m. fst (fst m)) ms)"
proof (induction ms)
  case (Cons m ms)
  then show ?case by (cases m) auto
qed simp

lemma orig_part_get:
  "distinct (map (\<lambda>m. fst (fst m)) oms) \<Longrightarrow> obj_getn (concat (map (orig_part pms) oms)) key =
    (case obj_getn oms key of
       None \<Rightarrow> None
     | Some v \<Rightarrow> (case obj_getn pms key of
         None \<Rightarrow> Some v
       | Some pv \<Rightarrow> if pv = YNull then None else Some (json_merge (Some v) pv)))"
proof (induction oms)
  case (Cons m oms)
  obtain k v where m: "m = (k, v)" by (cases m)
  have "obj_getn oms (fst k) = None" using Cons.prems m by (simp add: obj_getn_keys)
  with Cons m show ?case by (cases "fst k = key") (auto simp: orig_part_def obj_getn_append split: option.splits)
qed simp

lemma patch_part_get:
  "distinct (map (\<lambda>m. fst (fst m)) pms) \<Longrightarrow> obj_getn (concat (map (patch_part oms) pms)) key =
    (case obj_getn pms key of
       None \<Rightarrow> None
     | Some pv \<Rightarrow> if pv = YNull \<or> obj_getn oms key \<noteq> None then None else Some (json_merge None pv))"
proof (induction pms)
  case (Cons m pms)
  obtain k v where m: "m = (k, v)" by (cases m)
  have "obj_getn pms (fst k) = None" using Cons.prems m by (simp add: obj_getn_keys)
  with Cons m show ?case by (cases "fst k = key") (auto simp: patch_part_def obj_getn_append split: option.splits)
qed simp

lemma merged_get:
  "obj_getn (merged_members oms pms) key =
    (case obj_getn (rev pms) key of
       None \<Rightarrow> obj_getn (rev oms) key
     | Some pv \<Rightarrow> if pv = YNull then None else Some (json_merge (obj_getn (rev oms) key) pv))"
  unfolding merged_members_def obj_getn_append orig_part_get [OF canon_distinct] patch_part_get [OF canon_distinct] obj_getn_canon
  by (auto split: option.splits)

lemma orig_part_keys: "map (\<lambda>m. fst (fst m)) (concat (map (orig_part pms) oms)) =
    filter (\<lambda>key. obj_getn pms key \<noteq> Some YNull) (map (\<lambda>m. fst (fst m)) oms)"
  by (induction oms) (auto simp: orig_part_def split: option.splits)

lemma patch_part_keys: "map (\<lambda>m. fst (fst m)) (concat (map (patch_part oms) pms)) =
    map (\<lambda>m. fst (fst m)) (filter (\<lambda>m. snd m \<noteq> YNull \<and> obj_getn oms (fst (fst m)) = None) pms)"
  by (induction pms) (auto simp: patch_part_def)

lemma merged_distinct: "distinct (map (\<lambda>m. fst (fst m)) (merged_members oms pms))"
proof -
  let ?a = "map (\<lambda>m. fst (fst m)) (concat (map (orig_part (canon pms)) (canon oms)))"
  let ?b = "map (\<lambda>m. fst (fst m)) (concat (map (patch_part (canon oms)) (canon pms)))"
  have "distinct ?a" unfolding orig_part_keys by (rule distinct_filter) (rule canon_distinct)
  moreover have "distinct ?b" unfolding patch_part_keys by (rule distinct_map_filter) (rule canon_distinct)
  moreover have "k \<notin> set ?a" if "k \<in> set ?b" for k
  proof -
    from that have "obj_getn (canon oms) k = None" unfolding patch_part_keys by auto
    then show ?thesis unfolding orig_part_keys by (simp only: obj_getn_keys set_filter) simp
  qed
  ultimately show ?thesis
    unfolding merged_members_def map_append distinct_append by blast
qed

lemma concat_singles: "(\<And>m. m \<in> set ms \<Longrightarrow> f m = [m]) \<Longrightarrow> concat (map f ms) = ms"
  by (induction ms) simp_all

lemma merge_again: "json_merge (Some (json_merge orig patch)) patch = json_merge orig patch"
proof (induction orig patch rule: json_merge.induct)
  case (1 orig pms)
  let ?M = "merged_members (orig_members orig) pms"
  have M: "canon ?M = ?M" by (rule canon_id) (rule merged_distinct)
  have get: "obj_getn ?M key = (case obj_getn (rev pms) key of
       None \<Rightarrow> obj_getn (rev (orig_members orig)) key
     | Some pv \<Rightarrow> if pv = YNull then None else Some (json_merge (obj_getn (rev (orig_members orig)) key) pv))" for key
    by (rule merged_get)
  have in_pms: "pv \<in> snd ` set pms" if "obj_getn (rev pms) key = Some pv" for key pv
    using that by (induction pms) (force simp: obj_getn_append split: option.splits if_splits)+
  have o: "orig_part (canon pms) m = [m]" if m: "m \<in> set ?M" for m
  proof -
    obtain k v where kv: "m = (k, v)" by (cases m)
    have "obj_getn ?M (fst k) = Some v"
      using obj_getn_nth [OF merged_distinct [of "orig_members orig" pms]] m kv by (metis fst_conv in_set_conv_nth snd_conv)
    then show ?thesis
      using kv get [of "fst k"] "1.IH" in_pms
      by (fastforce simp: orig_part_def obj_getn_canon split: option.splits if_splits)
  qed
  have p: "patch_part ?M m = []" if m: "m \<in> set (canon pms)" for m
  proof -
    obtain k pv where kv: "m = (k, pv)" by (cases m)
    have "obj_getn (canon pms) (fst k) = Some pv"
      using obj_getn_nth [OF canon_distinct [of pms]] m kv by (metis fst_conv in_set_conv_nth snd_conv)
    then show ?thesis using kv get [of "fst k"] by (auto simp: patch_part_def obj_getn_canon)
  qed
  have "concat (map (orig_part (canon pms)) ?M) = ?M" by (rule concat_singles) (rule o)
  moreover have "concat (map (patch_part ?M) (canon pms)) = []" using p by simp
  ultimately have "merged_members ?M pms = ?M" by (subst merged_members_def) (simp only: M append_Nil2)
  moreover have "orig_members (Some (YObj ?M)) = ?M" by (simp add: orig_members_def)
  ultimately show ?case by (simp only: json_merge_merged)
qed simp_all

definition last_member :: "yyval option \<Rightarrow> bytes \<Rightarrow> yyval option" where
  "last_member v key = obj_getn (rev (orig_members v)) key"

lemma last_member_merged:
  "last_member (Some (json_merge orig (YObj pms))) key =
    (case last_member (Some (YObj pms)) key of
       None \<Rightarrow> last_member orig key
     | Some pv \<Rightarrow> if pv = YNull then None else Some (json_merge (last_member orig key) pv))"
proof -
  have "obj_getn (rev (merged_members oms pms)) key = obj_getn (merged_members oms pms) key" for oms
    using obj_getn_canon [of "merged_members oms pms"] canon_id [OF merged_distinct, of oms pms] by simp
  then show ?thesis by (simp add: last_member_def orig_members_def json_merge_merged merged_get split: option.splits)
qed

subsection \<open>Properties\<close>

text \<open>The iterative nesting test is the recursive one: it holds exactly when containers are nested at
  least \<open>limit\<close> deep.\<close>

theorem depth_test_is_nesting: "fastjson_val_depth_reaches v limit \<longleftrightarrow> limit \<le> nesting v"
  by (rule depth_reaches_iff)


text \<open>A member of the merged object is the merge of the two last members with its key, the original one
  where the patch has none, and absent where the patch has \<open>null\<close>; no key occurs twice.\<close>

theorem merge_members_rfc7396:
  "case fastjson_merge_patch_bounded (env\<lparr>stack_ok := (\<lambda>_. True)\<rparr>) orig (YObj pms) remaining_depth lvl of
     None \<Rightarrow> remaining_depth \<le> nesting (json_merge orig (YObj pms))
   | Some r \<Rightarrow>
       last_member (Some r) key =
         (case last_member (Some (YObj pms)) key of
            None \<Rightarrow> last_member orig key
          | Some pv \<Rightarrow> if pv = YNull then None else Some (json_merge (last_member orig key) pv)) \<and>
       distinct (map (\<lambda>m. fst (fst m)) (orig_members (Some r)))"
proof -
  have "orig_members (Some (json_merge orig (YObj pms))) = merged_members (orig_members orig) pms"
    by (simp add: orig_members_def json_merge_merged)
  then show ?thesis
    using merged_distinct [of "orig_members orig" pms] last_member_merged [of orig pms key]
    by (simp add: merge_bounded split: option.split)
qed

text \<open>Merging the same patch again changes nothing.\<close>

theorem merge_idempotent:
  assumes "fastjson_merge_patch_bounded (env\<lparr>stack_ok := (\<lambda>_. True)\<rparr>) orig patch remaining_depth lvl = Some r"
  shows "fastjson_merge_patch_bounded (env\<lparr>stack_ok := (\<lambda>_. True)\<rparr>) (Some r) patch remaining_depth lvl = Some r"
  using assms merge_again [of orig patch] by (auto simp: merge_bounded split: if_splits)

definition merge_env :: env where
  "merge_env = \<lparr>zstr_max = 1000, size_max = 1000, buf_cap = length, stack_ok = (\<lambda>_. True),
     write_number = (\<lambda>_. None), strtod_finite = (\<lambda>_. True)\<rparr>"

lemma merge_idempotent_witness:
  "fastjson_merge_patch_bounded (merge_env\<lparr>stack_ok := (\<lambda>_. True)\<rparr>)
     (Some (YObj [(([0x61], False), YBool True)])) (YObj [(([0x61], False), YBool True), (([0x62], False), YNull)]) 3 0 =
   Some (YObj [(([0x61], False), YBool True)])"
  by (rule merge_idempotent [of _ "Some (YObj [(([0x62], False), YUint 1)])"])
    (simp add: merge_bounded json_merge_obj orig_members_def canon_def orig_part_def patch_part_def Let_def)

end
