(* ===== verification/Decode.thy ===== *)
theory Decode
  imports Walk InfNan Merge
begin

text \<open>
  The entry points that read JSON (fastjson_decode.c, and \<open>fastjson_validate\<close> of fastjson.c): decoding a string
  or a file, getting a value by pointer, testing a pointer, merging a patch and validating.

  The vendored reader is a parameter: \<open>reader json yflags\<close> is the document, if any, and the error record the
  call leaves. A stream is what its calls return (\<open>php_stream\<close>), with the effect the callbacks of a userspace
  wrapper may have on the last-error state. Every entry point takes the arguments after the engine has
  parsed them, \<open>None\<close> for a null \<open>$associative\<close>, and returns a \<open>php_result\<close> with the globals.
\<close>

type_synonym yyjson_read_flag = "32 word"

definition YYJSON_READ_ALLOW_TRAILING_COMMAS :: yyjson_read_flag where "YYJSON_READ_ALLOW_TRAILING_COMMAS = 0x4"
definition YYJSON_READ_ALLOW_COMMENTS :: yyjson_read_flag where "YYJSON_READ_ALLOW_COMMENTS = 0x8"
definition YYJSON_READ_ALLOW_INF_AND_NAN :: yyjson_read_flag where "YYJSON_READ_ALLOW_INF_AND_NAN = 0x10"
definition YYJSON_READ_NUMBER_AS_RAW :: yyjson_read_flag where "YYJSON_READ_NUMBER_AS_RAW = 0x20"
definition YYJSON_READ_ALLOW_INVALID_UNICODE :: yyjson_read_flag where "YYJSON_READ_ALLOW_INVALID_UNICODE = 0x40"
definition YYJSON_READ_BIGNUM_AS_RAW :: yyjson_read_flag where "YYJSON_READ_BIGNUM_AS_RAW = 0x80"
definition YYJSON_READ_ALLOW_BOM :: yyjson_read_flag where "YYJSON_READ_ALLOW_BOM = 0x100"
definition YYJSON_READ_VALIDATE_ONLY :: yyjson_read_flag where "YYJSON_READ_VALIDATE_ONLY = 0x4000"

record yyjson_doc =
  doc_root :: yyval
  doc_dat_read :: nat
  doc_val_read :: nat

type_synonym reader = "bytes \<Rightarrow> yyjson_read_flag \<Rightarrow> yyjson_doc option \<times> yyjson_read_err"

subsection \<open>Reading a document\<close>

definition decode_yflags :: "zend_long \<Rightarrow> yyjson_read_flag \<Rightarrow> yyjson_read_flag" where
  "decode_yflags flags extra_yflags =
    (let yflags = extra_yflags;
         yflags = (if has_flag flags FASTJSON_DECODE_BIGINT_AS_STRING then yflags OR YYJSON_READ_BIGNUM_AS_RAW else yflags);
         yflags = (if has_flag flags (FASTJSON_INVALID_UTF8_IGNORE OR FASTJSON_INVALID_UTF8_SUBSTITUTE)
           then yflags OR YYJSON_READ_ALLOW_INVALID_UNICODE else yflags)
     in if has_flag flags FASTJSON_DECODE_RELAXED
        then yflags OR (YYJSON_READ_ALLOW_COMMENTS OR YYJSON_READ_ALLOW_TRAILING_COMMAS OR YYJSON_READ_ALLOW_BOM)
        else yflags)"

definition fastjson_read_doc_ex :: "reader \<Rightarrow> bytes \<Rightarrow> zend_long \<Rightarrow> yyjson_read_flag
    \<Rightarrow> yyjson_doc option \<times> yyjson_read_err" where
  "fastjson_read_doc_ex reader json flags extra_yflags =
    (let yflags = decode_yflags flags extra_yflags;
         (doc, err) = reader json yflags;
         (doc, err) =
           (if doc = None \<and> re_code err = YYJSON_READ_ERROR_INVALID_NUMBER
               \<and> \<not> fastjson_input_has_inf_nan_literal json (has_flag flags FASTJSON_DECODE_RELAXED)
            then reader json (yflags OR YYJSON_READ_ALLOW_INF_AND_NAN) else (doc, err))
     in (doc,
         if doc = None \<and> re_pos err < length json \<and> 0x80 \<le> json ! re_pos err
            \<and> \<not> fastjson_byte_is_valid_utf8_start json (re_pos err)
         then err\<lparr>re_code := YYJSON_READ_ERROR_INVALID_STRING\<rparr> else err))"

definition fastjson_read_doc :: "reader \<Rightarrow> bytes \<Rightarrow> zend_long \<Rightarrow> yyjson_doc option \<times> yyjson_read_err" where
  "fastjson_read_doc reader json flags = fastjson_read_doc_ex reader json flags 0"

subsection \<open>Depth\<close>

definition FASTJSON_STACK_DEPTH_LIMIT :: int where "FASTJSON_STACK_DEPTH_LIMIT = 1024"

definition fastjson_effective_stack_depth :: "int \<Rightarrow> int" where
  "fastjson_effective_stack_depth depth =
    (if FASTJSON_STACK_DEPTH_LIMIT < depth then FASTJSON_STACK_DEPTH_LIMIT else depth)"

definition fastjson_effective_walk_depth :: "php \<Rightarrow> int \<Rightarrow> int" where
  "fastjson_effective_walk_depth p depth =
    (if native_stack_limit p then depth else fastjson_effective_stack_depth depth)"

subsection \<open>Decoding\<close>

text \<open>The flag of the result is the C function's return value; on failure the first component is the
  exception or the null left in \<open>return_value\<close>.\<close>

definition fastjson_walk_doc_into :: "php \<Rightarrow> yyjson_doc \<Rightarrow> yyval \<Rightarrow> bool \<Rightarrow> int \<Rightarrow> zend_long \<Rightarrow> bool
    \<Rightarrow> fastjson_error_state \<Rightarrow> fj_request_globals \<Rightarrow> bool \<times> zval php_result \<times> fj_request_globals" where
  "fastjson_walk_doc_into p doc root use_assoc depth flags throw_mode saved_err g =
    (let walk_depth = fastjson_effective_walk_depth p depth;
         (key_prev, g) = fj_key_share_push (doc_dat_read doc) g
     in case fastjson_yyval_to_zval p (FASTJSON_HAS_UTF8_HANDLING_FLAG flags) use_assoc flags root 0 walk_depth g of
          Inl g \<Rightarrow>
            let g = snd (fj_key_share_pop key_prev g) in
            if throw_mode then
              (False, fastjson_throw_current_error (Some ''Maximum stack depth exceeded'') (Some saved_err) g)
            else (False, Returned ZNull, g)
        | Inr (z, g) \<Rightarrow> (True, Returned z, snd (fj_key_share_pop key_prev g)))"

definition fastjson_finish_decode :: "php \<Rightarrow> yyjson_doc \<Rightarrow> bool \<Rightarrow> int \<Rightarrow> zend_long \<Rightarrow> bool
    \<Rightarrow> fastjson_error_state \<Rightarrow> fj_request_globals \<Rightarrow> zval php_result \<times> fj_request_globals" where
  "fastjson_finish_decode p doc use_assoc depth flags throw_mode saved_err g =
    (let (ok, ret, g) = fastjson_walk_doc_into p doc (doc_root doc) use_assoc depth flags throw_mode saved_err g
     in if \<not> ok then (ret, g)
        else (ret, if \<not> throw_mode then fastjson_clear_error g else g))"

definition fastjson_decode_into :: "php \<Rightarrow> reader \<Rightarrow> bytes \<Rightarrow> bool \<Rightarrow> int \<Rightarrow> zend_long \<Rightarrow> bool
    \<Rightarrow> fastjson_error_state \<Rightarrow> fj_request_globals \<Rightarrow> zval php_result \<times> fj_request_globals" where
  "fastjson_decode_into p reader json use_assoc depth flags throw_mode saved_err g =
    (case fastjson_read_doc reader json flags of
       (None, err) \<Rightarrow>
         if throw_mode then fastjson_throw_read_error err (Some saved_err) g
         else (Returned ZNull, fastjson_set_read_error json err g)
     | (Some doc, err) \<Rightarrow> fastjson_finish_decode p doc use_assoc depth flags throw_mode saved_err g)"

definition decode_use_assoc :: "bool option \<Rightarrow> zend_long \<Rightarrow> bool" where
  "decode_use_assoc assoc flags =
    (case assoc of None \<Rightarrow> has_flag flags FASTJSON_DECODE_OBJECT_AS_ARRAY | Some b \<Rightarrow> b)"

definition fastjson_decode :: "php \<Rightarrow> reader \<Rightarrow> bytes \<Rightarrow> bool option \<Rightarrow> int \<Rightarrow> zend_long
    \<Rightarrow> fj_request_globals \<Rightarrow> zval php_result \<times> fj_request_globals" where
  "fastjson_decode p reader json assoc depth flags g =
    (let throw_mode = has_flag flags FASTJSON_DECODE_THROW_ON_ERROR;
         (saved_err, g) = fastjson_throw_mode_init throw_mode g
     in case FASTJSON_VALIDATE_DEPTH depth 3 of
          Some r \<Rightarrow> (r, g)
        | None \<Rightarrow> fastjson_decode_into p reader json (decode_use_assoc assoc flags) depth flags throw_mode saved_err g)"

subsection \<open>Files\<close>

text \<open>\<open>reads\<close> is what the calls of \<open>php_stream_read\<close> return: the bytes got, or \<open>None\<close> for a negative count; behind its
  end they return 0. \<open>mem_contents\<close> is the result of \<open>php_stream_copy_to_mem\<close>, \<open>stream_eof\<close> that of
  \<open>php_stream_eof\<close> after the last call.\<close>

record php_stream =
  stream_is_stdio :: bool
  mem_contents :: "bytes option"
  reads :: "bytes option list"
  stream_eof :: bool

fun read_chunks :: "bool \<Rightarrow> bytes option list \<Rightarrow> bytes \<Rightarrow> bytes \<times> bool" where
  "read_chunks eof [] read_buf = (read_buf, \<not> eof)"
| "read_chunks eof (None # rs) read_buf = (read_buf, True)"
| "read_chunks eof (Some chunk # rs) read_buf =
    (if chunk \<noteq> [] then read_chunks eof rs (read_buf @ chunk) else (read_buf, \<not> eof))"

definition fastjson_read_stream :: "php_stream \<Rightarrow> bytes \<times> bool" where
  "fastjson_read_stream stream =
    (if stream_is_stdio stream then
       (case mem_contents stream of None \<Rightarrow> [] | Some contents \<Rightarrow> contents, \<not> stream_eof stream)
     else read_chunks (stream_eof stream) (reads stream) [])"

text \<open>Opening and reading, with the last-error state the wrapper's callbacks leave and whether one of them threw.\<close>

record php_file =
  opened :: "php_stream option"
  open_callbacks :: "fastjson_error_state \<Rightarrow> fastjson_error_state"
  open_threw :: bool
  read_callbacks :: "fastjson_error_state \<Rightarrow> fastjson_error_state"
  read_threw :: bool

definition fastjson_file_decode :: "php \<Rightarrow> reader \<Rightarrow> php_file \<Rightarrow> bool option \<Rightarrow> int \<Rightarrow> zend_long
    \<Rightarrow> fj_request_globals \<Rightarrow> zval php_result \<times> fj_request_globals" where
  "fastjson_file_decode p reader file assoc depth flags g =
    (let throw_mode = has_flag flags FASTJSON_DECODE_THROW_ON_ERROR;
         (saved_err, g) = fastjson_throw_mode_init throw_mode g;
         operation_err = fastjson_save_error_state g;
         entry_err = (if throw_mode then saved_err else operation_err)
     in case FASTJSON_VALIDATE_DEPTH depth 3 of
       Some r \<Rightarrow> (r, g)
     | None \<Rightarrow>
        let use_assoc = decode_use_assoc assoc flags;
            g = g\<lparr>last_err := open_callbacks file (last_err g)\<rparr>
        in case opened file of
          None \<Rightarrow>
            if open_threw file then (HostException, fastjson_restore_error_state entry_err g)
            else (Returned ZNull, fastjson_set_error_code FASTJSON_ERROR_SYNTAX ''Failed to open file for reading'' g)
        | Some stream \<Rightarrow>
            let (contents, read_failed) = fastjson_read_stream stream;
                g = g\<lparr>last_err := read_callbacks file (last_err g)\<rparr>
            in if read_threw file then (HostException, fastjson_restore_error_state entry_err g)
               else if read_failed then
                 (Returned ZNull, fastjson_set_error_code FASTJSON_ERROR_SYNTAX ''Failed to read file'' g)
               else case fastjson_read_doc reader contents flags of
                 (None, err) \<Rightarrow>
                   if throw_mode then fastjson_throw_read_error err (Some saved_err) g
                   else (Returned ZNull, fastjson_set_read_error contents err g)
               | (Some doc, err) \<Rightarrow>
                   let (ret, g) = fastjson_finish_decode p doc use_assoc depth flags throw_mode saved_err g
                   in (ret, if throw_mode \<and> (case ret of Returned _ \<Rightarrow> True | _ \<Rightarrow> False) then fastjson_restore_error_state saved_err g else g))"

subsection \<open>Pointers\<close>

definition fj_splice_errors :: "(fj_splice_status \<times> int \<times> string) list" where
  "fj_splice_errors =
    [(FJ_SPLICE_DEPTH_FAIL, FASTJSON_ERROR_DEPTH, ''Maximum stack depth exceeded''),
     (FJ_SPLICE_TOO_LARGE, FASTJSON_ERROR_UNSUPPORTED_TYPE, ''Encoded JSON string is too large''),
     (FJ_SPLICE_INF_OR_NAN, FASTJSON_ERROR_INF_OR_NAN, ''Inf and NaN cannot be JSON encoded''),
     (FJ_SPLICE_INVALID_UTF8, FASTJSON_ERROR_UTF8, ''Malformed UTF-8 characters, possibly incorrectly encoded''),
     (FJ_SPLICE_AMBIGUOUS, FASTJSON_ERROR_SYNTAX,
       ''JSON pointer target is ambiguous because the object contains duplicate members''),
     (FJ_SPLICE_SETTABLE_FAIL, FASTJSON_ERROR_SYNTAX, ''JSON pointer does not resolve to a settable location'')]"

text \<open>The result is \<open>None\<close> where the caller goes on to return its own value.\<close>

definition fj_splice_dispatch_error :: "fj_splice_status \<Rightarrow> bool \<Rightarrow> fastjson_error_state \<Rightarrow> 'a fj_globals_scheme
    \<Rightarrow> 'v php_result option \<times> 'a fj_globals_scheme" where
  "fj_splice_dispatch_error status throw_mode saved_err g =
    (let (err_code, err_msg) =
       (case map_of fj_splice_errors status of
          Some e \<Rightarrow> e | None \<Rightarrow> (FASTJSON_ERROR_SYNTAX, ''fastjson_pointer_set write failed''))
     in if throw_mode then
          (let (ex, g) = fastjson_throw_error err_code (Some err_msg) None (Some saved_err) g in (Some ex, g))
        else (None, fastjson_set_error_code err_code err_msg g))"

definition fastjson_pointer_get :: "php \<Rightarrow> reader \<Rightarrow> bytes \<Rightarrow> bytes \<Rightarrow> bool option \<Rightarrow> int \<Rightarrow> zend_long
    \<Rightarrow> fj_request_globals \<Rightarrow> zval php_result \<times> fj_request_globals" where
  "fastjson_pointer_get p reader json pointer assoc depth flags g =
    (case fastjson_entry_prologue flags FASTJSON_DECODE_THROW_ON_ERROR depth 4 g of
       (Inl r, g) \<Rightarrow> (r, g)
     | (Inr (throw_mode, saved_err), g) \<Rightarrow>
        let use_assoc = decode_use_assoc assoc flags in
        case fastjson_read_doc reader json flags of
          (None, err) \<Rightarrow>
            if throw_mode then fastjson_throw_read_error err (Some saved_err) g
            else (Returned ZNull, fastjson_set_read_error json err g)
        | (Some doc, err) \<Rightarrow>
            let resolve_depth = nat (fastjson_effective_walk_depth p depth);
                (pointer_status, target) =
                  fastjson_pointer_resolve_limited (size_max (platform p)) (doc_root doc) pointer resolve_depth flags
            in if pointer_status = FJ_SPLICE_AMBIGUOUS \<or> pointer_status = FJ_SPLICE_DEPTH_FAIL then
                 (case fj_splice_dispatch_error pointer_status throw_mode saved_err g of
                    (Some ex, g) \<Rightarrow> (ex, g) | (None, g) \<Rightarrow> (Returned ZNull, g))
               else case target of
                 None \<Rightarrow> (Returned ZNull, fastjson_clear_error g)
               | Some target \<Rightarrow>
                   let (ok, ret, g) = fastjson_walk_doc_into p doc target use_assoc depth flags throw_mode saved_err g
                   in if \<not> ok then (ret, g) else (ret, if \<not> throw_mode then fastjson_clear_error g else g))"

definition fastjson_pointer_exists :: "php \<Rightarrow> reader \<Rightarrow> bytes \<Rightarrow> bytes \<Rightarrow> zend_long
    \<Rightarrow> fj_request_globals \<Rightarrow> bool php_result \<times> fj_request_globals" where
  "fastjson_pointer_exists p reader json pointer flags g =
    (let throw_mode = has_flag flags FASTJSON_DECODE_THROW_ON_ERROR;
         (saved_err, g) = fastjson_throw_mode_init throw_mode g
     in case fastjson_read_doc reader json flags of
       (None, err) \<Rightarrow>
         if throw_mode then fastjson_throw_read_error err (Some saved_err) g
         else (Returned False, fastjson_set_read_error json err g)
     | (Some doc, err) \<Rightarrow>
        let (pointer_status, target) =
              fastjson_pointer_resolve_limited (size_max (platform p)) (doc_root doc) pointer 0 flags
        in if pointer_status = FJ_SPLICE_AMBIGUOUS \<or> pointer_status = FJ_SPLICE_DEPTH_FAIL then
             (case fj_splice_dispatch_error pointer_status throw_mode saved_err g of
                (Some ex, g) \<Rightarrow> (ex, g) | (None, g) \<Rightarrow> (Returned False, g))
           else let found = target \<noteq> None
             in (Returned found, if \<not> found then fastjson_clear_error g else g))"

subsection \<open>Merge Patch\<close>

definition fastjson_merge_patch :: "php \<Rightarrow> reader \<Rightarrow> bytes \<Rightarrow> bytes \<Rightarrow> bool option \<Rightarrow> int \<Rightarrow> zend_long
    \<Rightarrow> fj_request_globals \<Rightarrow> zval php_result \<times> fj_request_globals" where
  "fastjson_merge_patch p reader target patch assoc depth flags g =
    (case fastjson_entry_prologue flags FASTJSON_DECODE_THROW_ON_ERROR depth 4 g of
       (Inl r, g) \<Rightarrow> (r, g)
     | (Inr (throw_mode, saved_err), g) \<Rightarrow>
        let use_assoc = decode_use_assoc assoc flags in
        case fastjson_read_doc reader target flags of
          (None, err) \<Rightarrow>
            if throw_mode then fastjson_throw_read_error err (Some saved_err) g
            else (Returned ZNull, fastjson_set_read_error target err g)
        | (Some tdoc, _) \<Rightarrow>
        case fastjson_read_doc reader patch flags of
          (None, err) \<Rightarrow>
            if throw_mode then fastjson_throw_read_error err (Some saved_err) g
            else (Returned ZNull, fastjson_set_read_error patch err g)
        | (Some pdoc, _) \<Rightarrow>
            let walk_depth = fastjson_effective_walk_depth p depth;
                merged = fastjson_merge_patch_bounded (platform p) (Some (doc_root tdoc)) (doc_root pdoc) (nat walk_depth) 0;
                depth_failed = (merged = None);
                (walked, g) =
                  (case merged of
                     None \<Rightarrow> (None, g)
                   | Some merged \<Rightarrow>
                       let (key_prev, g) = fj_key_share_push (length target + length patch) g
                       in case fastjson_yyval_to_zval p (FASTJSON_HAS_UTF8_HANDLING_FLAG flags) use_assoc flags merged 0 walk_depth g of
                            Inl g \<Rightarrow> (None, snd (fj_key_share_pop key_prev g))
                          | Inr (z, g) \<Rightarrow> (Some z, snd (fj_key_share_pop key_prev g)))
            in if depth_failed \<or> walked = None \<and> es_code (last_err g) = FASTJSON_ERROR_DEPTH then
                 if throw_mode then
                   fastjson_throw_error FASTJSON_ERROR_DEPTH (Some ''Maximum stack depth exceeded'') None (Some saved_err) g
                 else (Returned ZNull, fastjson_set_error_code FASTJSON_ERROR_DEPTH ''Maximum stack depth exceeded'' g)
               else case walked of
                 None \<Rightarrow>
                   if throw_mode then fastjson_throw_current_error (Some ''fastjson_merge_patch failed'') (Some saved_err) g
                   else (Returned ZNull,
                     if es_code (last_err g) = FASTJSON_ERROR_NONE
                     then fastjson_set_error_code FASTJSON_ERROR_SYNTAX ''fastjson_merge_patch failed'' g else g)
               | Some z \<Rightarrow> (Returned z, if \<not> throw_mode then fastjson_clear_error g else g))"

subsection \<open>Validation and module start\<close>

definition fastjson_validate :: "reader \<Rightarrow> bytes \<Rightarrow> int \<Rightarrow> zend_long
    \<Rightarrow> fj_request_globals \<Rightarrow> bool php_result \<times> fj_request_globals" where
  "fastjson_validate reader json depth flags g =
    (if has_flag flags (NOT FASTJSON_INVALID_UTF8_IGNORE) then
       (ValueError 3 ''must be a valid flag (allowed flags: JSON_INVALID_UTF8_IGNORE)'', g)
     else if length json = 0 then
       (Returned False, fastjson_set_read_error json
         \<lparr>re_code = YYJSON_READ_ERROR_INVALID_PARAMETER, re_msg = ''input length is 0'', re_pos = 0\<rparr> g)
     else
       let g = fastjson_clear_error g in
       if depth \<le> 0 then (ValueError 2 ''must be greater than 0'', g)
       else if INT_MAX < depth then (ValueError 2 ''must be less than 2147483647'', g)
       else case fastjson_read_doc_ex reader json flags YYJSON_READ_VALIDATE_ONLY of
         (None, err) \<Rightarrow> (Returned False, fastjson_set_read_error json err g)
       | (Some doc, err) \<Rightarrow>
           let nesting = doc_val_read doc in
           if nat depth \<le> nesting then
             (Returned False, fastjson_set_error_code FASTJSON_ERROR_DEPTH ''Maximum stack depth exceeded'' g)
           else (Returned True, fastjson_clear_error g))"

definition fastjson_GINIT :: fj_request_globals where
  "fastjson_GINIT = \<lparr>last_err = \<lparr>es_code = FASTJSON_ERROR_NONE, es_msg = None, es_pos = -1, es_line = 0, es_col = 0\<rparr>,
    key_share = None\<rparr>"

definition fastjson_RINIT :: "fj_request_globals \<Rightarrow> fj_request_globals" where
  "fastjson_RINIT g = (fastjson_clear_error g)\<lparr>key_share := None\<rparr>"

end
