(* ===== verification/EncodeApi.thy ===== *)
theory EncodeApi
  imports Encoder Decode
begin

text \<open>
  The entry points that write JSON: \<open>fastjson_encode\<close> and \<open>fastjson_file_encode\<close> (fastjson_encode.c), and
  \<open>fastjson_pointer_set\<close> with the choice of the replacement (fastjson_decode.c, fastjson_pointer_splice.c).

  A PHP string or \<open>false\<close> is a \<open>bytes option\<close>. As in Encoder, the outer \<open>None\<close> is a lack of fuel. The output stream
  of a file is what its calls return, with the effect of a userspace wrapper's callbacks on the last-error
  state; the bytes the stream accepted are part of the result.
\<close>

subsection \<open>Encoding and publishing the outcome\<close>

abbreviation restore_globals :: "fastjson_error_state \<Rightarrow> php_world \<Rightarrow> php_world" where
  "restore_globals st w \<equiv> w\<lparr>globals := fastjson_restore_error_state st (globals w)\<rparr>"

text \<open>\<open>Inl\<close>: no string, with the pending exception if there is one.\<close>

definition fastjson_do_encode :: "engine \<Rightarrow> nat \<Rightarrow> pval \<Rightarrow> zend_long \<Rightarrow> int \<Rightarrow> bool \<Rightarrow> fastjson_error_state \<Rightarrow> string
    \<Rightarrow> php_world \<Rightarrow> (('v php_result option + bytes) \<times> fastjson_error_state \<times> php_world) option" where
  "fastjson_do_encode e n val flags depth throw_mode saved_err throw_fallback w =
    (case fastjson_directwrite_encode e n val flags depth w of
       None \<Rightarrow> None
     | Some (zs, encode_err, w) \<Rightarrow> Some
        (if exception w then
           (Inl (Some HostException), encode_err, if \<not> throw_mode then restore_globals encode_err w else w)
         else
           let w = restore_globals (if throw_mode then saved_err else encode_err) w in
           case zs of
             Some z \<Rightarrow> (Inr z, encode_err, w)
           | None \<Rightarrow>
               if throw_mode then
                 let (ex, g) = fastjson_throw_error (es_code encode_err) (es_msg encode_err) (Some throw_fallback)
                       (Some saved_err) (globals w)
                 in (Inl (Some ex), encode_err, w\<lparr>globals := g\<rparr>)
               else (Inl None, encode_err, w)))"

definition INT_MIN :: int where "INT_MIN = -2147483648"

definition fastjson_encode_depth_in_range :: "int \<Rightarrow> nat \<Rightarrow> 'v php_result option" where
  "fastjson_encode_depth_in_range depth argno =
    (if depth < INT_MIN \<or> INT_MAX < depth
     then Some (ValueError argno ''must be between -2147483648 and 2147483647'') else None)"

definition encode_throw_mode :: "zend_long \<Rightarrow> bool" where
  "encode_throw_mode flags \<longleftrightarrow>
    has_flag flags FASTJSON_ENCODE_THROW_ON_ERROR \<and> \<not> has_flag flags FASTJSON_ENCODE_PARTIAL_OUTPUT_ON_ERROR"

definition fastjson_encode :: "engine \<Rightarrow> nat \<Rightarrow> pval \<Rightarrow> zend_long \<Rightarrow> int \<Rightarrow> php_world
    \<Rightarrow> (bytes option php_result \<times> php_world) option" where
  "fastjson_encode e n val flags depth w =
    (case fastjson_encode_depth_in_range depth 3 of
       Some r \<Rightarrow> Some (r, w)
     | None \<Rightarrow>
        let throw_mode = encode_throw_mode flags;
            (saved_err, g) = fastjson_throw_mode_init throw_mode (globals w)
        in case fastjson_do_encode e n val flags depth throw_mode saved_err ''fastjson_encode failed'' (w\<lparr>globals := g\<rparr>) of
             None \<Rightarrow> None
           | Some (Inl (Some ex), _, w) \<Rightarrow> Some (ex, w)
           | Some (Inl None, _, w) \<Rightarrow> Some (Returned None, w)
           | Some (Inr zs, _, w) \<Rightarrow> Some (Returned (Some zs), w))"

subsection \<open>Files\<close>

record php_sink =
  sink_opened :: bool
  sink_open_threw :: bool
  sink_open_callbacks :: "fastjson_error_state \<Rightarrow> fastjson_error_state"
  writes :: "int list"
  can_flush :: bool
  write_threw :: bool
  flush_res :: int
  close_res :: int
  close_threw :: bool
  sink_callbacks :: "fastjson_error_state \<Rightarrow> fastjson_error_state"

text \<open>The write loop: what \<open>php_stream_write\<close> returns for each call, 0 behind the end. The bytes the stream
  took are collected in \<open>taken\<close>.\<close>

fun write_loop :: "bytes \<Rightarrow> nat \<Rightarrow> int list \<Rightarrow> bytes \<Rightarrow> nat \<times> bytes" where
  "write_loop zs dn [] taken = (dn, taken)"
| "write_loop zs dn (n # ns) taken =
    (if dn < length zs then
       (if n \<le> 0 then (dn, taken)
        else if length zs - dn \<le> nat n then (length zs, taken @ drop dn zs)
        else write_loop zs (dn + nat n) ns (taken @ take (nat n) (drop dn zs)))
     else (dn, taken))"

definition fastjson_file_encode :: "engine \<Rightarrow> nat \<Rightarrow> php_sink \<Rightarrow> pval \<Rightarrow> zend_long \<Rightarrow> int \<Rightarrow> php_world
    \<Rightarrow> (bool php_result \<times> bytes \<times> php_world) option" where
  "fastjson_file_encode e n sink val flags depth w =
    (case fastjson_encode_depth_in_range depth 4 of
       Some r \<Rightarrow> Some (r, [], w)
     | None \<Rightarrow>
        let throw_mode = encode_throw_mode flags;
            (saved_err, g) = fastjson_throw_mode_init throw_mode (globals w)
        in case fastjson_do_encode e n val flags depth throw_mode saved_err ''fastjson_file_encode failed'' (w\<lparr>globals := g\<rparr>) of
             None \<Rightarrow> None
           | Some (Inl (Some ex), _, w) \<Rightarrow> Some (ex, [], w)
           | Some (Inl None, _, w) \<Rightarrow> Some (Returned False, [], w)
           | Some (Inr zs, encode_err, w) \<Rightarrow>
              let final_err = (if throw_mode then saved_err else encode_err);
                  w = w\<lparr>globals := (globals w)\<lparr>last_err := sink_open_callbacks sink (last_err (globals w))\<rparr>\<rparr>
              in if \<not> sink_opened sink then
                   Some (if sink_open_threw sink then (HostException, [], restore_globals final_err w)
                     else (Returned False, [],
                       w\<lparr>globals := fastjson_set_error_code FASTJSON_ERROR_SYNTAX ''Failed to open file for writing'' (globals w)\<rparr>))
                 else
                   let (dn, taken) = write_loop zs 0 (writes sink) [];
                       wrote_all = (dn = length zs);
                       flush = (if wrote_all \<and> can_flush sink \<and> \<not> write_threw sink then flush_res sink else 0);
                       w = w\<lparr>globals := (globals w)\<lparr>last_err := sink_callbacks sink (last_err (globals w))\<rparr>\<rparr>
                   in Some (if write_threw sink \<or> close_threw sink then (HostException, taken, restore_globals final_err w)
                     else if \<not> wrote_all \<or> flush \<noteq> 0 \<or> close_res sink \<noteq> 0 then
                       (Returned False, taken,
                        w\<lparr>globals := fastjson_set_error_code FASTJSON_ERROR_SYNTAX ''Failed to write file'' (globals w)\<rparr>)
                     else (Returned True, taken, restore_globals final_err w)))"

subsection \<open>Setting a value by pointer\<close>

definition FASTJSON_POINTER_VALUE_ENCODE_FLAGS :: zend_long where
  "FASTJSON_POINTER_VALUE_ENCODE_FLAGS =
    FASTJSON_ENCODE_HEX_TAG OR FASTJSON_ENCODE_HEX_AMP OR FASTJSON_ENCODE_HEX_APOS OR FASTJSON_ENCODE_HEX_QUOT OR
    FASTJSON_ENCODE_FORCE_OBJECT OR FASTJSON_ENCODE_NUMERIC_CHECK OR FASTJSON_ENCODE_UNESCAPED_SLASHES OR
    FASTJSON_ENCODE_PRETTY_PRINT OR FASTJSON_ENCODE_UNESCAPED_UNICODE OR FASTJSON_ENCODE_PARTIAL_OUTPUT_ON_ERROR OR
    FASTJSON_ENCODE_PRESERVE_ZERO_FRACTION OR FASTJSON_INVALID_UTF8_IGNORE OR FASTJSON_INVALID_UTF8_SUBSTITUTE OR
    FASTJSON_ENCODE_THROW_ON_ERROR"

definition repl_value :: "yyval \<Rightarrow> fastjson_pointer_repl" where
  "repl_value v = \<lparr>rp_encoded = None, rp_repl = v\<rparr>"

text \<open>The replacement (\<open>None\<close> for \<open>false\<close>) and the error state of the call.\<close>

definition fastjson_pointer_build_replacement :: "engine \<Rightarrow> nat \<Rightarrow> pval \<Rightarrow> zend_long \<Rightarrow> int \<Rightarrow> php_world
    \<Rightarrow> (fastjson_pointer_repl option \<times> fastjson_error_state \<times> php_world) option" where
  "fastjson_pointer_build_replacement e n val value_flags depth w =
    (let val = zval_deref w val;
         encode_value =
           (case fastjson_directwrite_encode e n val value_flags depth w of
              None \<Rightarrow> None
            | Some (encoded, error_state, w) \<Rightarrow>
                Some (if exception w then None
                      else map_option (\<lambda>t. \<lparr>rp_encoded = Some t, rp_repl = YNull\<rparr>) encoded, error_state, w));
         direct = (\<lambda>v. Some (Some (repl_value v), fastjson_error_state_clear, w))
     in if has_flag value_flags (FASTJSON_ENCODE_FORCE_OBJECT OR FASTJSON_ENCODE_NUMERIC_CHECK OR
            FASTJSON_ENCODE_PARTIAL_OUTPUT_ON_ERROR OR FASTJSON_ENCODE_PRESERVE_ZERO_FRACTION) then encode_value
        else case val of
          PNull \<Rightarrow> direct YNull
        | PBool b \<Rightarrow> direct (YBool b)
        | PLong i \<Rightarrow> direct (YSint i)
        | PString str \<Rightarrow>
            if FASTJSON_HAS_UTF8_HANDLING_FLAG value_flags \<and> \<not> fastjson_utf8_well_formed str
            then direct (YStr (fastjson_sanitize_utf8 str value_flags FJ_SAN_ENCODE) False)
            else direct (YStr str False)
        | _ \<Rightarrow> encode_value)"

definition fastjson_pointer_set :: "engine \<Rightarrow> nat \<Rightarrow> reader \<Rightarrow> bytes \<Rightarrow> bytes \<Rightarrow> pval \<Rightarrow> int \<Rightarrow> zend_long \<Rightarrow> php_world
    \<Rightarrow> (bytes option php_result \<times> php_world) option" where
  "fastjson_pointer_set e n reader json pointer val depth flags w =
    (let throw_mode = has_flag flags FASTJSON_DECODE_THROW_ON_ERROR;
         (saved_err, g) = fastjson_throw_mode_init throw_mode (globals w);
         w = w\<lparr>globals := g\<rparr>;
         failed = (\<lambda>splice_status w.
           let (ex, g) = fj_splice_dispatch_error splice_status throw_mode saved_err (globals w)
           in Some (case ex of Some r \<Rightarrow> r | None \<Rightarrow> Returned None, w\<lparr>globals := g\<rparr>))
     in case FASTJSON_VALIDATE_DEPTH depth 4 of
       Some r \<Rightarrow> Some (r, w)
     | None \<Rightarrow>
        let output_depth = nat (fastjson_effective_walk_depth (runtime e) depth) in
        case fastjson_read_doc_ex reader json (flags AND FASTJSON_DECODE_RELAXED) YYJSON_READ_NUMBER_AS_RAW of
          (None, err) \<Rightarrow>
            if throw_mode then
              (let (ex, g) = fastjson_throw_read_error err (Some saved_err) (globals w) in Some (ex, w\<lparr>globals := g\<rparr>))
            else Some (Returned None, w\<lparr>globals := fastjson_set_read_error json err (globals w)\<rparr>)
        | (Some idoc, err) \<Rightarrow>
            case fastjson_pointer_plan_init (size_max (plat e)) (doc_root idoc) pointer output_depth of
              Inl splice_status \<Rightarrow> failed splice_status w
            | Inr plan \<Rightarrow>
                let value_flags = flags AND FASTJSON_POINTER_VALUE_ENCODE_FLAGS;
                    repl_depth = int output_depth - int (length plan) - 1;
                    repl_depth = (if repl_depth < 0 then 0 else repl_depth)
                in case fastjson_pointer_build_replacement e n val value_flags repl_depth w of
                  None \<Rightarrow> None
                | Some (repl, replacement_err, w) \<Rightarrow>
                    let w = (if \<not> throw_mode then restore_globals replacement_err w else w) in
                    case repl of
                      None \<Rightarrow>
                        if exception w then Some (HostException, w)
                        else if throw_mode then
                          (let (ex, g) = fastjson_throw_error (es_code replacement_err) (es_msg replacement_err)
                                 (Some ''fastjson_pointer_set encode failed'') (Some saved_err) (globals w)
                           in Some (ex, w\<lparr>globals := g\<rparr>))
                        else Some (Returned None, w)
                    | Some repl \<Rightarrow>
                        case fastjson_imut_pointer_set_write (plat e) (doc_root idoc) plan repl flags output_depth of
                          Inl splice_status \<Rightarrow> failed splice_status w
                        | Inr out \<Rightarrow>
                            Some (Returned (Some out),
                              if throw_mode then
                                restore_globals
                                  (if es_code replacement_err \<noteq> FASTJSON_ERROR_NONE then replacement_err else saved_err) w
                              else w))"

end
