(* ===== verification/EncodeRel.thy ===== *)
theory EncodeRel
  imports EncodeApi
begin

text \<open>
  What every call of the encoder keeps, for any value, engine and user code. The locale \<open>encoder_relation\<close> is
  the interface of such an argument: two relations between the states before and after a call, one for
  the encoder and one for the discard traversal, with a law for each primitive step (writing, failing, calling
  user code, setting and clearing a recursion flag, indenting, counting). The functions of the encoder are composed of
  these steps, so the relation holds of all of them; it is interpreted for each fact in turn.
\<close>

subsection \<open>Arrays as protected and indented elements\<close>

definition array_flag :: "nat option \<Rightarrow> recursion_flag set" where
  "array_flag ident = (case ident of Some i \<Rightarrow> {GuardArray i} | None \<Rightarrow> {})"

definition flagged :: "nat option \<Rightarrow> fastjson_dw_ctx \<Rightarrow> fastjson_dw_ctx" where
  "flagged i s = (case i of Some i \<Rightarrow> dw_protect (GuardArray i) s | None \<Rightarrow> s)"

definition unflagged :: "nat option \<Rightarrow> fastjson_dw_ctx \<Rightarrow> fastjson_dw_ctx" where
  "unflagged i s = (case i of Some i \<Rightarrow> dw_unprotect (GuardArray i) s | None \<Rightarrow> s)"

definition deeper :: "bool \<Rightarrow> fastjson_dw_ctx \<Rightarrow> fastjson_dw_ctx" where
  "deeper b s = (if b then s\<lparr>indent_level := indent_level s + 1\<rparr> else s)"

lemma guarded_flag: "(case i of Some i \<Rightarrow> dw_guarded (GuardArray i) s | None \<Rightarrow> False) \<longleftrightarrow> array_flag i \<inter> guards (world s) \<noteq> {}"
  by (cases i) (auto simp: dw_guarded_def array_flag_def)

definition array_closed :: "engine \<Rightarrow> nat option \<Rightarrow> bool \<Rightarrow> bool \<Rightarrow> fastjson_dw_ctx \<Rightarrow> fastjson_dw_ctx" where
  "array_closed e i al b s = unflagged i (dw_append (if al then [0x5D] else [0x7D])
    (if b then let s = s\<lparr>indent_level := indent_level s - 1\<rparr> in dw_emit_newline_indent e (indent_level s) s else s))"

definition array_left :: "nat option \<Rightarrow> bool \<Rightarrow> fastjson_dw_ctx \<Rightarrow> fastjson_dw_ctx" where
  "array_left i b s = (let s = unflagged i s in if b then s\<lparr>indent_level := indent_level s - 1\<rparr> else s)"

lemma pretty_flagged: "pretty_print (flagged i s) = pretty_print s"
  by (cases i) (simp_all add: flagged_def dw_protect_def)

lemma emit_array_walk:
  assumes "\<not> stack_overflowed e lvl" "0 < d" "array_flag i \<inter> guards (world s) = {}"
  shows "dw_emit_array e enc disc i ht d force lvl s =
    dw_else (dw_emit_elements e enc disc (\<not> force \<and> array_is_list ht) ht (d - 1) True
        (deeper (pretty_print s \<and> ht \<noteq> []) (dw_append (if \<not> force \<and> array_is_list ht then [0x5B] else [0x7B]) (flagged i s))))
      (\<lambda>s'. Some (True, array_closed e i (\<not> force \<and> array_is_list ht) (pretty_print s \<and> ht \<noteq> []) s'))
      (\<lambda>s'. Some (False, array_left i (pretty_print s \<and> ht \<noteq> []) s'))"
  using assms unfolding dw_emit_array_def guarded_flag flagged_def [symmetric] unflagged_def [symmetric]
  by (simp add: pretty_flagged deeper_def array_closed_def array_left_def Let_def)

subsection \<open>The interface\<close>

definition res_rel :: "(bool \<Rightarrow> fastjson_dw_ctx \<Rightarrow> fastjson_dw_ctx \<Rightarrow> bool) \<Rightarrow> fastjson_dw_ctx \<Rightarrow> dw_res \<Rightarrow> bool" where
  "res_rel Q s r \<longleftrightarrow> (case r of None \<Rightarrow> True | Some (ok, s') \<Rightarrow> Q ok s s')"

lemma res_rel_simps [simp]: "res_rel Q s None" "res_rel Q s (Some (ok, s')) = Q ok s s'"
  by (simp_all add: res_rel_def)

lemma res_rel_pair: "res_rel Q s (Some p) = Q (fst p) s (snd p)"
  by (cases p) simp

lemma res_rel_finally: "(\<And>ok s'. Q ok s s' \<Longrightarrow> Q' ok t (f s')) \<Longrightarrow> res_rel Q s r \<Longrightarrow> res_rel Q' t (dw_finally f r)"
  by (auto simp: res_rel_def dw_finally_def split: option.splits)

locale encoder_relation =
  fixes e :: engine and Q D :: "bool \<Rightarrow> fastjson_dw_ctx \<Rightarrow> fastjson_dw_ctx \<Rightarrow> bool"
  assumes Q_refl: "Q True s s"
    and Q_trans: "Q True s s1 \<Longrightarrow> Q ok s1 s2 \<Longrightarrow> Q ok s s2"
    and Q_buf: "Q True s (s\<lparr>dw_buf := b\<rparr>)"
    and Q_fail: "c \<noteq> FASTJSON_ERROR_NONE \<Longrightarrow> Q False s (dw_set_error c m s)"
    and Q_partial: "partial_output s \<Longrightarrow> c \<noteq> FASTJSON_ERROR_NONE \<Longrightarrow> Q True s (dw_set_error c m s)"
    and Q_inf: "c \<noteq> FASTJSON_ERROR_NONE \<Longrightarrow> \<not> partial_output s \<Longrightarrow> Q False s (dw_set_error c m s\<lparr>hard_error := True, dw_buf := []\<rparr>)"
    and Q_exception: "exception (world s) \<Longrightarrow> Q False s s"
    and Q_release: "Q ok s s1 \<Longrightarrow> Q ok s (dw_release e v s1)"
    and Q_release_props: "Q ok s s1 \<Longrightarrow> Q ok s (dw_release_props e props s1)"
    and Q_serialize: "Q True s (s\<lparr>world := snd (json_serialize e obj (world s))\<rparr>)"
    and Q_properties: "Q True s (s\<lparr>world := snd (get_properties e obj (world s))\<rparr>)"
    and Q_hook: "Q True s (s\<lparr>world := snd (read_hook e obj info (world s))\<rparr>)"
    and Q_flag: "\<not> dw_guarded f s \<Longrightarrow> Q ok (dw_protect f s) s1 \<Longrightarrow> Q ok s (dw_unprotect f s1)"
    and Q_indent: "Q ok (s\<lparr>indent_level := indent_level s + 1\<rparr>) s1 \<Longrightarrow> Q ok s (s1\<lparr>indent_level := indent_level s1 - 1\<rparr>)"
    and Q_depth: "Q ok (s\<lparr>call_depth := call_depth s + 1\<rparr>) s1 \<Longrightarrow> Q ok s (s1\<lparr>call_depth := call_depth s1 - 1\<rparr>)"
    and Q_D: "Q False s s1 \<Longrightarrow> hard_error s1 \<Longrightarrow> D ok s1 s2 \<Longrightarrow> Q False s (if ok then s2 else s2\<lparr>discard_aborted := True\<rparr>)"
    and D_refl: "D True s s"
    and D_trans: "D True s s1 \<Longrightarrow> D ok s1 s2 \<Longrightarrow> D ok s s2"
    and D_fail: "c \<noteq> FASTJSON_ERROR_NONE \<Longrightarrow> D False s (dw_set_error c m s)"
    and D_partial: "c \<noteq> FASTJSON_ERROR_NONE \<Longrightarrow> partial_output s \<Longrightarrow> D True s (dw_append b (dw_set_error c m s))"
    and D_inf: "c \<noteq> FASTJSON_ERROR_NONE \<Longrightarrow> \<not> hard_error s \<Longrightarrow> D True s (dw_set_error c m s)"
    and D_exception: "exception (world s) \<Longrightarrow> D False s s"
    and D_release: "D ok s s1 \<Longrightarrow> D ok s (dw_release e v s1)"
    and D_release_props: "D ok s s1 \<Longrightarrow> D ok s (dw_release_props e props s1)"
    and D_properties: "D True s (s\<lparr>world := snd (get_properties e obj (world s))\<rparr>)"
    and D_flag: "\<not> dw_guarded f s \<Longrightarrow> D ok (dw_protect f s) s1 \<Longrightarrow> D ok s (dw_unprotect f s1)"
    and D_depth: "D ok (s\<lparr>call_depth := call_depth s + 1\<rparr>) s1 \<Longrightarrow> D ok s (s1\<lparr>call_depth := call_depth s1 - 1\<rparr>)"
begin

lemma Q_append: "Q True s (dw_append t s)"
  unfolding dw_append_def by (rule Q_buf)

lemma Q_after: "Q ok s s1 \<Longrightarrow> Q True s0 s \<Longrightarrow> Q ok s0 s1"
  by (rule Q_trans)

lemma res_trans: "Q True s s' \<Longrightarrow> res_rel Q s' r \<Longrightarrow> res_rel Q s r" "D True s s' \<Longrightarrow> res_rel D s' r \<Longrightarrow> res_rel D s r"
  unfolding res_rel_def by (auto split: option.splits intro: Q_trans D_trans)

lemma then_rel:
  assumes "res_rel Q s r" and "\<And>s'. Q True s s' \<Longrightarrow> res_rel Q s' (f s')"
  shows "res_rel Q s (dw_then r f)"
proof (cases r)
  case (Some p)
  with assms show ?thesis
    by (cases p; cases "fst p") (simp_all add: dw_then_def res_trans)
qed (simp add: dw_then_def)

lemma then_drel:
  assumes "res_rel D s r" and "\<And>s'. D True s s' \<Longrightarrow> res_rel D s' (f s')"
  shows "res_rel D s (dw_then r f)"
proof (cases r)
  case (Some p)
  with assms show ?thesis
    by (cases p; cases "fst p") (simp_all add: dw_then_def res_trans)
qed (simp add: dw_then_def)

lemma else_rel:
  assumes "res_rel Q s r" and "\<And>s'. Q True s s' \<Longrightarrow> res_rel Q t (g s')" and "\<And>s'. Q False s s' \<Longrightarrow> res_rel Q t (h s')"
  shows "res_rel Q t (dw_else r g h)"
proof (cases r)
  case (Some p)
  with assms show ?thesis
    by (cases p; cases "fst p") (simp_all add: dw_else_def)
qed (simp add: dw_else_def)

lemma after_failure_rel:
  assumes q: "Q False s s'" and d: "\<And>s. res_rel D s (disc s)"
  shows "res_rel Q s (dw_after_failure disc s')"
proof (cases "hard_error s' \<and> \<not> discard_aborted s'")
  case True
  show ?thesis
  proof (cases "disc s'")
    case (Some p)
    with d [of s'] True Q_D [OF q, of "fst p" "snd p"] show ?thesis
      by (cases p; cases "fst p") (simp_all add: dw_after_failure_def)
  qed (use True in \<open>simp add: dw_after_failure_def\<close>)
qed (use q in \<open>simp add: dw_after_failure_def del: de_Morgan_conj\<close>)

subsection \<open>Leaves\<close>

lemma partial_rel: "c \<noteq> FASTJSON_ERROR_NONE \<Longrightarrow> res_rel Q s (Some (dw_partial_or_fail c m z s))"
  using Q_trans [OF Q_partial Q_append] Q_fail
  by (auto simp: dw_partial_or_fail_def Let_def dw_set_error_def)

lemma partial_drel: "c \<noteq> FASTJSON_ERROR_NONE \<Longrightarrow> res_rel D s (Some (dw_partial_or_fail c m z s))"
  using D_partial D_fail by (auto simp: dw_partial_or_fail_def Let_def dw_set_error_def)

lemma codes: "FASTJSON_ERROR_DEPTH \<noteq> FASTJSON_ERROR_NONE" "FASTJSON_ERROR_RECURSION \<noteq> FASTJSON_ERROR_NONE"
  "FASTJSON_ERROR_UTF8 \<noteq> FASTJSON_ERROR_NONE" "FASTJSON_ERROR_INF_OR_NAN \<noteq> FASTJSON_ERROR_NONE"
  "FASTJSON_ERROR_UNSUPPORTED_TYPE \<noteq> FASTJSON_ERROR_NONE" "FASTJSON_ERROR_NON_BACKED_ENUM \<noteq> FASTJSON_ERROR_NONE"
  by (simp_all add: error_code_defs)

lemma fail_rels:
  "res_rel Q s (Some (dw_depth_fail s))" "res_rel Q s (Some (dw_recursion_fail s))" "res_rel Q s (Some (dw_enum_fail s))"
  "res_rel D s (Some (dw_depth_fail s))" "res_rel D s (Some (dw_recursion_fail s))" "res_rel D s (Some (dw_enum_fail s))"
  "res_rel Q s (Some (dw_fail_too_large s))" "res_rel D s (Some (dw_fail_too_large s))"
  unfolding dw_depth_fail_def dw_recursion_fail_def dw_enum_fail_def
  by (rule partial_rel partial_drel codes)+ (simp_all add: dw_fail_too_large_def Q_fail D_fail codes)

lemma string_rel: "res_rel Q s (Some (dw_emit_string_ex e x k s))"
proof -
  have hex: "res_rel Q s (Some (dw_apply_hex_escapes e p (s\<lparr>dw_buf := b\<rparr>)))" for p b
    using Q_buf [of s] Q_trans [OF Q_buf [of s b] Q_fail [OF codes(5)]]
    by (auto simp: dw_apply_hex_escapes_def dw_fail_too_large_def split: option.splits)
  have bad: "partial_output (dw_utf8_error s) \<Longrightarrow> Q True s (dw_append t (dw_utf8_error s))" "Q False s (dw_utf8_error s)" for t
    using Q_trans [OF Q_partial [OF _ codes(3)] Q_append] Q_fail [OF codes(3)]
    by (simp_all add: dw_utf8_error_def dw_set_error_def)
  show ?thesis
    unfolding dw_emit_string_ex_def Let_def
    by (auto simp: hex bad fail_rels split: prod.split fj_string_size_status.split)
qed

lemma long_rel: "Q True s (dw_emit_long e n s)"
  by (auto simp: dw_emit_long_def Q_append Q_refl split: option.splits)

lemma double_rel: "res_rel Q s (Some (dw_emit_double e d s))"
proof -
  have p: "Q True s (dw_append t (dw_set_error FASTJSON_ERROR_INF_OR_NAN m s))" if "partial_output s" for t m
    by (rule Q_trans [OF Q_partial [OF that codes(4)] Q_append])
  have po: "partial_output (dw_set_error c m s) = partial_output s" for c m by (simp add: dw_set_error_def)
  show ?thesis
    by (simp add: dw_emit_double_def Let_def po p Q_inf Q_fail codes long_rel Q_append split: option.split)
qed

lemma key_rel: "res_rel Q s (Some (dw_emit_object_key e key s))"
proof -
  have fin: "Q True s1 (let s = dw_append [0x3A] s1 in if pretty_print s then dw_append [0x20] s else s)" for s1
    using Q_trans [OF Q_append Q_append] Q_append by (simp add: Let_def)
  have k: "res_rel Q s (Some (case key of
          KStr k \<Rightarrow> dw_emit_string_ex e k True s
        | KInt index \<Rightarrow>
            case dw_reserve e (FASTJSON_NUM_INT_WORST + 2) s of
              (False, s) \<Rightarrow> (False, s)
            | (True, s) \<Rightarrow> (True, dw_append [0x22] (dw_emit_long e (word_of_int index) (dw_append [0x22] s)))))"
    (is "res_rel Q s (Some ?k)")
    using string_rel Q_trans [OF Q_trans [OF Q_append long_rel] Q_append] Q_fail [OF codes(5)]
    by (auto simp: dw_reserve_def dw_fail_too_large_def split: zkey.splits)
  obtain ok s1 where p: "?k = (ok, s1)" by fastforce
  show ?thesis
    using k Q_trans [OF _ fin, of s s1] unfolding dw_emit_object_key_def p by (cases ok) (simp_all add: Let_def)
qed

lemma string_value_rel: "res_rel Q s (Some (dw_emit_string_value e x s))"
  using string_rel [of s x False] double_rel long_rel
  by (auto simp: dw_emit_string_value_def dw_emit_string_def split: numeric_string.splits)

lemma separator_rel: "Q True s (dw_separator e first s)"
  using Q_trans [OF Q_append Q_buf] Q_buf Q_append Q_refl
  by (auto simp: dw_separator_def dw_emit_newline_indent_def Let_def)

lemma discard_string_rel: "res_rel D s (Some (dw_discard_string e x s))"
  unfolding dw_discard_string_def
  by (simp only: fail_rels D_refl D_fail codes dw_utf8_error_def res_rel_simps simp_thms split: if_split)

lemma finally_release: "res_rel Q s r \<Longrightarrow> res_rel Q s (dw_finally (dw_release e v) r)"
    "res_rel D s r \<Longrightarrow> res_rel D s (dw_finally (dw_release e v) r)"
  by (erule res_rel_finally [rotated], erule Q_release D_release)+

lemma finally_release_props: "res_rel Q s r \<Longrightarrow> res_rel Q s (dw_finally (dw_release_props e p) r)"
    "res_rel D s r \<Longrightarrow> res_rel D s (dw_finally (dw_release_props e p) r)"
  by (erule res_rel_finally [rotated], erule Q_release_props D_release_props)+

lemma finally_flag: "\<not> dw_guarded f s \<Longrightarrow> res_rel Q (dw_protect f s) r \<Longrightarrow> res_rel Q s (dw_finally (dw_unprotect f) r)"
    "\<not> dw_guarded f s \<Longrightarrow> res_rel D (dw_protect f s) r \<Longrightarrow> res_rel D s (dw_finally (dw_unprotect f) r)"
  by (erule res_rel_finally [rotated], erule (1) Q_flag D_flag)+

lemma finally_flag_props:
    "\<not> dw_guarded f s \<Longrightarrow> res_rel Q (dw_protect f s) r \<Longrightarrow> res_rel Q s (dw_finally (\<lambda>s. dw_release_props e p (dw_unprotect f s)) r)"
    "\<not> dw_guarded f s \<Longrightarrow> res_rel D (dw_protect f s) r \<Longrightarrow> res_rel D s (dw_finally (\<lambda>s. dw_release_props e p (dw_unprotect f s)) r)"
  by (erule res_rel_finally [rotated], rule Q_release_props D_release_props, erule (1) Q_flag D_flag)+

lemma finally_depth:
    "res_rel Q (s\<lparr>call_depth := call_depth s + 1\<rparr>) r \<Longrightarrow> res_rel Q s (dw_finally (\<lambda>s. s\<lparr>call_depth := call_depth s - 1\<rparr>) r)"
    "res_rel D (s\<lparr>call_depth := call_depth s + 1\<rparr>) r \<Longrightarrow> res_rel D s (dw_finally (\<lambda>s. s\<lparr>call_depth := call_depth s - 1\<rparr>) r)"
  by (erule res_rel_finally [rotated], erule Q_depth D_depth)+

subsection \<open>The discard traversal\<close>

lemma discard_range_rel:
  assumes "\<And>v d s. res_rel D s (disc v d s)"
  shows "res_rel D s (dw_discard_array_range e disc ht d as_list s)"
proof (induction ht arbitrary: s)
  case (Cons kv ht)
  obtain k v where kv: "kv = (k, v)" by fastforce
  have "res_rel D s (Some (if as_list then (True, s)
      else case k of KStr k \<Rightarrow> dw_discard_string e k s | KInt _ \<Rightarrow> (True, s)))" for s
    using discard_string_rel D_refl by (simp split: zkey.split)
  then show ?case
    unfolding kv dw_discard_array_range.simps by (intro then_drel assms Cons.IH)
qed (simp add: D_refl)

lemma discard_array_rel:
  assumes "\<And>v d s. res_rel D s (disc v d s)"
  shows "res_rel D s (dw_discard_array e disc ident ht d force lvl s)"
  unfolding dw_discard_array_def Let_def
  by (auto simp: fail_rels discard_range_rel [OF assms] simp del: res_rel_simps split: option.split
      intro!: finally_flag)

lemma discard_property_rel:
  assumes "\<And>v d s. res_rel D s (disc v d s)"
  shows "res_rel D s (dw_discard_object_property e disc key item d s)"
proof -
  have "res_rel D s (Some (case key of KStr k \<Rightarrow> dw_discard_string e k s | KInt _ \<Rightarrow> (True, s)))"
    using discard_string_rel D_refl by (simp split: zkey.split)
  then show ?thesis
    unfolding dw_discard_object_property_def
    by (auto simp: D_refl split: option.split intro!: then_drel assms)
qed

lemma discard_props_range_rel:
  assumes "\<And>v d s. res_rel D s (disc v d s)"
  shows "res_rel D s (dw_discard_object_props_range e disc props d s)"
proof (induction props arbitrary: s)
  case (Cons ki props)
  then show ?case
    by (cases ki) (simp add: then_drel discard_property_rel [OF assms])
qed (simp add: D_refl)

lemma discard_props_rel:
  assumes "\<And>v d s. res_rel D s (disc v d s)"
  shows "res_rel D s (dw_discard_object_props e disc obj d s)"
proof -
  obtain props w where g: "get_properties e obj (world s) = (props, w)" by fastforce
  let ?s = "s\<lparr>world := w\<rparr>"
  have s: "D True s ?s" using D_properties [of s obj] by (simp add: g)
  have range: "res_rel D s (dw_discard_object_props_range e disc p d s)" for p d s
    by (rule discard_props_range_rel [OF assms])
  have fin: "res_rel D ?s (dw_finally (\<lambda>s. dw_release_props e p (dw_unprotect f s)) (dw_discard_object_props_range e disc (pt_entries p) (d - 1) (dw_protect f ?s)))"
    if "\<not> dw_guarded f ?s" for f p
    by (rule finally_flag_props(2) [OF that range])
  have fin0: "res_rel D ?s (dw_finally (dw_release_props e p) (dw_discard_object_props_range e disc (pt_entries p) (d - 1) ?s))" for p
    by (rule finally_release_props(2) [OF range])
  have rec: "res_rel D ?s (Some (dw_recursion_fail (dw_release_props e p ?s)))" for p
    by (rule res_trans(2) [OF D_release_props [OF D_refl] fail_rels(5)])
  have "res_rel D ?s (Some (\<not> exception w, ?s))"
    using D_exception [of ?s] D_refl by (cases "exception w") simp_all
  then have "res_rel D ?s (case props of None \<Rightarrow> Some (\<not> exception (world ?s), ?s)
     | Some props \<Rightarrow>
         case props_guard e obj props of
           None \<Rightarrow> dw_finally (dw_release_props e props)
             (dw_discard_object_props_range e disc (pt_entries props) (d - 1) ?s)
         | Some f \<Rightarrow>
             if dw_guarded f ?s then Some (dw_recursion_fail (dw_release_props e props ?s))
             else dw_finally (\<lambda>s. dw_release_props e props (dw_unprotect f s))
               (dw_discard_object_props_range e disc (pt_entries props) (d - 1) (dw_protect f ?s)))"
    by (simp add: fin fin0 rec del: res_rel_simps split: option.split)
  with s show ?thesis
    unfolding dw_discard_object_props_def dw_get_properties_def g Let_def prod.case
    by (cases props) (simp_all add: res_trans(2) del: res_rel_simps)
qed

lemma discard_object_rel:
  assumes "\<And>v d s. res_rel D s (disc v d s)"
  shows "res_rel D s (dw_discard_object e disc obj d lvl s)"
  unfolding dw_discard_object_def
  by (simp add: fail_rels discard_props_rel [OF assms] assms D_refl split: option.split)

lemma discard_inner_rel:
  assumes "\<And>v d s. res_rel D s (disc v d s)"
  shows "res_rel D s (dw_discard_zval_inner e disc zv d lvl s)"
proof (cases zv)
  case (PArray ident ht)
  then show ?thesis
    by (simp add: dw_discard_zval_inner_def finally_release discard_array_rel [OF assms])
next
  case (PString x)
  then show ?thesis using discard_string_rel D_refl by (simp add: dw_discard_zval_inner_def split: numeric_string.split)
qed (simp_all add: dw_discard_zval_inner_def D_refl D_inf codes partial_drel discard_object_rel [OF assms] assms)

lemma counted_drel: "(\<And>s. res_rel D s (f s)) \<Longrightarrow> res_rel D s (dw_counted e f s)"
  by (simp add: dw_counted_def fail_rels finally_depth [simplified] del: res_rel_simps)

lemma discard_rel: "res_rel D s (dw_discard_zval e n lvl v d s)"
proof (induction n arbitrary: lvl v d s)
  case (Suc n)
  show ?case unfolding dw_discard_zval.simps by (rule counted_drel) (rule discard_inner_rel [OF Suc.IH])
qed simp


subsection \<open>The encoder\<close>

lemma emit_elements_rel:
  assumes enc: "\<And>v d s. res_rel Q s (enc v d s)" and disc: "\<And>v d s. res_rel D s (disc v d s)"
  shows "res_rel Q s (dw_emit_elements e enc disc as_list ht d first s)"
proof (induction ht arbitrary: s first)
  case (Cons kv ht)
  obtain k v where kv: "kv = (k, v)" by fastforce
  define s1 where "s1 = dw_separator e first s"
  have s1: "Q True s s1" unfolding s1_def by (rule separator_rel)
  have "res_rel Q s1 (Some (if as_list then (True, s1) else dw_emit_object_key e k s1))"
    using key_rel Q_refl by simp
  then have "res_rel Q s1 (dw_then (Some (if as_list then (True, s1) else dw_emit_object_key e k s1)) (enc (zval_deref (world s) v) d))"
    by (rule then_rel) (rule enc)
  then have "res_rel Q s1 (dw_else
      (dw_then (Some (if as_list then (True, s1) else dw_emit_object_key e k s1)) (enc (zval_deref (world s) v) d))
      (dw_emit_elements e enc disc as_list ht d False) (dw_after_failure (dw_discard_array_range e disc ht d as_list)))"
    by (rule else_rel) (erule res_trans(1) [OF _ Cons.IH], erule after_failure_rel, rule discard_range_rel [OF disc])
  then show ?case
    unfolding kv dw_emit_elements.simps Let_def s1_def [symmetric] by (rule res_trans(1) [OF s1])
qed (simp add: Q_refl)

lemma Q_flagged: "array_flag i \<inter> guards (world s) = {} \<Longrightarrow> Q ok (flagged i s) s1 \<Longrightarrow> Q ok s (unflagged i s1)"
  by (cases i) (auto simp: flagged_def unflagged_def array_flag_def dw_guarded_def intro: Q_flag)

lemma Q_deeper: "Q ok (deeper b s) s1 \<Longrightarrow> Q ok s (if b then s1\<lparr>indent_level := indent_level s1 - 1\<rparr> else s1)"
  using Q_indent by (cases b) (simp_all add: deeper_def)

lemma left_commutes: "array_left i b s = unflagged i (if b then s\<lparr>indent_level := indent_level s - 1\<rparr> else s)"
  by (cases i; cases b) (simp_all add: array_left_def unflagged_def dw_unprotect_def Let_def)

lemma emit_array_rel:
  assumes enc: "\<And>v d s. res_rel Q s (enc v d s)" and disc: "\<And>v d s. res_rel D s (disc v d s)"
  shows "res_rel Q s (dw_emit_array e enc disc i ht d force lvl s)"
proof (cases "stack_overflowed e lvl \<or> d \<le> 0 \<or> array_flag i \<inter> guards (world s) \<noteq> {}")
  case True
  then have "dw_emit_array e enc disc i ht d force lvl s = Some (dw_depth_fail s) \<or>
      dw_emit_array e enc disc i ht d force lvl s = Some (dw_recursion_fail s)"
    unfolding dw_emit_array_def guarded_flag by auto
  then show ?thesis using fail_rels by auto
next
  case False
  define al b where "al = (\<not> force \<and> array_is_list ht)" and "b = (pretty_print s \<and> ht \<noteq> [])"
  define s1 where "s1 = dw_append (if al then [0x5B] else [0x7B]) (flagged i s)"
  have s1: "Q True (flagged i s) s1" unfolding s1_def by (rule Q_append)
  have free: "array_flag i \<inter> guards (world s) = {}" using False by simp
  have closed: "Q True s (array_closed e i al b s')" if q: "Q True (deeper b s1) s'" for s'
  proof -
    let ?s = "if b then s'\<lparr>indent_level := indent_level s' - 1\<rparr> else s'"
    have "Q True (flagged i s) ?s" by (rule Q_trans [OF s1 Q_deeper [OF q]])
    then have "Q True (flagged i s) (if b then dw_emit_newline_indent e (indent_level ?s) ?s else ?s)"
      using Q_trans [OF _ Q_buf] by (cases b) (simp_all add: dw_emit_newline_indent_def)
    then show ?thesis
      using Q_flagged [OF free Q_trans [OF _ Q_append]] by (cases b) (simp_all add: array_closed_def Let_def)
  qed
  have left: "Q False s (array_left i b s')" if q: "Q False (deeper b s1) s'" for s'
    unfolding left_commutes by (rule Q_flagged [OF free Q_trans [OF s1 Q_deeper [OF q]]])
  have "dw_emit_array e enc disc i ht d force lvl s = dw_else (dw_emit_elements e enc disc al ht (d - 1) True (deeper b s1))
      (\<lambda>s'. Some (True, array_closed e i al b s')) (\<lambda>s'. Some (False, array_left i b s'))"
    unfolding al_def b_def s1_def using False by (intro emit_array_walk) auto
  then show ?thesis
    using else_rel [OF emit_elements_rel [where enc = enc and disc = disc, OF enc disc], where t = s] closed left by simp
qed

lemma read_property_rel:
  "case dw_read_property e obj item s of (None, s') \<Rightarrow> Q False s s' | (Some _, s') \<Rightarrow> Q True s s'"
proof (cases item)
  case (PropHook info no_get)
  obtain h w where h: "read_hook e obj info (world s) = (h, w)" by fastforce
  let ?s = "s\<lparr>world := w\<rparr>"
  have s: "Q True s ?s" using Q_hook [of s obj info] by (simp add: h)
  have "Q False s ?s" "Q False s (dw_release e v ?s)" if "exception w" for v
    using Q_trans [OF s Q_exception] Q_trans [OF s Q_release [OF Q_exception]] that by simp_all
  then show ?thesis
    using s Q_refl by (cases no_get; cases "exception w"; cases h) (simp_all add: dw_read_property_def PropHook h Let_def)
qed (simp_all add: dw_read_property_def Q_refl)

lemma emit_props_rel:
  assumes enc: "\<And>v d s. res_rel Q s (enc v d s)" and disc: "\<And>v d s. res_rel D s (disc v d s)"
  shows "Q True (deeper body s0) s \<Longrightarrow> res_rel Q s0 (dw_emit_props e enc disc obj props d first body s)"
proof (induction props arbitrary: s s0 first body)
  case Nil
  have "Q True s0 (if body then s\<lparr>indent_level := indent_level s - 1\<rparr> else s)" by (rule Q_deeper [OF Nil])
  then have "Q True s0 (if body then let s = s\<lparr>indent_level := indent_level s - 1\<rparr> in dw_emit_newline_indent e (indent_level s) s else s)"
    using Q_trans [OF _ Q_buf] by (cases body) (simp_all add: dw_emit_newline_indent_def Let_def)
  then show ?case using Q_trans [OF _ Q_append] by (simp add: Let_def)
next
  case (Cons ki props)
  obtain key item where ki: "ki = (key, item)" by fastforce
  show ?case
  proof (cases "mangled key")
    case True
    then show ?thesis using Cons by (simp add: ki)
  next
    case vis: False
    obtain h s1 where rd: "dw_read_property e obj item s = (h, s1)" by fastforce
    consider "h = None" | "h = Some None" | hooked where "h = Some (Some hooked)" by (metis option.exhaust)
    then show ?thesis
    proof cases
      case 1
      then have "Q False s s1" using read_property_rel [where obj = obj and item = item and s = s] rd by simp
      from Q_deeper [OF Q_trans [OF Cons.prems this]] show ?thesis
        using vis 1 rd by (cases body) (simp_all add: ki)
    next
      case 2
      then have "Q True s s1" using read_property_rel [where obj = obj and item = item and s = s] rd by simp
      then show ?thesis
        using vis 2 rd Cons.IH [OF Q_trans [OF Cons.prems]] by (simp add: ki)
    next
      case 3
      then have s1: "Q True s s1" using read_property_rel [where obj = obj and item = item and s = s] rd by simp
      define o' where "o' = (pretty_print s1 \<and> \<not> body)"
      define body' where "body' = (body \<or> pretty_print s1)"
      define s0' where "s0' = (if o' then s1 else s0)"
      define s3 where "s3 = dw_separator e first (if o' then s1\<lparr>indent_level := indent_level s1 + 1\<rparr> else s1)"
      define release where "release = (\<lambda>s. case item of PropHook _ _ \<Rightarrow> dw_release e hooked s | _ \<Rightarrow> s)"
      define v where "v = zval_deref (world s1) hooked"
      have s0': "Q True s0 s0'"
        using Q_trans [OF Cons.prems s1] Q_refl by (cases body) (simp_all add: s0'_def o'_def deeper_def)
      have "Q True (deeper body' s0') (if o' then s1\<lparr>indent_level := indent_level s1 + 1\<rparr> else s1)"
        using Q_trans [OF Cons.prems s1] Q_refl
        by (cases body; cases "pretty_print s1") (simp_all add: s0'_def o'_def body'_def deeper_def)
      then have s3: "Q True (deeper body' s0') s3" unfolding s3_def by (rule Q_trans [OF _ separator_rel])
      have rel: "Q ok s t \<Longrightarrow> Q ok s (release t)" for ok s t
        by (cases item) (simp_all add: release_def Q_release)
      have one: "res_rel Q s3 (dw_then (Some (dw_emit_object_key e key s3)) (enc v d))"
        by (rule then_rel [OF key_rel]) (rule enc)
      have fin: "res_rel Q (deeper body' s0') r \<Longrightarrow>
          res_rel Q s0' (dw_finally (\<lambda>s. if body' then s\<lparr>indent_level := indent_level s - 1\<rparr> else s) r)" for r
        by (erule res_rel_finally [rotated]) (rule Q_deeper)
      have "res_rel Q s0' (dw_else (dw_then (Some (dw_emit_object_key e key s3)) (enc v d))
          (\<lambda>s. dw_emit_props e enc disc obj props d False body' (release s))
          (\<lambda>s. dw_finally (\<lambda>s. if body' then s\<lparr>indent_level := indent_level s - 1\<rparr> else s)
            (dw_after_failure (dw_discard_object_props_range e disc props d) (release s))))"
      proof (rule else_rel [OF one])
        fix s' assume "Q True s3 s'"
        then show "res_rel Q s0' (dw_emit_props e enc disc obj props d False body' (release s'))"
          by (intro Cons.IH Q_trans [OF s3] rel)
      next
        fix s' assume "Q False s3 s'"
        then have "res_rel Q s3 (dw_after_failure (dw_discard_object_props_range e disc props d) (release s'))"
          by (intro after_failure_rel rel discard_props_range_rel disc)
        from res_trans(1) [OF s3 this]
        show "res_rel Q s0' (dw_finally (\<lambda>s. if body' then s\<lparr>indent_level := indent_level s - 1\<rparr> else s)
            (dw_after_failure (dw_discard_object_props_range e disc props d) (release s')))" by (rule fin)
      qed
      from res_trans(1) [OF s0' this] show ?thesis
        using vis by (simp add: ki rd 3 Let_def o'_def [symmetric] body'_def [symmetric] s3_def [symmetric] v_def [symmetric] release_def)
    qed
  qed
qed

lemma emit_object_props_rel:
  assumes enc: "\<And>v d s. res_rel Q s (enc v d s)" and disc: "\<And>v d s. res_rel D s (disc v d s)"
  shows "res_rel Q s (dw_emit_object_props e enc disc obj d s)"
proof -
  obtain props w where g: "get_properties e obj (world s) = (props, w)" by fastforce
  let ?s = "s\<lparr>world := w\<rparr>"
  have s: "Q True s ?s" using Q_properties [of s obj] by (simp add: g)
  have walk: "Q True s0 s1 \<Longrightarrow> res_rel Q s0 (dw_emit_props e enc disc obj ps d True False s1)" for ps d s0 s1
    using emit_props_rel [where body = False, OF enc disc] by (simp add: deeper_def)
  show ?thesis
  proof (cases props)
    case None
    have "res_rel Q ?s (if exception w then Some (False, ?s) else Some (True, dw_append [0x7B, 0x7D] ?s))"
      using Q_exception [of ?s] Q_append by simp
    from res_trans(1) [OF s this] show ?thesis
      by (simp add: dw_emit_object_props_def dw_get_properties_def g None Let_def)
  next
    case (Some p)
    show ?thesis
    proof (cases "props_guard e obj p")
      case None
      have "res_rel Q ?s (dw_finally (dw_release_props e p)
          (dw_emit_props e enc disc obj (pt_entries p) (d - 1) True False (dw_append [0x7B] ?s)))"
        by (intro finally_release_props walk Q_append)
      from res_trans(1) [OF s this] show ?thesis
        by (simp add: dw_emit_object_props_def dw_get_properties_def g Some None Let_def)
    next
      case flag: (Some f)
      have "res_rel Q ?s (Some (dw_recursion_fail (dw_release_props e p ?s)))"
        by (rule res_trans(1) [OF Q_release_props [OF Q_refl] fail_rels(2)])
      moreover have "\<not> dw_guarded f ?s \<Longrightarrow> res_rel Q ?s (dw_finally (\<lambda>s. dw_release_props e p (dw_unprotect f s))
          (dw_emit_props e enc disc obj (pt_entries p) (d - 1) True False (dw_append [0x7B] (dw_protect f ?s))))"
        by (intro finally_flag_props walk Q_append)
      ultimately have "res_rel Q ?s (if dw_guarded f ?s then Some (dw_recursion_fail (dw_release_props e p ?s))
          else dw_finally (\<lambda>s. dw_release_props e p (dw_unprotect f s))
            (dw_emit_props e enc disc obj (pt_entries p) (d - 1) True False (dw_append [0x7B] (dw_protect f ?s))))"
        by (simp del: res_rel_simps)
      from res_trans(1) [OF s this] show ?thesis
        by (simp add: dw_emit_object_props_def dw_get_properties_def g Some flag Let_def)
    qed
  qed
qed

lemma emit_jsonserializable_rel:
  assumes enc: "\<And>v d s. res_rel Q s (enc v d s)" and disc: "\<And>v d s. res_rel D s (disc v d s)"
  shows "res_rel Q s (dw_emit_jsonserializable e enc disc obj d s)"
proof (cases "dw_guarded (GuardJson obj) s")
  case True
  then show ?thesis by (simp add: dw_emit_jsonserializable_def fail_rels)
next
  case free: False
  let ?p = "dw_protect (GuardJson obj) s"
  obtain retval w where c: "json_serialize e obj (world ?p) = (retval, w)" by fastforce
  let ?s = "?p\<lparr>world := w\<rparr>" and ?u = "dw_unprotect (GuardJson obj)"
  have s: "Q True ?p ?s" using Q_serialize [of ?p obj] by (simp add: c)
  have release: "Q ok s t \<Longrightarrow> Q ok s (dw_release e (PObject obj) (dw_release e retval t))" for ok s t
    by (intro Q_release)
  have u: "Q True s (?u ?s)" by (rule Q_flag [OF free s])
  consider (threw) "exception w" | (self) "\<not> exception w" "retval = PObject obj" | (other) "\<not> exception w" "retval \<noteq> PObject obj"
    by blast
  then show ?thesis
  proof cases
    case threw
    have "Q False s (?u ?s)" by (rule Q_flag [OF free Q_trans [OF s Q_exception]]) (simp add: threw)
    then show ?thesis
      using free c threw release by (simp add: dw_emit_jsonserializable_def)
  next
    case self
    have "res_rel Q s (if d \<le> 0 then Some (dw_depth_fail (?u ?s)) else dw_emit_object_props e enc disc obj d (?u ?s))"
      using res_trans(1) [OF u fail_rels(1)] res_trans(1) [OF u emit_object_props_rel [where enc = enc, OF enc disc]]
      by (simp del: res_rel_simps)
    then have "res_rel Q s (dw_finally (\<lambda>s. dw_release e (PObject obj) (dw_release e retval s))
        (if d \<le> 0 then Some (dw_depth_fail (?u ?s)) else dw_emit_object_props e enc disc obj d (?u ?s)))"
      by (rule res_rel_finally [rotated]) (rule release)
    then show ?thesis
      using free c self by (simp add: dw_emit_jsonserializable_def Let_def)
  next
    case other
    have "res_rel Q ?p (enc retval d ?s)" by (rule res_trans(1) [OF s enc])
    then have "res_rel Q s (dw_finally (\<lambda>s. dw_release e (PObject obj) (dw_release e retval (?u s))) (enc retval d ?s))"
      by (rule res_rel_finally [rotated]) (intro release Q_flag [OF free])
    then show ?thesis
      using free c other by (simp add: dw_emit_jsonserializable_def)
  qed
qed

lemma emit_object_rel:
  assumes enc: "\<And>v d s. res_rel Q s (enc v d s)" and disc: "\<And>v d s. res_rel D s (disc v d s)"
  shows "res_rel Q s (dw_emit_object e enc disc obj d lvl s)"
  unfolding dw_emit_object_def
  by (simp add: fail_rels emit_jsonserializable_rel [where enc = enc, OF enc disc] enc
      finally_release emit_object_props_rel [where enc = enc, OF enc disc] split: option.split)

lemma encode_inner_rel:
  assumes enc: "\<And>v d s. res_rel Q s (enc v d s)" and disc: "\<And>v d s. res_rel D s (disc v d s)"
  shows "res_rel Q s (dw_encode_zval_inner e enc disc zv d lvl s)"
proof (cases zv)
  case (PArray ident ht)
  then show ?thesis
    by (simp add: dw_encode_zval_inner_def finally_release emit_array_rel [where enc = enc, OF enc disc])
qed (simp_all add: dw_encode_zval_inner_def Q_append long_rel double_rel string_value_rel partial_rel codes
    emit_object_rel [where enc = enc, OF enc disc] enc)

lemma counted_rel: "(\<And>s. res_rel Q s (f s)) \<Longrightarrow> res_rel Q s (dw_counted e f s)"
  by (simp add: dw_counted_def fail_rels finally_depth [simplified] del: res_rel_simps)

lemma encode_rel: "res_rel Q s (dw_encode_zval e n lvl v d s)"
proof (induction n arbitrary: lvl v d s)
  case (Suc n)
  show ?case unfolding dw_encode_zval.simps by (rule counted_rel) (rule encode_inner_rel [OF Suc.IH discard_rel])
qed simp


end

end
