(* ===== verification/EncodeText.thy ===== *)
theory EncodeText
  imports EncodeRel SpliceCorrect
begin

text \<open>
  What the encoder should print: a printer and the list of the errors in document order, with no buffer, fuel
  or context record in them, on trees in which references are followed and the visible properties of objects
  read; and the relation \<open>resolves\<close> between a PHP value in its request and such a tree.
\<close>

subsection \<open>Room for a string\<close>

lemma chunk_loop_room:
  assumes f: "\<not> has_flg flags YYJSON_WRITE_ALLOW_INVALID_UNICODE"
  shows "pos \<le> length s \<Longrightarrow> length out + 6 * (length s - pos) + 2 \<le> zmax \<Longrightarrow>
    fst (chunk_loop zmax s flags pos out) \<noteq> FJ_STRING_SIZE_TOO_LARGE"
  using f
proof (induction zmax s flags pos out rule: chunk_loop.induct)
  case (1 zmax s flags pos out)
  show ?case
  proof (cases "pos < length s")
    case False
    then show ?thesis by (simp add: chunk_loop.simps [of _ _ _ pos])
  next
    case True
    let ?n = "fastjson_json_chunk_len s pos CHUNK"
    let ?c = "take ?n (drop pos s)"
    have n: "0 < ?n" "pos + ?n \<le> length s" using chunk_len_bounds [OF True] by simp_all
    have big: "\<not> zmax - length out < ?n * 6 + 2" using n "1.prems"(2) by linarith
    show ?thesis
    proof (cases "utf8_wf ?c")
      case False
      then show ?thesis
        using True n big by (simp add: chunk_loop.simps [of _ _ _ pos] Let_def yy_write_body [OF "1.prems"(3)])
    next
      case wf: True
      then have w: "yyjson_write_string_to_buf ?c flags = Some (0x22 # esc_body flags ?c @ [0x22])"
        by (simp add: yy_write_body [OF "1.prems"(3)])
      have "length (esc_body flags ?c) \<le> 6 * ?n"
        using length_esc_body [of flags ?c] by simp
      then have "length (out @ esc_body flags ?c) + 6 * (length s - (pos + ?n)) + 2 \<le> zmax"
        using "1.prems"(2) n(2) by simp
      then have "fst (chunk_loop zmax s flags (pos + ?n) (out @ esc_body flags ?c)) \<noteq> FJ_STRING_SIZE_TOO_LARGE"
        using "1.IH" [OF True refl refl _ big w _ n(2) _ "1.prems"(3)] n(1) by (simp add: butlast_tl_quoted)
      then show ?thesis
        using True n big w by (simp add: chunk_loop.simps [of _ _ _ pos] Let_def)
    qed
  qed
qed

lemma chunked_not_large:
  assumes f: "\<not> has_flg flags YYJSON_WRITE_ALLOW_INVALID_UNICODE" and z: "length buf + 6 * length s + 12290 \<le> zmax"
  shows "fst (fastjson_write_json_string_chunked zmax buf s flags) \<noteq> FJ_STRING_SIZE_TOO_LARGE"
proof -
  have "\<not> zmax - 2 < length buf" "\<not> zmax - length buf - 2 < length s"
      "\<not> zmax - length buf - 2 - length s < CHUNK * 6"
    using z by linarith+
  then have "fastjson_write_json_string_chunked zmax buf s flags =
      (case chunk_loop zmax s flags 0 (buf @ [0x22]) of
         (FJ_STRING_SIZE_OK, out) \<Rightarrow> (FJ_STRING_SIZE_OK, out) | (status, _) \<Rightarrow> (status, buf))"
    by (simp only: fastjson_write_json_string_chunked_def Let_def simp_thms if_False)
  then show ?thesis
    using chunk_loop_room [OF f, of 0 s "buf @ [0x22]" zmax] z
    by (auto split: prod.splits fj_string_size_status.splits)
qed

lemma large_not_large:
  assumes f: "\<not> has_flg flags YYJSON_WRITE_ALLOW_INVALID_UNICODE" and z: "length buf + 6 * length s + 12290 \<le> zmax"
  shows "fst (fastjson_write_large_json_string zmax buf s flags) \<noteq> FJ_STRING_SIZE_TOO_LARGE"
proof -
  have room: "\<not> (zmax - 2 < length buf \<or> zmax - length buf - 2 < length s)" using z by linarith
  note sd = fastjson_write_large_json_string_def Let_def
  show ?thesis
  proof (cases "length s < FASTJSON_EXACT_NONASCII_THRESHOLD")
    case True
    obtain k p where kp: "fastjson_string_is_copyable_ascii s flags = (k, p)" by fastforce
    have tail: "\<not> (zmax - length buf - p - 3) div 6 < length s - p"
      using z copyable_spec(1) [OF kp] by (simp add: div_less_iff_less_mult)
    show ?thesis
      using room True kp tail chunked_not_large [OF f z] by (simp add: sd split: option.splits)
  next
    case False
    have z2: "2 \<le> zmax" using z by simp
    have len: "length (esc_body flags s) \<le> 6 * length s" by (rule length_esc_body)
    show ?thesis
      using json_string_size_spec [OF z2, of s flags] room False z len
      by (auto simp: sd split: sum.splits fj_string_size_status.splits option.splits)
  qed
qed

subsection \<open>The printer\<close>

definition bad_string :: "zend_long \<Rightarrow> bytes \<Rightarrow> bool" where
  "bad_string flags s \<longleftrightarrow> \<not> utf8_wf s \<and> \<not> FASTJSON_HAS_UTF8_HANDLING_FLAG flags"

definition quoted :: "style \<Rightarrow> bytes \<Rightarrow> bytes" where
  "quoted st s =
    (let s = (if utf8_wf s then s else fastjson_sanitize_utf8 s (st_flags st) FJ_SAN_ENCODE)
     in 0x22 # hex_forward (st_flags st) (esc_body (st_yflags st) s) @ [0x22])"

definition long_text :: "engine \<Rightarrow> 64 word \<Rightarrow> bytes" where
  "long_text e n = (case write_number (plat e) (YSint n) of Some t \<Rightarrow> t | None \<Rightarrow> [])"

definition double_text :: "engine \<Rightarrow> style \<Rightarrow> int \<Rightarrow> 64 word \<Rightarrow> bytes" where
  "double_text e st precision d =
    (let preserve = has_flag (st_flags st) FASTJSON_ENCODE_PRESERVE_ZERO_FRACTION in
     if precision \<noteq> -1 then
       (let num = php_gcvt e d precision in
        num @ (if preserve \<and> 0x2E \<notin> set num \<and> length num < ZEND_DOUBLE_MAX_LENGTH - 2 then [0x2E, 0x30] else []))
     else if d = 0x8000000000000000 then (if preserve then ascii ''-0.0'' else ascii ''-0'')
     else if \<not> preserve \<and> f64_abs_below_1e17 d \<and> f64_eq (s64_to_double (runtime e) (double_to_long e d)) d
     then long_text e (double_to_long e d)
     else (case write_number (plat e) (YReal d) of Some t \<Rightarrow> t | None \<Rightarrow> []))"

text \<open>What a string is taken for under \<open>NUMERIC_CHECK\<close>.\<close>

definition numeric_value :: "engine \<Rightarrow> zend_long \<Rightarrow> bytes \<Rightarrow> numeric_string" where
  "numeric_value e flags s =
    (if has_flag flags FASTJSON_ENCODE_NUMERIC_CHECK \<and> may_be_numeric s
     then (case is_numeric_string e s of
         NumDouble d \<Rightarrow> if f64_isfinite d then NumDouble d else NotNumeric
       | r \<Rightarrow> r)
     else NotNumeric)"

definition key_text :: "engine \<Rightarrow> style \<Rightarrow> zkey \<Rightarrow> bytes" where
  "key_text e st k =
    (case k of KStr s \<Rightarrow> quoted st s | KInt i \<Rightarrow> [0x22] @ long_text e (word_of_int i) @ [0x22]) @ colon_text st"

definition prints_list :: "style \<Rightarrow> (zkey \<times> 'v) list \<Rightarrow> bool" where
  "prints_list st ht \<longleftrightarrow> \<not> has_flag (st_flags st) FASTJSON_ENCODE_FORCE_OBJECT \<and> array_is_list ht"

text \<open>What a PHP value is to the encoder: references followed, the visible properties of an object read, an enum case
  replaced by its backing value. A container carries what takes its recursion flag.\<close>

datatype jval =
    JNull
  | JBool bool
  | JLong "64 word"
  | JDouble "64 word"
  | JString bytes
  | JArray "nat option" "(zkey \<times> jval) list"
  | JObject "recursion_flag option" "(zkey \<times> jval) list"
  | JEnum jval
  | JBareEnum
  | JUnsupported

fun jval_text :: "engine \<Rightarrow> style \<Rightarrow> int \<Rightarrow> int \<Rightarrow> jval \<Rightarrow> bytes"
  and elements_text :: "engine \<Rightarrow> style \<Rightarrow> int \<Rightarrow> int \<Rightarrow> bool \<Rightarrow> bool \<Rightarrow> (zkey \<times> jval) list \<Rightarrow> bytes" where
  "jval_text e st precision ind JNull = ascii ''null''"
| "jval_text e st precision ind (JBool b) = (if b then ascii ''true'' else ascii ''false'')"
| "jval_text e st precision ind (JLong n) = long_text e n"
| "jval_text e st precision ind (JDouble d) = double_text e st precision d"
| "jval_text e st precision ind (JString s) =
    (case numeric_value e (st_flags st) s of
       NumLong n \<Rightarrow> long_text e n | NumDouble d \<Rightarrow> double_text e st precision d | NotNumeric \<Rightarrow> quoted st s)"
| "jval_text e st precision ind (JArray i ht) =
    (if prints_list st ht then [0x5B] else [0x7B]) @
    elements_text e st precision (ind + 1) (prints_list st ht) True ht @
    (if ht = [] then [] else nl_text st ind) @ (if prints_list st ht then [0x5D] else [0x7D])"
| "jval_text e st precision ind (JObject g ht) =
    [0x7B] @ elements_text e st precision (ind + 1) False True ht @ (if ht = [] then [] else nl_text st ind) @ [0x7D]"
| "jval_text e st precision ind (JEnum v) = jval_text e st precision ind v"
| "jval_text e st precision ind JBareEnum = []"
| "jval_text e st precision ind JUnsupported = []"
| "elements_text e st precision ind as_list first [] = []"
| "elements_text e st precision ind as_list first ((k, v) # ht) =
    sep_text st ind first @ (if as_list then [] else key_text e st k) @
    jval_text e st precision ind v @ elements_text e st precision ind as_list False ht"

subsection \<open>The errors, in document order\<close>

definition st_depth :: fastjson_error_state where
  "st_depth = fastjson_error_state_set FASTJSON_ERROR_DEPTH (Some ''Maximum stack depth exceeded'')"
definition st_recursion :: fastjson_error_state where
  "st_recursion = fastjson_error_state_set FASTJSON_ERROR_RECURSION (Some ''Recursion detected'')"
definition st_utf8 :: fastjson_error_state where
  "st_utf8 = fastjson_error_state_set FASTJSON_ERROR_UTF8 (Some ''Malformed UTF-8 characters, possibly incorrectly encoded'')"
definition st_inf :: fastjson_error_state where
  "st_inf = fastjson_error_state_set FASTJSON_ERROR_INF_OR_NAN (Some ''Inf and NaN cannot be JSON encoded'')"
definition st_type :: fastjson_error_state where
  "st_type = fastjson_error_state_set FASTJSON_ERROR_UNSUPPORTED_TYPE (Some ''Type is not supported'')"
definition st_enum :: fastjson_error_state where
  "st_enum = fastjson_error_state_set FASTJSON_ERROR_NON_BACKED_ENUM (Some ''Non-backed enums have no default serialization'')"
definition st_too_large :: fastjson_error_state where
  "st_too_large = fastjson_error_state_set FASTJSON_ERROR_UNSUPPORTED_TYPE (Some ''Encoded JSON string is too large'')"

lemmas st_defs = st_depth_def st_recursion_def st_utf8_def st_inf_def st_type_def st_enum_def st_too_large_def

lemma st_inf_distinct [simp]:
  "st_depth \<noteq> st_inf" "st_recursion \<noteq> st_inf" "st_utf8 \<noteq> st_inf" "st_type \<noteq> st_inf" "st_enum \<noteq> st_inf" "st_too_large \<noteq> st_inf"
  by (simp_all add: st_defs fastjson_error_state_set_def error_code_defs)

text \<open>The frames a call still has: all of them count without a native stack limit.\<close>

definition frames_full :: "engine \<Rightarrow> nat \<Rightarrow> bool" where
  "frames_full e lvl \<longleftrightarrow> \<not> native_stack_limit (runtime e) \<and> 1024 \<le> lvl"

definition string_errors :: "zend_long \<Rightarrow> bytes \<Rightarrow> fastjson_error_state list" where
  "string_errors flags s = (if bad_string flags s then [st_utf8] else [])"

definition key_errors :: "zend_long \<Rightarrow> bool \<Rightarrow> zkey \<Rightarrow> fastjson_error_state list" where
  "key_errors flags as_list k = (case k of KStr s \<Rightarrow> if as_list then [] else string_errors flags s | KInt _ \<Rightarrow> [])"

fun jval_errors :: "engine \<Rightarrow> zend_long \<Rightarrow> recursion_flag set \<Rightarrow> int \<Rightarrow> nat \<Rightarrow> jval \<Rightarrow> fastjson_error_state list"
  and elements_errors :: "engine \<Rightarrow> zend_long \<Rightarrow> recursion_flag set \<Rightarrow> int \<Rightarrow> nat \<Rightarrow> bool \<Rightarrow> (zkey \<times> jval) list
    \<Rightarrow> fastjson_error_state list" where
  "jval_errors e flags G d lvl (JDouble x) =
    (if frames_full e lvl then [st_depth] else if f64_isfinite x then [] else [st_inf])"
| "jval_errors e flags G d lvl (JString s) =
    (if frames_full e lvl then [st_depth]
     else case numeric_value e flags s of NotNumeric \<Rightarrow> string_errors flags s | _ \<Rightarrow> [])"
| "jval_errors e flags G d lvl (JArray i ht) =
    (if frames_full e lvl \<or> stack_overflowed e lvl \<or> d \<le> 0 then [st_depth]
     else if array_flag i \<inter> G \<noteq> {} then [st_recursion]
     else elements_errors e flags (array_flag i \<union> G) (d - 1) (lvl + 1)
       (\<not> has_flag flags FASTJSON_ENCODE_FORCE_OBJECT \<and> array_is_list ht) ht)"
| "jval_errors e flags G d lvl (JObject g ht) =
    (if frames_full e lvl \<or> stack_overflowed e lvl \<or> d \<le> 0 then [st_depth]
     else if set_option g \<inter> G \<noteq> {} then [st_recursion]
     else elements_errors e flags (set_option g \<union> G) (d - 1) (lvl + 1) False ht)"
| "jval_errors e flags G d lvl (JEnum v) =
    (if frames_full e lvl \<or> stack_overflowed e lvl then [st_depth] else jval_errors e flags G d (lvl + 1) v)"
| "jval_errors e flags G d lvl JBareEnum = [if frames_full e lvl \<or> stack_overflowed e lvl then st_depth else st_enum]"
| "jval_errors e flags G d lvl JUnsupported = [if frames_full e lvl then st_depth else st_type]"
| "jval_errors e flags G d lvl _ = (if frames_full e lvl then [st_depth] else [])"
| "elements_errors e flags G d lvl as_list [] = []"
| "elements_errors e flags G d lvl as_list ((k, v) # ht) =
    key_errors flags as_list k @ jval_errors e flags G d lvl v @ elements_errors e flags G d lvl as_list ht"

text \<open>An infinity is reported only when nothing else is wrong.\<close>

definition serious :: "fastjson_error_state list \<Rightarrow> fastjson_error_state list" where
  "serious E = filter (\<lambda>x. x \<noteq> st_inf) E"

definition reported_error :: "fastjson_error_state list \<Rightarrow> fastjson_error_state" where
  "reported_error E = (case serious E of x # _ \<Rightarrow> x | [] \<Rightarrow> st_inf)"

text \<open>Room the strings may need beyond the text itself, and the height of a value.\<close>

definition string_slack :: "bytes \<Rightarrow> nat" where "string_slack s = 18 * length s + 12290"

definition key_slack :: "zkey \<Rightarrow> nat" where
  "key_slack k = (case k of KStr s \<Rightarrow> string_slack s | KInt _ \<Rightarrow> 26)"

fun jval_slack :: "jval \<Rightarrow> nat" and elements_slack :: "(zkey \<times> jval) list \<Rightarrow> nat" where
  "jval_slack (JString s) = string_slack s"
| "jval_slack (JArray i ht) = elements_slack ht"
| "jval_slack (JObject g ht) = elements_slack ht"
| "jval_slack (JEnum v) = jval_slack v"
| "jval_slack _ = 0"
| "elements_slack [] = 0"
| "elements_slack ((k, v) # ht) = key_slack k + jval_slack v + elements_slack ht"

fun jval_height :: "jval \<Rightarrow> nat" where
  "jval_height (JArray i ht) = Suc (foldr max (map (\<lambda>kv. jval_height (snd kv)) ht) 0)"
| "jval_height (JObject g ht) = Suc (foldr max (map (\<lambda>kv. jval_height (snd kv)) ht) 0)"
| "jval_height (JEnum v) = Suc (jval_height v)"
| "jval_height _ = 1"

subsection \<open>Resolving a value\<close>

text \<open>The reference cells and the property slots, which a quiet encoding leaves alone, and the recursion flags that are
  held where a value is met.\<close>

record cells =
  cell_refs :: "nat \<Rightarrow> pval"
  cell_slots :: "nat \<Rightarrow> pval option"
  cell_held :: "recursion_flag set"

definition cells_of :: "php_world \<Rightarrow> cells" where
  "cells_of w = \<lparr>cell_refs = ref_cells w, cell_slots = prop_slots w, cell_held = guards w\<rparr>"

definition hold :: "recursion_flag set \<Rightarrow> cells \<Rightarrow> cells" where
  "hold F H = H\<lparr>cell_held := F \<union> cell_held H\<rparr>"

definition deref_in :: "cells \<Rightarrow> pval \<Rightarrow> pval" where
  "deref_in H v = (case v of PReference r \<Rightarrow> cell_refs H r | _ \<Rightarrow> v)"

lemma hold_simps [simp]:
  "cell_refs (hold F H) = cell_refs H" "cell_slots (hold F H) = cell_slots H" "cell_held (hold F H) = F \<union> cell_held H"
  "deref_in (hold F H) v = deref_in H v"
  by (simp_all add: hold_def deref_in_def split: pval.split)

text \<open>The properties the encoder prints, in their order, with their values.\<close>

fun visible_props :: "cells \<Rightarrow> (zkey \<times> prop_slot) list \<Rightarrow> (zkey \<times> pval) list" where
  "visible_props H [] = []"
| "visible_props H ((key, item) # props) =
    (if mangled key then visible_props H props
     else case item of
         PropValue v \<Rightarrow> (key, v) # visible_props H props
       | PropIndirect n \<Rightarrow> (case cell_slots H n of None \<Rightarrow> visible_props H props | Some v \<Rightarrow> (key, v) # visible_props H props)
       | PropHook _ _ \<Rightarrow> visible_props H props)"

lemma visible_hold [simp]: "visible_props (hold F H) props = visible_props H props"
  by (induction H props rule: visible_props.induct) (auto split: prop_slot.split option.split)

text \<open>A property whose value is read by user code.\<close>

definition read_by_hook :: "zkey \<times> prop_slot \<Rightarrow> bool" where
  "read_by_hook p \<longleftrightarrow> \<not> mangled (fst p) \<and> (case snd p of PropHook _ no_get \<Rightarrow> \<not> no_get | _ \<Rightarrow> False)"

text \<open>An object without serializer, enum and read hooks, whose properties are there without user code and which
  can be released without any.\<close>

definition quiet_object :: "engine \<Rightarrow> nat \<Rightarrow> props_table \<Rightarrow> bool" where
  "quiet_object e obj t \<longleftrightarrow> \<not> json_serializable (class_of e obj) \<and> enum_case (class_of e obj) = None \<and>
    \<not> list_ex read_by_hook (pt_entries t) \<and>
    (\<forall>w. get_properties e obj w = (Some t, w) \<and> zend_release_properties e t w = w \<and> zval_ptr_dtor e (PObject obj) w = w)"

text \<open>A container whose flag is held already is not looked into.\<close>

inductive resolves :: "engine \<Rightarrow> cells \<Rightarrow> pval \<Rightarrow> jval \<Rightarrow> bool"
  and resolves_items :: "engine \<Rightarrow> cells \<Rightarrow> (zkey \<times> pval) list \<Rightarrow> (zkey \<times> jval) list \<Rightarrow> bool"
  for e where
  null: "resolves e H PNull JNull"
| bool: "resolves e H (PBool b) (JBool b)"
| long: "resolves e H (PLong n) (JLong n)"
| double: "resolves e H (PDouble d) (JDouble d)"
| string: "resolves e H (PString s) (JString s)"
| array: "resolves_items e (hold (array_flag i) H) ht js \<Longrightarrow> resolves e H (PArray i ht) (JArray i js)"
| cyclic_array: "array_flag i \<inter> cell_held H \<noteq> {} \<Longrightarrow> resolves e H (PArray i ht) (JArray i [])"
| object: "quiet_object e obj t \<Longrightarrow>
    resolves_items e (hold (set_option (props_guard e obj t)) H) (visible_props H (pt_entries t)) js \<Longrightarrow>
    resolves e H (PObject obj) (JObject (props_guard e obj t) js)"
| cyclic_object: "quiet_object e obj t \<Longrightarrow> set_option (props_guard e obj t) \<inter> cell_held H \<noteq> {} \<Longrightarrow>
    resolves e H (PObject obj) (JObject (props_guard e obj t) [])"
| enum: "\<not> json_serializable (class_of e obj) \<Longrightarrow> enum_case (class_of e obj) = Some (Some v) \<Longrightarrow> resolves e H v j \<Longrightarrow>
    resolves e H (PObject obj) (JEnum j)"
| bare_enum: "\<not> json_serializable (class_of e obj) \<Longrightarrow> enum_case (class_of e obj) = Some None \<Longrightarrow>
    resolves e H (PObject obj) JBareEnum"
| unsupported: "resolves e H PUnsupported JUnsupported"
| no_items: "resolves_items e H [] []"
| item: "resolves e H (deref_in H v) j \<Longrightarrow> resolves_items e H ht js \<Longrightarrow> resolves_items e H ((k, v) # ht) ((k, j) # js)"

inductive_simps resolves_scalar [simp]:
  "resolves e H PNull j" "resolves e H (PBool b) j" "resolves e H (PLong n) j" "resolves e H (PDouble d) j"
  "resolves e H (PString s) j" "resolves e H PUnsupported j"
inductive_simps resolves_array [simp]: "resolves e H (PArray i ht) j"
inductive_simps resolves_items_simps [simp]: "resolves_items e H [] js" "resolves_items e H ((k, v) # ht) js"

text \<open>A value without objects and references is a tree already.\<close>

fun plain_pval :: "pval \<Rightarrow> bool" where
  "plain_pval (PArray i ht) \<longleftrightarrow> list_all (\<lambda>kv. plain_pval (snd kv)) ht"
| "plain_pval (PObject _) \<longleftrightarrow> False"
| "plain_pval (PReference _) \<longleftrightarrow> False"
| "plain_pval _ \<longleftrightarrow> True"

fun jval_of :: "pval \<Rightarrow> jval" where
  "jval_of (PBool b) = JBool b"
| "jval_of (PLong n) = JLong n"
| "jval_of (PDouble d) = JDouble d"
| "jval_of (PString s) = JString s"
| "jval_of (PArray i ht) = JArray i (map (\<lambda>kv. (fst kv, jval_of (snd kv))) ht)"
| "jval_of PUnsupported = JUnsupported"
| "jval_of _ = JNull"

lemma deref_plain: "plain_pval v \<Longrightarrow> deref_in H v = v"
  by (cases v) (simp_all add: deref_in_def)

lemma resolves_itemsI:
  "list_all (\<lambda>kv. resolves e H (deref_in H (snd kv)) (f (snd kv))) ht \<Longrightarrow>
    resolves_items e H ht (map (\<lambda>kv. (fst kv, f (snd kv))) ht)"
  by (induction ht) (auto intro: no_items item)

lemma plain_resolves: "plain_pval v \<Longrightarrow> resolves e H v (jval_of v)"
proof (induction v arbitrary: H)
  case (PArray i ht)
  have "resolves e (hold (array_flag i) H) (deref_in H v) (jval_of v)" if "(k, v) \<in> set ht" for k v
    using PArray.IH [OF that, of v] PArray.prems that by (auto simp: list_all_iff deref_plain)
  then show ?case by (auto simp: list_all_iff intro!: resolves_resolves_items.intros resolves_itemsI)
qed (auto intro: resolves_resolves_items.intros)

end
