(* ===== verification/EncodeCorrect.thy ===== *)
theory EncodeCorrect
  imports EncodeText
begin

text \<open>
  The encoder against its specification: what a call appends, which error it leaves, and what it keeps of the
  context. The loops get the correctness of the recursive calls as a hypothesis on their items; the proof for all values is by
  rule induction on \<open>resolves\<close>.
\<close>

subsection \<open>Outcomes\<close>

definition dw_style :: "fastjson_dw_ctx \<Rightarrow> style" where
  "dw_style s = \<lparr>st_flags = dw_flags s, st_yflags = dw_yflags s, st_pretty = pretty_print s\<rparr>"

text \<open>What a call leaves as it was.\<close>

definition frame where
  "frame (s :: fastjson_dw_ctx) = (dw_flags s, dw_yflags s, partial_output s, pretty_print s, call_depth s, indent_level s,
     ref_cells (world s), prop_slots (world s), guards (world s), serialize_precision (world s), exception (world s))"

definition in_cells :: "cells \<Rightarrow> php_world \<Rightarrow> bool" where
  "in_cells H w \<longleftrightarrow> cell_refs H = ref_cells w \<and> cell_slots H = prop_slots w \<and> cell_held H \<subseteq> guards w"

lemma in_cells_of: "in_cells (cells_of w) w"
  by (simp add: in_cells_def cells_of_def)

definition context_ok :: "engine \<Rightarrow> cells \<Rightarrow> nat \<Rightarrow> fastjson_dw_ctx \<Rightarrow> bool" where
  "context_ok e H lvl s \<longleftrightarrow> \<not> partial_output s \<and> in_cells H (world s) \<and> dw_yflags s = fastjson_translate_write_flags (dw_flags s) False \<and>
    (\<not> native_stack_limit (runtime e) \<longrightarrow> call_depth s = lvl)"

text \<open>The release of an array copy runs no user code, the number writer has a text for every integer and
  every finite double, and the engine prints an integer as the number writer does.\<close>

definition engine_ok :: "engine \<Rightarrow> bool" where
  "engine_ok e \<longleftrightarrow> 5 \<le> zstr_max (plat e) \<and> (\<forall>i ht w. zval_ptr_dtor e (PArray i ht) w = w) \<and>
    (\<forall>n. write_number (plat e) (YSint n) \<noteq> None) \<and> (\<forall>n. zend_long_to_str e n = long_text e n) \<and> (\<forall>d. f64_isfinite d \<longrightarrow> write_number (plat e) (YReal d) \<noteq> None)"

definition too_large where
  "too_large (s :: fastjson_dw_ctx) \<longleftrightarrow> dw_error s = st_too_large \<and> (hard_error s \<longrightarrow> discard_aborted s)"

definition reported where
  "reported E (s :: fastjson_dw_ctx) \<longleftrightarrow> E \<noteq> [] \<and> dw_error s = reported_error E \<and> (serious E = [] \<longrightarrow> hard_error s \<and> \<not> discard_aborted s) \<and>
    (serious E \<noteq> [] \<and> hard_error s \<longrightarrow> discard_aborted s)"

definition emitted :: "engine \<Rightarrow> fastjson_dw_ctx \<Rightarrow> fastjson_error_state list \<Rightarrow> bytes \<Rightarrow> nat \<Rightarrow> dw_res \<Rightarrow> bool" where
  "emitted e s E t slack r \<longleftrightarrow> (case r of None \<Rightarrow> False | Some (ok, s') \<Rightarrow> frame s' = frame s \<and>
    (if ok then E = [] \<and> s' = dw_append t s
     else too_large s' \<and> zstr_max (plat e) < length (dw_buf s) + length t + slack \<or> reported E s'))"

definition discarded :: "engine \<Rightarrow> fastjson_dw_ctx \<Rightarrow> fastjson_error_state list \<Rightarrow> nat \<Rightarrow> dw_res \<Rightarrow> bool" where
  "discarded e s E slack r \<longleftrightarrow> (case r of None \<Rightarrow> False | Some (ok, s') \<Rightarrow> frame s' = frame s \<and>
    hard_error s' = hard_error s \<and> discard_aborted s' = discard_aborted s \<and> dw_buf s' = dw_buf s \<and>
    (if ok then serious E = [] \<and> dw_error s' = dw_error s
     else dw_error s' = st_too_large \<and> zstr_max (plat e) < slack \<or> serious E \<noteq> [] \<and> dw_error s' = reported_error E))"

definition fresh :: "fastjson_dw_ctx \<Rightarrow> bool" where
  "fresh s \<longleftrightarrow> \<not> hard_error s \<and> \<not> discard_aborted s"

lemma frame_simps [simp]:
  "frame (dw_append t s) = frame s" "frame (dw_set_error c m s) = frame s" "frame (s\<lparr>dw_buf := b\<rparr>) = frame s"
  "frame (s\<lparr>hard_error := h\<rparr>) = frame s" "frame (s\<lparr>discard_aborted := a\<rparr>) = frame s" "frame (dw_emit_long e n s) = frame s"
  by (simp_all add: frame_def dw_append_def dw_set_error_def dw_emit_long_def split: option.splits)

lemma append_simps [simp]:
  "dw_append u (dw_append t s) = dw_append (t @ u) s" "dw_append [] s = s"
  "dw_style (dw_append t s) = dw_style s" "dw_flags (dw_append t s) = dw_flags s" "dw_yflags (dw_append t s) = dw_yflags s"
  "pretty_print (dw_append t s) = pretty_print s" "partial_output (dw_append t s) = partial_output s"
  "indent_level (dw_append t s) = indent_level s" "world (dw_append t s) = world s" "dw_buf (dw_append t s) = dw_buf s @ t"
  "hard_error (dw_append t s) = hard_error s" "discard_aborted (dw_append t s) = discard_aborted s"
  "call_depth (dw_append t s) = call_depth s" "dw_error (dw_append t s) = dw_error s"
  "fresh (dw_append t s) = fresh s" "context_ok e H lvl (dw_append t s) = context_ok e H lvl s"
  "dw_guarded f (dw_append t s) = dw_guarded f s"
  by (simp_all add: dw_append_def dw_style_def fresh_def context_ok_def dw_guarded_def)

lemma set_error_simps [simp]:
  "dw_error (dw_set_error c m s) = fastjson_error_state_set c (Some m)" "hard_error (dw_set_error c m s) = hard_error s"
  "discard_aborted (dw_set_error c m s) = discard_aborted s" "partial_output (dw_set_error c m s) = partial_output s"
  "dw_buf (dw_set_error c m s) = dw_buf s"
  by (simp_all add: dw_set_error_def)

lemma serious_simps [simp]:
  "serious [] = []" "serious (a @ b) = serious a @ serious b" "serious [st_inf] = []" "x \<noteq> st_inf \<Longrightarrow> serious [x] = [x]"
  by (simp_all add: serious_def)

lemma reported_single [simp]: "reported_error [x] = x"
  by (cases "x = st_inf") (simp_all add: reported_error_def)

lemma style_simps [simp]:
  "st_flags (dw_style s) = dw_flags s" "st_yflags (dw_style s) = dw_yflags s" "st_pretty (dw_style s) = pretty_print s"
  by (simp_all add: dw_style_def)

lemma fail_too_large:
  "dw_fail_too_large s = (False, dw_set_error FASTJSON_ERROR_UNSUPPORTED_TYPE ''Encoded JSON string is too large'' s)"
  by (simp add: dw_fail_too_large_def)

lemma emitted_too_large:
  "fresh s \<Longrightarrow> zstr_max (plat e) < length (dw_buf s) + length t + slack \<Longrightarrow> emitted e s E t slack (Some (dw_fail_too_large s))"
  by (simp add: emitted_def fail_too_large too_large_def fresh_def st_too_large_def)

lemma emitted_ok: "emitted e s [] t slack (Some (True, dw_append t s))"
  by (simp add: emitted_def)

lemma emitted_mono: "emitted e s E t k r \<Longrightarrow> k \<le> k' \<Longrightarrow> emitted e s E t k' r"
  by (auto simp: emitted_def split: option.splits if_splits)

lemma emitted_partial:
  "\<not> partial_output s \<Longrightarrow> fresh s \<Longrightarrow> fastjson_error_state_set c (Some m) \<noteq> st_inf \<Longrightarrow>
   emitted e s [fastjson_error_state_set c (Some m)] t slack (Some (dw_partial_or_fail c m z s))"
  by (simp add: emitted_def dw_partial_or_fail_def reported_def fresh_def)

lemma emitted_depth: "\<not> partial_output s \<Longrightarrow> fresh s \<Longrightarrow> emitted e s [st_depth] t slack (Some (dw_depth_fail s))"
  unfolding dw_depth_fail_def st_depth_def by (rule emitted_partial) (simp_all add: st_depth_def [symmetric])

lemma emitted_recursion: "\<not> partial_output s \<Longrightarrow> fresh s \<Longrightarrow> emitted e s [st_recursion] t slack (Some (dw_recursion_fail s))"
  unfolding dw_recursion_fail_def st_recursion_def by (rule emitted_partial) (simp_all add: st_recursion_def [symmetric])

subsection \<open>Leaves\<close>

lemma translated: "context_ok e H lvl s \<Longrightarrow> \<not> has_flg (dw_yflags s) YYJSON_WRITE_ALLOW_INVALID_UNICODE"
  by (simp add: context_ok_def)

lemma try_string:
  assumes f: "\<not> has_flg (dw_yflags c) YYJSON_WRITE_ALLOW_INVALID_UNICODE"
  shows "case dw_try_string e s c of
      (FJ_STRING_SIZE_OK, b) \<Rightarrow> utf8_wf s \<and> b = dw_buf c @ 0x22 # esc_body (dw_yflags c) s @ [0x22]
    | (FJ_STRING_SIZE_INVALID_UTF8, b) \<Rightarrow> \<not> utf8_wf s
    | (FJ_STRING_SIZE_TOO_LARGE, b) \<Rightarrow> zstr_max (plat e) < length (dw_buf c) + 6 * length s + 12290"
proof (cases "fastjson_string_wants_sized_writer (buf_cap (plat e) (dw_buf c)) (dw_buf c) (length s)")
  case True
  then show ?thesis
    using large.written [OF f, of "dw_buf c" s "zstr_max (plat e)"] large_not_large [OF f, of "dw_buf c" s "zstr_max (plat e)"]
    by (auto simp: dw_try_string_def string_written_def not_le [symmetric] split: prod.splits fj_string_size_status.splits)
next
  case False
  then show ?thesis
    by (auto simp: dw_try_string_def dw_reserve_string_def dw_reserve_def fail_too_large yy_write_body [OF f])
qed

lemma hex_written:
  assumes f: "utf8_wf s" and z: "5 \<le> zstr_max (plat e)" and fr: "fresh c" and t: "t = 0x22 # hex_forward (dw_flags c) (esc_body y s) @ [0x22]"
  shows "emitted e c [] t slack (Some (dw_apply_hex_escapes e (length (dw_buf c)) (c\<lparr>dw_buf := dw_buf c @ 0x22 # esc_body y s @ [0x22]\<rparr>)))"
proof (cases "dw_flags c AND FASTJSON_ENCODE_HEX_MASK = 0")
  case True
  then show ?thesis
    by (simp add: dw_apply_hex_escapes_def t hex_mask_0 emitted_def frame_def dw_append_def)
next
  case False
  then show ?thesis
    using apply_body [OF z, of "dw_buf c" y s "dw_flags c"] fr
    by (simp add: dw_apply_hex_escapes_def t emitted_def fail_too_large too_large_def fresh_def st_too_large_def dw_append_def)
qed

lemma sanitized: "utf8_wf (fastjson_sanitize_utf8 s flags m) \<and> length (fastjson_sanitize_utf8 s flags m) \<le> 3 * length s"
proof -
  obtain sb ea where f: "fastjson_sanitize_utf8 s flags m = sanitize_loop sb ea s"
    by (auto simp: fastjson_sanitize_utf8_def Let_def)
  then show ?thesis
    using sanitize_loop_length [of sb ea s] by (auto simp: sanitize_loop_wf split: if_splits)
qed

lemma emit_string:
  assumes e: "engine_ok e" and c: "context_ok e H lvl c" and fr: "fresh c"
  shows "emitted e c (string_errors (dw_flags c) s) (quoted (dw_style c) s) (string_slack s) (Some (dw_emit_string_ex e s k c))"
proof -
  have f: "\<not> has_flg (dw_yflags c) YYJSON_WRITE_ALLOW_INVALID_UNICODE" by (rule translated [OF c])
  have z: "5 \<le> zstr_max (plat e)" and np: "\<not> partial_output c" using e c by (simp_all add: engine_ok_def context_ok_def)
  have utf8: "emitted e c [st_utf8] (quoted (dw_style c) s) (string_slack s) (Some (False, dw_utf8_error c))"
    using fr by (simp add: emitted_def dw_utf8_error_def reported_def fresh_def st_utf8_def [symmetric])
  have npu: "\<not> partial_output (dw_utf8_error c)" using np by (simp add: dw_utf8_error_def)
  define q where "q = fastjson_sanitize_utf8 s (dw_flags c) FJ_SAN_ENCODE"
  have q: "utf8_wf q" "length q \<le> 3 * length s" using sanitized by (simp_all add: q_def)
  note attempt = try_string [OF f, where e = e]
  note ex = dw_emit_string_ex_def Let_def
  obtain st b where r: "dw_try_string e s c = (st, b)" by fastforce
  show ?thesis
  proof (cases st)
    case FJ_STRING_SIZE_OK
    then have "utf8_wf s" "b = dw_buf c @ 0x22 # esc_body (dw_yflags c) s @ [0x22]" using attempt [where s = s] r by simp_all
    then show ?thesis
      using r FJ_STRING_SIZE_OK hex_written [OF _ z fr, of s _ "dw_yflags c"]
      by (simp add: ex string_errors_def bad_string_def quoted_def)
  next
    case FJ_STRING_SIZE_TOO_LARGE
    then show ?thesis
      using r attempt [where s = s] by (simp add: ex) (intro emitted_too_large [OF fr]; simp add: string_slack_def)
  next
    case FJ_STRING_SIZE_INVALID_UTF8
    then have bad: "\<not> utf8_wf s" using r attempt [where s = s] by simp
    show ?thesis
    proof (cases "FASTJSON_HAS_UTF8_HANDLING_FLAG (dw_flags c)")
      case False
      then show ?thesis
        using r FJ_STRING_SIZE_INVALID_UTF8 utf8 npu bad by (simp add: ex string_errors_def bad_string_def)
    next
      case True
      obtain st' b' where r': "dw_try_string e q c = (st', b')" by fastforce
      show ?thesis
      proof (cases st')
        case ok: FJ_STRING_SIZE_OK
        then have "b' = dw_buf c @ 0x22 # esc_body (dw_yflags c) q @ [0x22]" using attempt [where s = q] r' by simp
        then show ?thesis
          using r r' ok FJ_STRING_SIZE_INVALID_UTF8 True bad hex_written [OF q(1) z fr, of _ "dw_yflags c"]
          by (simp add: ex string_errors_def bad_string_def quoted_def q_def)
      next
        case FJ_STRING_SIZE_TOO_LARGE
        then have "zstr_max (plat e) < length (dw_buf c) + 18 * length s + 12290" using attempt [where s = q] r' q(2) by simp
        then show ?thesis
          using r r' FJ_STRING_SIZE_TOO_LARGE \<open>st = FJ_STRING_SIZE_INVALID_UTF8\<close> True
          by (simp add: ex q_def [symmetric]) (intro emitted_too_large [OF fr]; simp add: string_slack_def)
      next
        case FJ_STRING_SIZE_INVALID_UTF8
        then show ?thesis using attempt [where s = q] r' q(1) by simp
      qed
    qed
  qed
qed

lemma emit_long: "engine_ok e \<Longrightarrow> dw_emit_long e n s = dw_append (long_text e n) s"
  by (simp add: dw_emit_long_def long_text_def split: option.splits)

lemma emit_double:
  assumes e: "engine_ok e" and c: "context_ok e H lvl c" and fr: "fresh c" and b: "f64_isfinite d \<Longrightarrow> E = []" "\<not> f64_isfinite d \<Longrightarrow> E = [st_inf]"
  shows "emitted e c E (double_text e (dw_style c) (serialize_precision (world c)) d) k (Some (dw_emit_double e d c))"
proof (cases "f64_isfinite d")
  case False
  then show ?thesis
    using b c fr by (simp add: dw_emit_double_def emitted_def reported_def context_ok_def fresh_def st_inf_def [symmetric])
next
  case True
  obtain t where "write_number (plat e) (YReal d) = Some t" using e True by (auto simp: engine_ok_def)
  moreover have "E = []" using b True by simp
  ultimately show ?thesis
    using True emitted_ok by (simp add: dw_emit_double_def double_text_def Let_def emit_long [OF e])
qed

lemma emit_string_value:
  assumes e: "engine_ok e" and c: "context_ok e H lvl c" and fr: "fresh c"
  shows "emitted e c (case numeric_value e (dw_flags c) s of NotNumeric \<Rightarrow> string_errors (dw_flags c) s | _ \<Rightarrow> [])
    (case numeric_value e (dw_flags c) s of
       NumLong n \<Rightarrow> long_text e n | NumDouble d \<Rightarrow> double_text e (dw_style c) (serialize_precision (world c)) d
     | NotNumeric \<Rightarrow> quoted (dw_style c) s)
    (string_slack s) (Some (dw_emit_string_value e s c))"
  using emit_string [OF e c fr, of s False] emit_double [OF e c fr]
  by (auto simp: dw_emit_string_value_def numeric_value_def dw_emit_string_def emit_long [OF e] emitted_ok
      split: numeric_string.splits)

lemma emit_key:
  assumes e: "engine_ok e" and c: "context_ok e H lvl c" and fr: "fresh c"
  shows "emitted e c (key_errors (dw_flags c) False key) (key_text e (dw_style c) key) (key_slack key) (Some (dw_emit_object_key e key c))"
proof (cases key)
  case (KStr s)
  then show ?thesis
    using emit_string [OF e c fr, of s True]
    by (auto simp: dw_emit_object_key_def key_errors_def key_text_def key_slack_def colon_text_def emitted_def too_large_def
        Let_def split: prod.splits if_splits)
next
  case (KInt i)
  then show ?thesis
    using emitted_too_large [OF fr, of e "key_text e (dw_style c) key" 26] emitted_ok
    by (auto simp: dw_emit_object_key_def key_errors_def key_text_def key_slack_def colon_text_def dw_reserve_def emit_long [OF e]
        FASTJSON_NUM_INT_WORST_def Let_def fail_too_large)
qed

lemma separator: "dw_separator e first s = dw_append (sep_text (dw_style s) (indent_level s) first) s"
  by (simp add: dw_separator_def sep_text_def nl_text_def dw_emit_newline_indent_def newline_text dw_append_def)

subsection \<open>Sequences\<close>

lemma frame_eq:
  assumes "frame s' = frame s"
  shows "dw_flags s' = dw_flags s" "dw_yflags s' = dw_yflags s" "partial_output s' = partial_output s"
    "pretty_print s' = pretty_print s" "call_depth s' = call_depth s" "indent_level s' = indent_level s"
    "guards (world s') = guards (world s)" "serialize_precision (world s') = serialize_precision (world s)"
    "exception (world s') = exception (world s)" "ref_cells (world s') = ref_cells (world s)"
    "prop_slots (world s') = prop_slots (world s)" "context_ok e H lvl s' = context_ok e H lvl s"
  using assms by (simp_all add: frame_def context_ok_def in_cells_def)

lemma reported_error_append: "reported_error (E @ E') = (if serious E = [] then reported_error E' else reported_error E)"
  by (cases "serious E") (simp_all add: reported_error_def)

lemma no_inf_serious: "st_inf \<notin> set E \<Longrightarrow> serious E = E"
  unfolding serious_def by (rule filter_True) auto

lemma emitted_then:
  assumes "emitted e s E t k r" and "st_inf \<notin> set E"
    and "E = [] \<Longrightarrow> emitted e (dw_append t s) E' t' k' (f (dw_append t s))"
  shows "emitted e s (E @ E') (t @ t') (k + k') (dw_then r f)"
proof (cases r)
  case None
  then show ?thesis using assms(1) by (simp add: emitted_def)
next
  case (Some q)
  obtain ok s' where q: "q = (ok, s')" by fastforce
  show ?thesis
  proof (cases ok)
    case True
    with assms Some q show ?thesis
      by (auto simp: emitted_def dw_then_def split: option.splits if_splits)
  next
    case False
    with assms(1,2) Some q show ?thesis
      by (auto simp: emitted_def dw_then_def reported_def reported_error_append no_inf_serious)
  qed
qed

lemma after_failure_fails: "dw_after_failure f s = Some (ok, s') \<Longrightarrow> \<not> ok"
  by (auto simp: dw_after_failure_def split: option.splits if_splits)

text \<open>An item, then the rest, which ends in the frame of \<open>b\<close>; behind a failure \<open>close\<close> leads there.\<close>

lemma emitted_closing:
  assumes one: "emitted e s E t k r" and b: "dw_buf b = dw_buf s"
    and cont: "E = [] \<Longrightarrow> emitted e (dw_append t b) E' t' k' (cont (dw_append t s))"
    and disc: "\<And>s'. frame s' = frame s \<Longrightarrow> hard_error s' \<Longrightarrow> discarded e s' E' k' (disc s')"
    and close: "\<And>s'. frame s' = frame s \<Longrightarrow> frame (close s') = frame b" "\<And>s'. too_large (close s') = too_large s'"
      "\<And>E s'. reported E (close s') = reported E s'"
  shows "emitted e b (E @ E') (t @ t') (k + k') (dw_else r cont (\<lambda>s. dw_finally close (dw_after_failure disc s)))"
proof (cases r)
  case None
  then show ?thesis using one by (simp add: emitted_def)
next
  case (Some q)
  obtain ok s' where q: "q = (ok, s')" by fastforce
  show ?thesis
  proof (cases ok)
    case True
    with one cont Some q b show ?thesis
      by (auto simp: emitted_def dw_else_def split: option.splits if_splits)
  next
    case False
    have s': "frame s' = frame s"
      "too_large s' \<and> zstr_max (plat e) < length (dw_buf s) + length t + k \<or> reported E s'"
      using one Some q False by (simp_all add: emitted_def)
    have "emitted e s (E @ E') (t @ t') (k + k') (dw_after_failure disc s')"
    proof (cases "hard_error s' \<and> \<not> discard_aborted s'")
      case True
      then have E: "E \<noteq> []" "serious E = []" "dw_error s' = st_inf"
        using s'(2) by (auto simp: reported_def too_large_def reported_error_def)
      show ?thesis
        using disc [of s'] s'(1) True E
        by (auto simp: discarded_def emitted_def dw_after_failure_def reported_def too_large_def
            reported_error_append reported_error_def split: option.splits if_splits)
    next
      case stop: False
      then show ?thesis
        using s' by (auto simp: emitted_def dw_after_failure_def reported_def reported_error_append too_large_def)
    qed
    moreover obtain s'' where "dw_after_failure disc s' = Some (False, s'')"
      using calculation after_failure_fails [of disc s'] by (cases "dw_after_failure disc s'") (auto simp: emitted_def)
    ultimately show ?thesis
      using Some q False b close by (simp add: emitted_def dw_else_def dw_finally_def)
  qed
qed

lemma finally_id: "dw_finally (\<lambda>s. s) r = r" "dw_finally id r = r"
  by (cases r; simp add: dw_finally_def id_def map_prod_def split: prod.splits)+

lemma emitted_else:
  assumes "emitted e s E t k r"
    and "E = [] \<Longrightarrow> emitted e (dw_append t s) E' t' k' (cont (dw_append t s))"
    and "\<And>s'. frame s' = frame s \<Longrightarrow> hard_error s' \<Longrightarrow> discarded e s' E' k' (disc s')"
  shows "emitted e s (E @ E') (t @ t') (k + k') (dw_else r cont (dw_after_failure disc))"
  using emitted_closing [of e s E t k r s E' t' k' cont disc "\<lambda>s. s"] assms by (simp add: finally_id)

lemma emitted_prefix: "emitted e (dw_append u s) E t k r \<Longrightarrow> emitted e s E (u @ t) k r"
  by (auto simp: emitted_def split: option.splits if_splits)

lemma discarded_then:
  assumes "discarded e s E k r"
    and "\<And>s'. frame s' = frame s \<Longrightarrow> hard_error s' = hard_error s \<Longrightarrow> discarded e s' E' k' (f s')"
  shows "discarded e s (E @ E') (k + k') (dw_then r f)"
proof (cases r)
  case None
  then show ?thesis using assms(1) by (simp add: discarded_def)
next
  case (Some q)
  obtain ok s' where q: "q = (ok, s')" by fastforce
  show ?thesis
    using assms(1) assms(2) [of s'] Some q
    by (cases ok) (auto simp: discarded_def dw_then_def reported_error_append split: option.splits if_splits)
qed

lemma key_no_inf: "st_inf \<notin> set (key_errors flags as_list k)"
  by (simp add: key_errors_def string_errors_def st_inf_distinct [symmetric] split: zkey.splits)

subsection \<open>Elements\<close>

definition enc_correct :: "engine \<Rightarrow> cells \<Rightarrow> nat \<Rightarrow> int \<Rightarrow> pval \<Rightarrow> jval \<Rightarrow> dw_call \<Rightarrow> bool" where
  "enc_correct e H lvl d v j enc \<longleftrightarrow> (\<forall>s. context_ok e H lvl s \<and> fresh s \<longrightarrow>
    emitted e s (jval_errors e (dw_flags s) (guards (world s)) d lvl j)
      (jval_text e (dw_style s) (serialize_precision (world s)) (indent_level s) j) (jval_slack j) (enc v d s))"

definition disc_correct :: "engine \<Rightarrow> cells \<Rightarrow> nat \<Rightarrow> int \<Rightarrow> pval \<Rightarrow> jval \<Rightarrow> dw_call \<Rightarrow> bool" where
  "disc_correct e H lvl d v j disc \<longleftrightarrow> (\<forall>s. context_ok e H lvl s \<and> hard_error s \<longrightarrow>
    discarded e s (jval_errors e (dw_flags s) (guards (world s)) d lvl j) (jval_slack j) (disc v d s))"

text \<open>The recursive calls are right for every item of a container.\<close>

definition item_ok :: "engine \<Rightarrow> cells \<Rightarrow> nat \<Rightarrow> int \<Rightarrow> dw_call \<Rightarrow> dw_call \<Rightarrow> zkey \<times> pval \<Rightarrow> zkey \<times> jval \<Rightarrow> bool" where
  "item_ok e H lvl d enc disc kv kj \<longleftrightarrow> fst kv = fst kj \<and>
    enc_correct e H lvl d (deref_in H (snd kv)) (snd kj) enc \<and> disc_correct e H lvl d (deref_in H (snd kv)) (snd kj) disc"

abbreviation items_ok :: "engine \<Rightarrow> cells \<Rightarrow> nat \<Rightarrow> int \<Rightarrow> dw_call \<Rightarrow> dw_call \<Rightarrow> (zkey \<times> pval) list \<Rightarrow> (zkey \<times> jval) list \<Rightarrow> bool" where
  "items_ok e H lvl d enc disc \<equiv> list_all2 (item_ok e H lvl d enc disc)"

lemma items_list: "items_ok e H lvl d enc disc ht js \<Longrightarrow> array_is_list ht = array_is_list js \<and> (ht = [] \<longleftrightarrow> js = [])"
proof -
  assume a: "items_ok e H lvl d enc disc ht js"
  then have "map fst ht = map fst js" by (induction rule: list_all2_induct) (simp_all add: item_ok_def)
  moreover have "length ht = length js" using a by (rule list_all2_lengthD)
  ultimately show ?thesis by (auto simp: array_is_list_def)
qed

lemma context_cells: "context_ok e H lvl s \<Longrightarrow> zval_deref (world s) v = deref_in H v"
  by (simp add: context_ok_def in_cells_def zval_deref_def deref_in_def split: pval.split)

lemma discard_string:
  "context_ok e H lvl s \<Longrightarrow> discarded e s (string_errors (dw_flags s) x) (string_slack x) (Some (dw_discard_string e x s))"
  by (auto simp: dw_discard_string_def discarded_def string_errors_def bad_string_def dw_utf8_error_def fail_too_large
      st_too_large_def st_utf8_def [symmetric] string_slack_def well_formed_wf div_less_iff_less_mult)

lemma discard_range:
  assumes "items_ok e H lvl d enc disc ht js" and "context_ok e H lvl s" and "hard_error s"
  shows "discarded e s (elements_errors e (dw_flags s) (guards (world s)) d lvl as_list js) (elements_slack js)
    (dw_discard_array_range e disc ht d as_list s)"
  using assms
proof (induction ht js arbitrary: s rule: list_all2_induct)
  case Nil
  then show ?case by (simp add: discarded_def)
next
  case (Cons kv ht kj js)
  obtain k v j where kv: "kv = (k, v)" "kj = (k, j)" using Cons.hyps(1) by (cases kv; cases kj) (auto simp: item_ok_def)
  have v: "disc_correct e H lvl d (deref_in H v) j disc" using Cons.hyps(1) by (simp add: item_ok_def kv)
  let ?key = "if as_list then (True, s) else case k of KStr k \<Rightarrow> dw_discard_string e k s | KInt _ \<Rightarrow> (True, s)"
  have key: "discarded e s (key_errors (dw_flags s) as_list k) (key_slack k) (Some ?key)"
    using discard_string [OF Cons.prems(1)]
    by (cases k; cases as_list) (simp_all add: key_errors_def key_slack_def, simp_all add: discarded_def)
  have "discarded e s (key_errors (dw_flags s) as_list k @ jval_errors e (dw_flags s) (guards (world s)) d lvl j @
      elements_errors e (dw_flags s) (guards (world s)) d lvl as_list js)
    (key_slack k + (jval_slack j + elements_slack js)) (dw_discard_array_range e disc ((k, v) # ht) d as_list s)"
    unfolding dw_discard_array_range.simps
  proof (rule discarded_then [OF key])
    fix s1 assume s1: "frame s1 = frame s" "hard_error s1 = hard_error s"
    have c1: "context_ok e H lvl s1" using Cons.prems(1) s1 by (simp add: frame_eq [OF s1(1)])
    show "discarded e s1 (jval_errors e (dw_flags s) (guards (world s)) d lvl j @
        elements_errors e (dw_flags s) (guards (world s)) d lvl as_list js) (jval_slack j + elements_slack js)
      (dw_then (disc (zval_deref (world s1) v) d s1) (\<lambda>s. dw_discard_array_range e disc ht d as_list s))"
    proof (rule discarded_then)
      show "discarded e s1 (jval_errors e (dw_flags s) (guards (world s)) d lvl j) (jval_slack j) (disc (zval_deref (world s1) v) d s1)"
        using v Cons.prems s1 c1 by (auto simp: disc_correct_def context_cells [OF c1] frame_eq [OF s1(1)] dest: spec [of _ s1])
    next
      fix s2 assume s2: "frame s2 = frame s1" "hard_error s2 = hard_error s1"
      show "discarded e s2 (elements_errors e (dw_flags s) (guards (world s)) d lvl as_list js) (elements_slack js)
          (dw_discard_array_range e disc ht d as_list s2)"
        using Cons.IH [where s = s2] Cons.prems s1 s2 by (simp add: frame_eq [OF s1(1)] frame_eq [OF s2(1)])
    qed
  qed
  then show ?case by (simp add: kv ac_simps)
qed

lemma emit_elements:
  assumes e: "engine_ok e" and "items_ok e H lvl d enc disc ht js" and "context_ok e H lvl s" and "fresh s"
  shows "emitted e s (elements_errors e (dw_flags s) (guards (world s)) d lvl as_list js)
    (elements_text e (dw_style s) (serialize_precision (world s)) (indent_level s) as_list first js) (elements_slack js)
    (dw_emit_elements e enc disc as_list ht d first s)"
  using assms(2-)
proof (induction ht js arbitrary: s first rule: list_all2_induct)
  case Nil
  then show ?case using emitted_ok [of e s "[]"] by simp
next
  case (Cons kv ht kj js)
  obtain k v j where kv: "kv = (k, v)" "kj = (k, j)" using Cons.hyps(1) by (cases kv; cases kj) (auto simp: item_ok_def)
  have v: "enc_correct e H lvl d (deref_in H v) j enc" using Cons.hyps(1) by (simp add: item_ok_def kv)
  define s1 where "s1 = dw_append (sep_text (dw_style s) (indent_level s) first) s"
  have s1: "context_ok e H lvl s1" "fresh s1" using Cons.prems by (simp_all add: s1_def)
  define kt where "kt = (if as_list then [] else key_text e (dw_style s) k)"
  have key: "emitted e s1 (key_errors (dw_flags s) as_list k) kt (key_slack k)
      (Some (if as_list then (True, s1) else dw_emit_object_key e k s1))"
    using emit_key [OF e s1, of k] emitted_ok [of e s1 "[]"]
    by (simp add: kt_def s1_def key_errors_def split: zkey.splits)
  let ?E = "jval_errors e (dw_flags s) (guards (world s)) d lvl j"
  let ?t = "jval_text e (dw_style s) (serialize_precision (world s)) (indent_level s) j"
  have one: "emitted e s1 (key_errors (dw_flags s) as_list k @ ?E) (kt @ ?t) (key_slack k + jval_slack j)
      (dw_then (Some (if as_list then (True, s1) else dw_emit_object_key e k s1)) (enc (deref_in H v) d))"
  proof (rule emitted_then [OF key key_no_inf])
    show "emitted e (dw_append kt s1) ?E ?t (jval_slack j) (enc (deref_in H v) d (dw_append kt s1))"
      using v s1 by (auto simp: enc_correct_def s1_def dest: spec [of _ "dw_append kt s1"])
  qed
  have "emitted e s1 ((key_errors (dw_flags s) as_list k @ ?E) @ elements_errors e (dw_flags s) (guards (world s)) d lvl as_list js)
    ((kt @ ?t) @ elements_text e (dw_style s) (serialize_precision (world s)) (indent_level s) as_list False js)
    ((key_slack k + jval_slack j) + elements_slack js)
    (dw_else (dw_then (Some (if as_list then (True, s1) else dw_emit_object_key e k s1)) (enc (deref_in H v) d))
      (dw_emit_elements e enc disc as_list ht d False) (dw_after_failure (dw_discard_array_range e disc ht d as_list)))"
  proof (rule emitted_else [OF one])
    show "emitted e (dw_append (kt @ ?t) s1) (elements_errors e (dw_flags s) (guards (world s)) d lvl as_list js)
      (elements_text e (dw_style s) (serialize_precision (world s)) (indent_level s) as_list False js) (elements_slack js)
      (dw_emit_elements e enc disc as_list ht d False (dw_append (kt @ ?t) s1))"
      using Cons.IH [where s = "dw_append (kt @ ?t) s1" and first = False] s1 by (simp add: s1_def)
  next
    fix s' assume s': "frame s' = frame s1" "hard_error s'"
    show "discarded e s' (elements_errors e (dw_flags s) (guards (world s)) d lvl as_list js) (elements_slack js)
        (dw_discard_array_range e disc ht d as_list s')"
      using discard_range [OF Cons.hyps(2), where s = s' and as_list = as_list] s1 s'
      by (simp add: frame_eq [OF s'(1)] s1_def)
  qed
  then show ?case
    by (auto simp: kv Let_def separator s1_def kt_def context_cells [OF Cons.prems(1)] emitted_def ac_simps
        split: option.splits if_splits)
qed

subsection \<open>Arrays\<close>

lemma flagged_simps [simp]:
  "dw_flags (flagged i s) = dw_flags s" "dw_yflags (flagged i s) = dw_yflags s" "pretty_print (flagged i s) = pretty_print s"
  "partial_output (flagged i s) = partial_output s" "dw_buf (flagged i s) = dw_buf s" "indent_level (flagged i s) = indent_level s"
  "fresh (flagged i s) = fresh s" "dw_style (flagged i s) = dw_style s"
  "serialize_precision (world (flagged i s)) = serialize_precision (world s)"
  "guards (world (flagged i s)) = array_flag i \<union> guards (world s)" "hard_error (flagged i s) = hard_error s"
  "discard_aborted (flagged i s) = discard_aborted s" "dw_error (flagged i s) = dw_error s"
  by (cases i; simp add: flagged_def dw_protect_def fresh_def context_ok_def dw_style_def array_flag_def)+

lemma flagged_context: "context_ok e H lvl s \<Longrightarrow> context_ok e (hold (array_flag i) H) lvl (flagged i s)"
  by (cases i; auto simp: flagged_def dw_protect_def context_ok_def in_cells_def array_flag_def)

lemma deeper_simps [simp]:
  "dw_flags (deeper b s) = dw_flags s" "dw_yflags (deeper b s) = dw_yflags s" "pretty_print (deeper b s) = pretty_print s"
  "dw_buf (deeper b s) = dw_buf s" "fresh (deeper b s) = fresh s" "context_ok e H lvl (deeper b s) = context_ok e H lvl s"
  "dw_style (deeper b s) = dw_style s" "world (deeper b s) = world s"
  "indent_level (deeper b s) = (if b then indent_level s + 1 else indent_level s)"
  by (cases b; simp add: deeper_def fresh_def context_ok_def dw_style_def)+

lemma unflagged_simps [simp]:
  "dw_error (unflagged i s) = dw_error s" "hard_error (unflagged i s) = hard_error s" "dw_buf (unflagged i s) = dw_buf s"
  "discard_aborted (unflagged i s) = discard_aborted s" "too_large (unflagged i s) = too_large s" "reported E (unflagged i s) = reported E s"
  by (cases i; simp add: unflagged_def dw_unprotect_def too_large_def reported_def)+

lemma unflagged_frame:
  "array_flag i \<inter> guards (world s) = {} \<Longrightarrow> frame s' = frame (flagged i s) \<Longrightarrow> frame (unflagged i s') = frame s"
  by (cases i) (auto simp: frame_def flagged_def unflagged_def dw_protect_def dw_unprotect_def array_flag_def)

lemma unflagged_flagged:
  "array_flag i \<inter> guards (world s) = {} \<Longrightarrow> unflagged i (dw_append t (flagged i s)) = dw_append t s"
  by (cases i; cases s) (auto simp: flagged_def unflagged_def dw_protect_def dw_unprotect_def array_flag_def dw_append_def)

lemma array_left_simps [simp]: "too_large (array_left i b s) = too_large s" "reported E (array_left i b s) = reported E s"
  by (simp_all add: array_left_def Let_def too_large_def reported_def)

lemma array_left_frame:
  "array_flag i \<inter> guards (world s) = {} \<Longrightarrow> frame s' = frame (deeper b (dw_append t (flagged i s))) \<Longrightarrow>
   frame (array_left i b s') = frame s"
  by (cases i; cases b)
    (auto simp: frame_def array_left_def deeper_def flagged_def unflagged_def dw_protect_def dw_unprotect_def array_flag_def
      dw_append_def Let_def)

lemma array_closed_text:
  "array_flag i \<inter> guards (world s) = {} \<Longrightarrow>
   array_closed e i al b (dw_append t (deeper b (dw_append l (flagged i s)))) =
     dw_append (l @ t @ (if b then 0x0A # replicate (nat (indent_level s) * 4) 0x20 else []) @ (if al then [0x5D] else [0x7D])) s"
  by (cases i; cases b; cases s)
    (auto simp: array_closed_def deeper_def flagged_def unflagged_def dw_protect_def dw_unprotect_def array_flag_def
      dw_append_def Let_def dw_emit_newline_indent_def newline_text)

lemma text_flat_elements:
  "\<not> st_pretty st \<Longrightarrow> jval_text e st p ind v = jval_text e st p ind' v"
  "\<not> st_pretty st \<Longrightarrow> elements_text e st p ind al first ht = elements_text e st p ind' al first ht"
  by (induction e st p ind v and e st p ind al first ht arbitrary: ind' and ind' rule: jval_text_elements_text.induct)
    (simp_all add: sep_text_def nl_text_def, metis+)

lemma held_disjoint: "context_ok e H lvl s \<Longrightarrow> F \<inter> guards (world s) = {} \<Longrightarrow> F \<inter> cell_held H = {}"
  by (auto simp: context_ok_def in_cells_def)

lemma emit_array:
  assumes e: "engine_ok e"
    and el: "array_flag i \<inter> cell_held H = {} \<Longrightarrow> items_ok e (hold (array_flag i) H) (lvl + 1) (d - 1) enc disc ht js"
    and c: "context_ok e H (lvl + 1) s" and fr: "fresh s" and nf: "\<not> frames_full e lvl"
  shows "emitted e s (jval_errors e (dw_flags s) (guards (world s)) d lvl (JArray i js))
    (jval_text e (dw_style s) (serialize_precision (world s)) (indent_level s) (JArray i js)) (elements_slack js)
    (dw_emit_array e enc disc i ht d (has_flag (dw_flags s) FASTJSON_ENCODE_FORCE_OBJECT) lvl s)"
    (is "emitted e s _ _ _ ?r")
proof -
  have np: "\<not> partial_output s" using c by (simp add: context_ok_def)
  consider (deep) "stack_overflowed e lvl \<or> d \<le> 0"
    | (rec) "\<not> stack_overflowed e lvl" "0 < d" "array_flag i \<inter> guards (world s) \<noteq> {}"
    | (walk) "\<not> stack_overflowed e lvl" "0 < d" "array_flag i \<inter> guards (world s) = {}"
    by linarith
  then show ?thesis
  proof cases
    case deep
    then have "dw_emit_array e enc disc i ht d (has_flag (dw_flags s) FASTJSON_ENCODE_FORCE_OBJECT) lvl s = Some (dw_depth_fail s)"
      by (elim disjE) (simp_all add: dw_emit_array_def)
    with deep show ?thesis using emitted_depth [OF np fr] by (simp del: jval_text.simps)
  next
    case rec
    then have "dw_emit_array e enc disc i ht d (has_flag (dw_flags s) FASTJSON_ENCODE_FORCE_OBJECT) lvl s = Some (dw_recursion_fail s)"
      by (simp add: dw_emit_array_def guarded_flag)
    with rec show ?thesis using emitted_recursion [OF np fr] nf by (simp del: jval_text.simps)
  next
    case walk
    note el = el [OF held_disjoint [OF c walk(3)]]
    define al where "al = (\<not> has_flag (dw_flags s) FASTJSON_ENCODE_FORCE_OBJECT \<and> array_is_list ht)"
    define b where "b = (pretty_print s \<and> ht \<noteq> [])"
    define s2 where "s2 = deeper b (dw_append (if al then [0x5B] else [0x7B]) (flagged i s))"
    have al_eq: "(\<not> has_flag (dw_flags s) FASTJSON_ENCODE_FORCE_OBJECT \<and> array_is_list ht) = al" by (simp add: al_def)
    let ?E = "elements_errors e (dw_flags s) (array_flag i \<union> guards (world s)) (d - 1) (lvl + 1) al js"
    let ?ind = "if b then indent_level s + 1 else indent_level s"
    define t where "t = elements_text e (dw_style s) (serialize_precision (world s)) ?ind al True js"
    have em: "emitted e s2 ?E t (elements_slack js) (dw_emit_elements e enc disc al ht (d - 1) True s2)"
    proof -
      have "context_ok e (hold (array_flag i) H) (lvl + 1) s2" "fresh s2" using flagged_context [OF c] fr by (simp_all add: s2_def)
      from emit_elements [OF e el this, of al True]
      have "emitted e s2 (elements_errors e (dw_flags s2) (guards (world s2)) (d - 1) (lvl + 1) al js)
        (elements_text e (dw_style s2) (serialize_precision (world s2)) (indent_level s2) al True js)
        (elements_slack js) (dw_emit_elements e enc disc al ht (d - 1) True s2)" .
      then show ?thesis by (simp only: s2_def t_def deeper_simps append_simps flagged_simps)
    qed
    obtain ok s' where r: "dw_emit_elements e enc disc al ht (d - 1) True s2 = Some (ok, s')"
      using em by (auto simp: emitted_def split: option.splits)
    have t': "t = elements_text e (dw_style s) (serialize_precision (world s)) (indent_level s + 1) al True js"
      using text_flat_elements [of "dw_style s"] using items_list [OF el] by (cases "js = []") (auto simp: t_def b_def)
    have "dw_emit_array e enc disc i ht d (has_flag (dw_flags s) FASTJSON_ENCODE_FORCE_OBJECT) lvl s =
      dw_else (dw_emit_elements e enc disc al ht (d - 1) True s2)
        (\<lambda>s. Some (True, array_closed e i al b s)) (\<lambda>s. Some (False, array_left i b s))"
      unfolding s2_def b_def al_def using walk by (rule emit_array_walk)
    then have arr: "dw_emit_array e enc disc i ht d (has_flag (dw_flags s) FASTJSON_ENCODE_FORCE_OBJECT) lvl s =
      Some (ok, if ok then array_closed e i al b s' else array_left i b s')"
      by (simp only: r dw_else_def) simp
    let ?l = "if al then [0x5B] else [0x7B] :: bytes" and ?r = "if al then [0x5D] else [0x7D] :: bytes"
    have tx: "jval_text e (dw_style s) (serialize_precision (world s)) (indent_level s) (JArray i js) =
        ?l @ t @ (if b then 0x0A # replicate (nat (indent_level s) * 4) 0x20 else []) @ ?r"
      using al_eq items_list [OF el] by (simp add: t' b_def nl_text_def prints_list_def)
    have err: "jval_errors e (dw_flags s) (guards (world s)) d lvl (JArray i js) = ?E"
      using walk nf al_eq items_list [OF el] by simp
    show ?thesis
    proof (cases ok)
      case True
      then have "?E = []" "s' = dw_append t s2" using em r by (simp_all add: emitted_def)
      then show ?thesis
        unfolding arr tx err using True array_closed_text [OF walk(3), of e al b t ?l]
        by (simp add: s2_def emitted_ok)
    next
      case False
      then have "frame s' = frame s2" "too_large s' \<and> zstr_max (plat e) < length (dw_buf s2) + length t + elements_slack js \<or> reported ?E s'"
        using em r by (simp_all add: emitted_def)
      then show ?thesis
        unfolding arr tx err using False array_left_frame [OF walk(3), of s' b ?l]
        by (auto simp: emitted_def s2_def)
    qed
  qed
qed

lemma discarded_partial:
  "\<not> partial_output s \<Longrightarrow> fastjson_error_state_set c (Some m) \<noteq> st_inf \<Longrightarrow>
   discarded e s [fastjson_error_state_set c (Some m)] slack (Some (dw_partial_or_fail c m z s))"
  by (simp add: discarded_def dw_partial_or_fail_def)

lemma discarded_depth: "\<not> partial_output s \<Longrightarrow> discarded e s [st_depth] slack (Some (dw_depth_fail s))"
  unfolding dw_depth_fail_def st_depth_def by (rule discarded_partial) (simp_all add: st_depth_def [symmetric])

lemma discarded_recursion: "\<not> partial_output s \<Longrightarrow> discarded e s [st_recursion] slack (Some (dw_recursion_fail s))"
  unfolding dw_recursion_fail_def st_recursion_def by (rule discarded_partial) (simp_all add: st_recursion_def [symmetric])

lemma unflagged_discarded:
  assumes g: "array_flag i \<inter> guards (world s) = {}" and r: "discarded e (flagged i s) E k r"
  shows "discarded e s E k (dw_finally (unflagged i) r)"
proof (cases r)
  case None
  then show ?thesis using r by (simp add: discarded_def)
next
  case (Some q)
  obtain ok s' where q: "q = (ok, s')" by fastforce
  show ?thesis
    using r unflagged_frame [OF g, of s'] Some q by (auto simp: discarded_def dw_finally_def)
qed

lemma discard_array:
  assumes el: "array_flag i \<inter> cell_held H = {} \<Longrightarrow> items_ok e (hold (array_flag i) H) (lvl + 1) (d - 1) enc disc ht js"
    and c: "context_ok e H (lvl + 1) s" and h: "hard_error s" and nf: "\<not> frames_full e lvl"
  shows "discarded e s (jval_errors e (dw_flags s) (guards (world s)) d lvl (JArray i js)) (elements_slack js)
    (dw_discard_array e disc i ht d (has_flag (dw_flags s) FASTJSON_ENCODE_FORCE_OBJECT) lvl s)"
proof -
  have np: "\<not> partial_output s" using c by (simp add: context_ok_def)
  have flag: "dw_discard_array e disc i ht d force lvl s =
    (if stack_overflowed e lvl \<or> d \<le> 0 then Some (dw_depth_fail s)
     else if array_flag i \<inter> guards (world s) \<noteq> {} then Some (dw_recursion_fail s)
     else dw_finally (unflagged i) (dw_discard_array_range e disc ht (d - 1) (\<not> force \<and> array_is_list ht) (flagged i s)))" for force
  proof (cases i)
    case None
    have "unflagged None = id" by (rule ext) (simp add: unflagged_def)
    then show ?thesis
      by (simp add: None dw_discard_array_def flagged_def array_flag_def Let_def finally_id)
  next
    case (Some a)
    have "unflagged (Some a) = dw_unprotect (GuardArray a)" by (rule ext) (simp add: unflagged_def)
    then show ?thesis
      by (simp add: Some dw_discard_array_def flagged_def array_flag_def Let_def dw_guarded_def)
  qed
  show ?thesis
  proof (cases "stack_overflowed e lvl \<or> d \<le> 0 \<or> array_flag i \<inter> guards (world s) \<noteq> {}")
    case True
    then show ?thesis
      using discarded_depth [OF np] discarded_recursion [OF np] nf by (auto simp: flag)
  next
    case False
    then have dj: "array_flag i \<inter> guards (world s) = {}" by blast
    note el = el [OF held_disjoint [OF c dj]]
    have s2: "context_ok e (hold (array_flag i) H) (lvl + 1) (flagged i s)" "hard_error (flagged i s)"
      using flagged_context [OF c] h by simp_all
    from discard_range [OF el s2] False nf items_list [OF el] show ?thesis
      by (auto simp: flag intro!: unflagged_discarded)
  qed
qed

subsection \<open>Objects\<close>

lemma deeper_indent_simps [simp]:
  "dw_flags (s\<lparr>indent_level := i\<rparr>) = dw_flags s" "dw_style (s\<lparr>indent_level := i\<rparr>) = dw_style s"
  "fresh (s\<lparr>indent_level := i\<rparr>) = fresh s" "context_ok e H lvl (s\<lparr>indent_level := i\<rparr>) = context_ok e H lvl s"
  "too_large (s\<lparr>indent_level := i\<rparr>) = too_large s" "reported E (s\<lparr>indent_level := i\<rparr>) = reported E s"
  "dw_append t (s\<lparr>indent_level := i\<rparr>) = (dw_append t s)\<lparr>indent_level := i\<rparr>"
  by (simp_all add: dw_style_def fresh_def context_ok_def too_large_def reported_def dw_append_def)

lemma items_cons:
  "items_ok e H lvl d enc disc ((k, v) # ht) js \<longleftrightarrow> (\<exists>j js'. js = (k, j) # js' \<and> enc_correct e H lvl d (deref_in H v) j enc \<and>
    disc_correct e H lvl d (deref_in H v) j disc \<and> items_ok e H lvl d enc disc ht js')"
  by (auto simp: list_all2_Cons1) (auto simp: item_ok_def)

text \<open>What is left of the properties behind an infinity.\<close>

lemma discard_props:
  assumes "items_ok e H lvl d enc disc (visible_props H props) js" and "context_ok e H lvl s" and "hard_error s"
  shows "discarded e s (elements_errors e (dw_flags s) (guards (world s)) d lvl False js) (elements_slack js)
    (dw_discard_object_props_range e disc props d s)"
  using assms
proof (induction props arbitrary: s js)
  case Nil
  then show ?case by (simp add: discarded_def)
next
  case (Cons p props)
  obtain k item where p: "p = (k, item)" by fastforce
  have slots: "prop_slots (world s) = cell_slots H" using Cons.prems(2) by (auto simp: context_ok_def in_cells_def)
  show ?case
  proof (cases "mangled k \<or> slot_value (world s) item = None")
    case True
    then have "visible_props H (p # props) = visible_props H props" "dw_discard_object_property e disc k item d s = Some (True, s)"
      by (auto simp: p slot_value_def slots dw_discard_object_property_def split: prop_slot.splits)
    then show ?thesis using Cons by (simp add: p dw_then_def)
  next
    case False
    then obtain v where v: "\<not> mangled k" "slot_value (world s) item = Some v" by blast
    from v have vis: "visible_props H (p # props) = (k, v) # visible_props H props"
      by (auto simp: p slot_value_def slots split: prop_slot.splits)
    obtain j js' where js: "js = (k, j) # js'" and j: "disc_correct e H lvl d (deref_in H v) j disc"
      and rest: "items_ok e H lvl d enc disc (visible_props H props) js'"
      using Cons.prems(1) unfolding vis items_cons by blast
    let ?key = "case k of KStr k \<Rightarrow> dw_discard_string e k s | KInt _ \<Rightarrow> (True, s)"
    let ?E = "jval_errors e (dw_flags s) (guards (world s)) d lvl j"
    have key: "discarded e s (key_errors (dw_flags s) False k) (key_slack k) (Some ?key)"
      using discard_string [OF Cons.prems(2)]
      by (cases k) (simp_all add: key_errors_def key_slack_def, simp_all add: discarded_def)
    have one: "discarded e s (key_errors (dw_flags s) False k @ ?E) (key_slack k + jval_slack j)
        (dw_discard_object_property e disc k item d s)"
      unfolding dw_discard_object_property_def v(2) option.case if_not_P [OF v(1)]
    proof (rule discarded_then [OF key])
      fix s1 assume s1: "frame s1 = frame s" "hard_error s1 = hard_error s"
      have c1: "context_ok e H lvl s1" using Cons.prems(2) s1 by (simp add: frame_eq [OF s1(1)])
      show "discarded e s1 ?E (jval_slack j) (disc (zval_deref (world s1) v) d s1)"
        using j Cons.prems(3) s1 c1 by (auto simp: disc_correct_def context_cells [OF c1] frame_eq [OF s1(1)] dest: spec [of _ s1])
    qed
    have "discarded e s ((key_errors (dw_flags s) False k @ ?E) @ elements_errors e (dw_flags s) (guards (world s)) d lvl False js')
        ((key_slack k + jval_slack j) + elements_slack js') (dw_discard_object_props_range e disc (p # props) d s)"
      unfolding p dw_discard_object_props_range.simps
    proof (rule discarded_then [OF one])
      fix s1 assume s1: "frame s1 = frame s" "hard_error s1 = hard_error s"
      show "discarded e s1 (elements_errors e (dw_flags s) (guards (world s)) d lvl False js') (elements_slack js')
          (dw_discard_object_props_range e disc props d s1)"
        using Cons.IH [OF rest, where s = s1] Cons.prems(2,3) s1 by (simp add: frame_eq [OF s1(1)])
    qed
    then show ?thesis by (simp add: js ac_simps)
  qed
qed

text \<open>The body of an object: the indentation is raised at the first property that is printed. \<open>b\<close> is the state with the
  indentation the object was entered with.\<close>

definition lowered :: "bool \<Rightarrow> fastjson_dw_ctx \<Rightarrow> fastjson_dw_ctx" where
  "lowered body_open s = (if body_open then s\<lparr>indent_level := indent_level s - 1\<rparr> else s)"

lemma lowered_simps [simp]:
  "lowered False s = s" "dw_buf (lowered b s) = dw_buf s" "dw_style (lowered b s) = dw_style s" "dw_flags (lowered b s) = dw_flags s"
  "world (lowered b s) = world s" "pretty_print (lowered b s) = pretty_print s" "fresh (lowered b s) = fresh s"
  "too_large (lowered b s) = too_large s" "reported E (lowered b s) = reported E s"
  "lowered b (dw_append t s) = dw_append t (lowered b s)"
  by (simp_all add: lowered_def)

lemma lowered_frame: "frame s' = frame s \<Longrightarrow> frame (lowered b s') = frame (lowered b s)"
  by (simp add: frame_def lowered_def)

lemma newline_append: "dw_emit_newline_indent e i s = dw_append (0x0A # replicate (nat i * 4) 0x20) s"
  by (simp add: dw_emit_newline_indent_def newline_text dw_append_def)

lemma sep_flat: "\<not> st_pretty st \<Longrightarrow> sep_text st i first = sep_text st i' first"
  by (simp add: sep_text_def nl_text_def)

lemma read_visible:
  assumes "\<not> read_by_hook (k, item)" and "\<not> mangled k"
  shows "dw_read_property e obj item s = (Some (slot_value (world s) item), s)"
  using assms by (cases item) (auto simp: dw_read_property_def read_by_hook_def slot_value_def)

lemma emit_props:
  assumes e: "engine_ok e" and "items_ok e H lvl d enc disc (visible_props H props) js"
    and "\<not> list_ex read_by_hook props" and "context_ok e H lvl s" and "fresh s"
    and "body_open \<longleftrightarrow> pretty_print s \<and> \<not> first"
  shows "emitted e (lowered body_open s) (elements_errors e (dw_flags s) (guards (world s)) d lvl False js)
    (elements_text e (dw_style s) (serialize_precision (world s)) (indent_level (lowered body_open s) + 1) False first js @
      (if first \<and> js = [] then [] else nl_text (dw_style s) (indent_level (lowered body_open s))) @ [0x7D])
    (elements_slack js) (dw_emit_props e enc disc obj props d first body_open s)"
  using assms(2-)
proof (induction props arbitrary: s js first body_open)
  case Nil
  then have js: "js = []" by simp
  show ?case
    using Nil.prems(5) emitted_ok [of e "lowered body_open s"]
    by (auto simp: js Let_def lowered_def nl_text_def newline_append)
next
  case (Cons p props)
  obtain k item where p: "p = (k, item)" by fastforce
  have slots: "prop_slots (world s) = cell_slots H" using Cons.prems(3) by (auto simp: context_ok_def in_cells_def)
  have nh: "\<not> read_by_hook (k, item)" "\<not> list_ex read_by_hook props" using Cons.prems(2) by (simp_all add: p)
  show ?case
  proof (cases "mangled k \<or> slot_value (world s) item = None")
    case True
    then have "visible_props H (p # props) = visible_props H props"
      by (auto simp: p slot_value_def slots split: prop_slot.splits)
    moreover have "dw_emit_props e enc disc obj (p # props) d first body_open s = dw_emit_props e enc disc obj props d first body_open s"
      using True read_visible [OF nh(1)] by (auto simp: p)
    ultimately show ?thesis using Cons.IH [OF _ nh(2) Cons.prems(3-5)] Cons.prems(1) by simp
  next
    case False
    then obtain v where v: "\<not> mangled k" "slot_value (world s) item = Some v" by blast
    from v have vis: "visible_props H (p # props) = (k, v) # visible_props H props"
      by (auto simp: p slot_value_def slots split: prop_slot.splits)
    obtain j js' where js: "js = (k, j) # js'" and j: "enc_correct e H lvl d (deref_in H v) j enc"
      and rest: "items_ok e H lvl d enc disc (visible_props H props) js'"
      using Cons.prems(1) unfolding vis items_cons by blast
    have norel: "(case item of PropHook a b \<Rightarrow> f | _ \<Rightarrow> g) = g" for f g :: fastjson_dw_ctx
      using v(2) by (auto simp: slot_value_def split: prop_slot.splits)
    define b where "b = lowered body_open s"
    define u where "u = sep_text (dw_style s) (indent_level b + 1) first"
    define s0 where "s0 = (if pretty_print s \<and> \<not> body_open then s\<lparr>indent_level := indent_level s + 1\<rparr> else s)"
    define s1 where "s1 = dw_append u s0"
    have s0: "dw_flags s0 = dw_flags s" "dw_style s0 = dw_style s" "world s0 = world s" "pretty_print s0 = pretty_print s"
        "context_ok e H lvl s0" "fresh s0" "lowered (pretty_print s) s0 = b"
      using Cons.prems(3-5) by (auto simp: s0_def b_def lowered_def)
    have ind: "pretty_print s \<Longrightarrow> indent_level s0 = indent_level b + 1"
      by (auto simp: b_def s0_def lowered_def)
    have s1: "dw_flags s1 = dw_flags s" "dw_style s1 = dw_style s" "world s1 = world s" "pretty_print s1 = pretty_print s"
        "context_ok e H lvl s1" "fresh s1" "lowered (pretty_print s) s1 = dw_append u b" "indent_level s1 = indent_level s0"
      using s0 by (simp_all add: s1_def)
    have sep: "dw_separator e first s0 = s1"
      using ind sep_flat [of "dw_style s" "indent_level s0" first "indent_level b + 1"] s0
      by (cases "pretty_print s") (simp_all add: separator s1_def u_def)
    let ?E = "jval_errors e (dw_flags s) (guards (world s)) d lvl j"
    let ?kt = "key_text e (dw_style s) k"
    let ?t = "jval_text e (dw_style s) (serialize_precision (world s)) (indent_level b + 1) j"
    let ?E' = "elements_errors e (dw_flags s) (guards (world s)) d lvl False js'"
    let ?t' = "elements_text e (dw_style s) (serialize_precision (world s)) (indent_level b + 1) False False js' @
        nl_text (dw_style s) (indent_level b) @ [0x7D]"
    have jt: "jval_text e (dw_style s) (serialize_precision (world s)) (indent_level s0) j = ?t"
      using ind text_flat_elements(1) [of "dw_style s"] by (cases "pretty_print s") simp_all
    have one: "emitted e s1 (key_errors (dw_flags s) False k @ ?E) (?kt @ ?t) (key_slack k + jval_slack j)
        (dw_then (Some (dw_emit_object_key e k s1)) (enc (deref_in H v) d))"
    proof (rule emitted_then [OF _ key_no_inf])
      show "emitted e s1 (key_errors (dw_flags s) False k) ?kt (key_slack k) (Some (dw_emit_object_key e k s1))"
        using emit_key [OF e s1(5,6), of k] s1 by simp
      show "emitted e (dw_append ?kt s1) ?E ?t (jval_slack j) (enc (deref_in H v) d (dw_append ?kt s1))"
        using j [unfolded enc_correct_def, rule_format, of "dw_append ?kt s1"] s1 jt by simp
    qed
    have all: "emitted e (dw_append u b) ((key_errors (dw_flags s) False k @ ?E) @ ?E') ((?kt @ ?t) @ ?t')
        ((key_slack k + jval_slack j) + elements_slack js')
        (dw_else (dw_then (Some (dw_emit_object_key e k s1)) (enc (deref_in H v) d))
          (\<lambda>s'. dw_emit_props e enc disc obj props d False (pretty_print s) s')
          (\<lambda>s'. dw_finally (lowered (pretty_print s)) (dw_after_failure (dw_discard_object_props_range e disc props d) s')))"
    proof (rule emitted_closing [OF one])
      show "dw_buf (dw_append u b) = dw_buf s1" using s1(7) by (metis lowered_simps(2))
      show "emitted e (dw_append (?kt @ ?t) (dw_append u b)) ?E' ?t' (elements_slack js')
          (dw_emit_props e enc disc obj props d False (pretty_print s) (dw_append (?kt @ ?t) s1))"
        using Cons.IH [OF rest nh(2), where s = "dw_append (?kt @ ?t) s1" and first = False and body_open = "pretty_print s"] s1
        by (simp add: b_def)
    next
      fix s' assume s': "frame s' = frame s1" "hard_error s'"
      show "discarded e s' ?E' (elements_slack js') (dw_discard_object_props_range e disc props d s')"
        using discard_props [OF rest, of s'] s' s1 by (simp add: frame_eq [OF s'(1)])
    next
      show "frame (lowered (pretty_print s) s') = frame (dw_append u b)" if "frame s' = frame s1" for s'
        using lowered_frame [OF that] s1(7) by simp
    qed simp_all
    have "dw_emit_props e enc disc obj (p # props) d first body_open s =
        dw_else (dw_then (Some (dw_emit_object_key e k s1)) (enc (deref_in H v) d))
          (\<lambda>s'. dw_emit_props e enc disc obj props d False (pretty_print s) s')
          (\<lambda>s'. dw_finally (lowered (pretty_print s)) (dw_after_failure (dw_discard_object_props_range e disc props d) s'))"
    proof -
      have r: "dw_read_property e obj item s = (Some (Some v), s)" using read_visible [OF nh(1) v(1), of e obj s] v(2) by simp
      have bo: "(body_open \<or> pretty_print s0) = pretty_print s" using Cons.prems(5) s0(4) by blast
      have l: "(\<lambda>s. if pp then s\<lparr>indent_level := indent_level s - 1\<rparr> else s) = lowered pp" for pp
        by (rule ext) (simp add: lowered_def)
      show ?thesis
        unfolding p dw_emit_props.simps if_not_P [OF v(1)] r prod.case option.case Let_def
        unfolding s0_def [symmetric] bo sep norel context_cells [OF Cons.prems(3)] l ..
    qed
    then show ?thesis
      using emitted_prefix [OF all] unfolding b_def [symmetric] js u_def by (simp add: ac_simps)
  qed
qed

text \<open>The recursion flag around an object's properties.\<close>

definition held :: "recursion_flag option \<Rightarrow> fastjson_dw_ctx \<Rightarrow> fastjson_dw_ctx" where
  "held g s = (case g of None \<Rightarrow> s | Some f \<Rightarrow> dw_protect f s)"

definition freed :: "recursion_flag option \<Rightarrow> fastjson_dw_ctx \<Rightarrow> fastjson_dw_ctx" where
  "freed g s = (case g of None \<Rightarrow> s | Some f \<Rightarrow> dw_unprotect f s)"

lemma held_simps [simp]:
  "dw_flags (held g s) = dw_flags s" "dw_style (held g s) = dw_style s" "indent_level (held g s) = indent_level s"
  "pretty_print (held g s) = pretty_print s" "dw_buf (held g s) = dw_buf s" "hard_error (held g s) = hard_error s"
  "discard_aborted (held g s) = discard_aborted s" "dw_error (held g s) = dw_error s"
  "fresh (held g s) = fresh s"
  "serialize_precision (world (held g s)) = serialize_precision (world s)"
  "guards (world (held g s)) = set_option g \<union> guards (world s)"
  by (cases g; simp add: held_def dw_protect_def fresh_def context_ok_def dw_style_def)+

lemma held_context: "context_ok e H lvl s \<Longrightarrow> context_ok e (hold (set_option g) H) lvl (held g s)"
  by (cases g; auto simp: held_def dw_protect_def context_ok_def in_cells_def)

lemma freed_simps [simp]:
  "dw_error (freed g s) = dw_error s" "hard_error (freed g s) = hard_error s" "dw_buf (freed g s) = dw_buf s"
  "discard_aborted (freed g s) = discard_aborted s" "too_large (freed g s) = too_large s" "reported E (freed g s) = reported E s"
  by (cases g; simp add: freed_def dw_unprotect_def too_large_def reported_def)+

lemma freed_frame:
  "set_option g \<inter> guards (world s) = {} \<Longrightarrow> frame s' = frame (held g s) \<Longrightarrow> frame (freed g s') = frame s"
  by (cases g) (auto simp: frame_def held_def freed_def dw_protect_def dw_unprotect_def)

lemma freed_held:
  "set_option g \<inter> guards (world s) = {} \<Longrightarrow> freed g (dw_append t (held g s)) = dw_append t s"
  by (cases g; cases s) (auto simp: held_def freed_def dw_protect_def dw_unprotect_def dw_append_def)

lemma emitted_held:
  assumes "set_option g \<inter> guards (world s) = {}" and "emitted e (held g s) E t k r"
  shows "emitted e s E t k (dw_finally (freed g) r)"
  using assms(2) freed_frame [OF assms(1)] freed_held [OF assms(1)] by (auto simp: emitted_def dw_finally_def split: option.splits if_splits)

lemma discarded_held:
  assumes "set_option g \<inter> guards (world s) = {}" and "discarded e (held g s) E k r"
  shows "discarded e s E k (dw_finally (freed g) r)"
  using assms(2) freed_frame [OF assms(1)] by (auto simp: discarded_def dw_finally_def split: option.splits)

lemma quiet_steps:
  assumes "quiet_object e obj t"
  shows "dw_get_properties e obj s = (Some t, s)" and "dw_release_props e t s = s" and "dw_release e (PObject obj) s = s"
    and "json_serializable (class_of e obj) = False" and "enum_case (class_of e obj) = None" and "\<not> list_ex read_by_hook (pt_entries t)"
  using assms by (simp_all add: quiet_object_def dw_get_properties_def dw_release_props_def dw_release_def)

lemma props_walk:
  assumes "quiet_object e obj t"
  defines "g \<equiv> props_guard e obj t"
  shows "dw_emit_object_props e enc disc obj d s =
      (if set_option g \<inter> guards (world s) \<noteq> {} then Some (dw_recursion_fail s)
       else dw_finally (freed g) (dw_emit_props e enc disc obj (pt_entries t) (d - 1) True False (dw_append [0x7B] (held g s))))"
    and "dw_discard_object_props e disc obj d s =
      (if set_option g \<inter> guards (world s) \<noteq> {} then Some (dw_recursion_fail s)
       else dw_finally (freed g) (dw_discard_object_props_range e disc (pt_entries t) (d - 1) (held g s)))"
proof -
  have rel: "dw_release_props e t = (\<lambda>s. s)" by (rule ext) (rule quiet_steps(2) [OF assms(1)])
  have free: "freed None = (\<lambda>s. s)" "freed (Some f) = dw_unprotect f" for f by (rule ext; simp add: freed_def)+
  have eta: "(\<lambda>s. dw_unprotect f s) = dw_unprotect f" for f ..
  note get = quiet_steps(1) [OF assms(1)]
  show "dw_emit_object_props e enc disc obj d s =
      (if set_option g \<inter> guards (world s) \<noteq> {} then Some (dw_recursion_fail s)
       else dw_finally (freed g) (dw_emit_props e enc disc obj (pt_entries t) (d - 1) True False (dw_append [0x7B] (held g s))))"
    unfolding g_def dw_emit_object_props_def get prod.case option.case rel
    by (cases "props_guard e obj t") (simp_all add: free held_def dw_guarded_def)
  show "dw_discard_object_props e disc obj d s =
      (if set_option g \<inter> guards (world s) \<noteq> {} then Some (dw_recursion_fail s)
       else dw_finally (freed g) (dw_discard_object_props_range e disc (pt_entries t) (d - 1) (held g s)))"
    unfolding g_def dw_discard_object_props_def get prod.case option.case rel
    by (cases "props_guard e obj t") (simp_all add: free held_def dw_guarded_def)
qed

lemma emit_object:
  assumes e: "engine_ok e" and q: "quiet_object e obj t"
    and el: "set_option (props_guard e obj t) \<inter> cell_held H = {} \<Longrightarrow>
      items_ok e (hold (set_option (props_guard e obj t)) H) (lvl + 1) (d - 1) enc disc (visible_props H (pt_entries t)) js"
    and c: "context_ok e H (lvl + 1) s" and fr: "fresh s" and nf: "\<not> frames_full e lvl"
  shows "emitted e s (jval_errors e (dw_flags s) (guards (world s)) d lvl (JObject (props_guard e obj t) js))
    (jval_text e (dw_style s) (serialize_precision (world s)) (indent_level s) (JObject (props_guard e obj t) js)) (elements_slack js)
    (dw_emit_object e enc disc obj d lvl s)"
proof -
  let ?g = "props_guard e obj t"
  have np: "\<not> partial_output s" using c by (simp add: context_ok_def)
  have rel: "dw_release e (PObject obj) = (\<lambda>s. s)" by (rule ext) (rule quiet_steps(3) [OF q])
  have obj: "dw_emit_object e enc disc obj d lvl s =
      (if stack_overflowed e lvl \<or> d \<le> 0 then Some (dw_depth_fail s) else dw_emit_object_props e enc disc obj d s)"
    by (simp add: dw_emit_object_def quiet_steps [OF q] rel finally_id)
  show ?thesis
  proof (cases "stack_overflowed e lvl \<or> d \<le> 0 \<or> set_option ?g \<inter> guards (world s) \<noteq> {}")
    case True
    then show ?thesis
      using emitted_depth [OF np fr] emitted_recursion [OF np fr] nf
      by (auto simp: obj props_walk [OF q] simp del: jval_text.simps)
  next
    case False
    then have dj: "set_option ?g \<inter> guards (world s) = {}" by blast
    have el: "items_ok e (hold (set_option ?g) H) (lvl + 1) (d - 1) enc disc (visible_props (hold (set_option ?g) H) (pt_entries t)) js"
      using el [OF held_disjoint [OF c dj]] by (simp only: visible_hold)
    let ?s = "dw_append [0x7B] (held ?g s)"
    have s: "context_ok e (hold (set_option ?g) H) (lvl + 1) ?s" "fresh ?s" "False \<longleftrightarrow> pretty_print ?s \<and> \<not> True"
      using held_context [OF c] fr by simp_all
    from emit_props [OF e el quiet_steps(6) [OF q] s, of obj]
    have "emitted e ?s (elements_errors e (dw_flags s) (set_option ?g \<union> guards (world s)) (d - 1) (lvl + 1) False js)
      (elements_text e (dw_style s) (serialize_precision (world s)) (indent_level s + 1) False True js @
        (if js = [] then [] else nl_text (dw_style s) (indent_level s)) @ [0x7D]) (elements_slack js)
      (dw_emit_props e enc disc obj (pt_entries t) (d - 1) True False ?s)"
      by (simp only: lowered_simps append_simps held_simps simp_thms)
    from emitted_held [OF _ emitted_prefix [OF this]] False nf show ?thesis
      by (simp add: obj props_walk [OF q])
  qed
qed

lemma discard_object:
  assumes q: "quiet_object e obj t"
    and el: "set_option (props_guard e obj t) \<inter> cell_held H = {} \<Longrightarrow>
      items_ok e (hold (set_option (props_guard e obj t)) H) (lvl + 1) (d - 1) enc disc (visible_props H (pt_entries t)) js"
    and c: "context_ok e H (lvl + 1) s" and h: "hard_error s" and nf: "\<not> frames_full e lvl"
  shows "discarded e s (jval_errors e (dw_flags s) (guards (world s)) d lvl (JObject (props_guard e obj t) js)) (elements_slack js)
    (dw_discard_object e disc obj d lvl s)"
proof -
  let ?g = "props_guard e obj t"
  have np: "\<not> partial_output s" using c by (simp add: context_ok_def)
  have obj: "dw_discard_object e disc obj d lvl s =
      (if stack_overflowed e lvl \<or> d \<le> 0 then Some (dw_depth_fail s) else dw_discard_object_props e disc obj d s)"
    by (simp add: dw_discard_object_def quiet_steps [OF q])
  show ?thesis
  proof (cases "stack_overflowed e lvl \<or> d \<le> 0 \<or> set_option ?g \<inter> guards (world s) \<noteq> {}")
    case True
    then show ?thesis
      using discarded_depth [OF np] discarded_recursion [OF np] nf by (auto simp: obj props_walk [OF q])
  next
    case False
    then have dj: "set_option ?g \<inter> guards (world s) = {}" by blast
    have el: "items_ok e (hold (set_option ?g) H) (lvl + 1) (d - 1) enc disc (visible_props (hold (set_option ?g) H) (pt_entries t)) js"
      using el [OF held_disjoint [OF c dj]] by (simp only: visible_hold)
    from discard_props [OF el, of "held ?g s"] held_context [OF c] h
    have "discarded e (held ?g s) (elements_errors e (dw_flags s) (set_option ?g \<union> guards (world s)) (d - 1) (lvl + 1) False js)
      (elements_slack js) (dw_discard_object_props_range e disc (pt_entries t) (d - 1) (held ?g s))" by simp
    from discarded_held [OF _ this] False nf show ?thesis by (simp add: obj props_walk [OF q])
  qed
qed

subsection \<open>One call\<close>

lemma counted_emitted:
  assumes c: "context_ok e H lvl s" and fr: "fresh s"
    and f: "\<And>s'. context_ok e H (lvl + 1) s' \<Longrightarrow> fresh s' \<Longrightarrow> \<not> frames_full e lvl \<Longrightarrow> dw_flags s' = dw_flags s \<Longrightarrow> dw_style s' = dw_style s \<Longrightarrow>
      world s' = world s \<Longrightarrow> indent_level s' = indent_level s \<Longrightarrow> emitted e s' E t k (f s')"
  shows "emitted e s (if frames_full e lvl then [st_depth] else E) t k (dw_counted e f s)"
proof (cases "native_stack_limit (runtime e)")
  case True
  then show ?thesis
    using f [of s] c fr by (simp add: dw_counted_def frames_full_def context_ok_def)
next
  case native: False
  have np: "\<not> partial_output s" and cd: "call_depth s = lvl" using c native by (simp_all add: context_ok_def)
  show ?thesis
  proof (cases "frames_full e lvl")
    case True
    then show ?thesis using native cd emitted_depth [OF np fr] by (simp add: dw_counted_def frames_full_def)
  next
    case False
    let ?s = "s\<lparr>call_depth := call_depth s + 1\<rparr>"
    have "emitted e ?s E t k (f ?s)"
      using f [of ?s] c fr False native by (simp add: context_ok_def fresh_def dw_style_def)
    then obtain ok s' where r: "f ?s = Some (ok, s')" and em: "emitted e ?s E t k (Some (ok, s'))"
      by (auto simp: emitted_def split: option.splits)
    have s': "frame s' = frame ?s" "if ok then E = [] \<and> s' = dw_append t ?s
       else too_large s' \<and> zstr_max (plat e) < length (dw_buf ?s) + length t + k \<or> reported E s'"
      using em unfolding emitted_def option.case prod.case by blast+
    have "ok \<Longrightarrow> s'\<lparr>call_depth := call_depth s' - 1\<rparr> = dw_append t s" using s'(2) by (simp add: dw_append_def)
    moreover have "frame (s'\<lparr>call_depth := call_depth s' - 1\<rparr>) = frame s" using s'(1) by (simp add: frame_def)
    ultimately have "emitted e s E t k (dw_finally (\<lambda>s. s\<lparr>call_depth := call_depth s - 1\<rparr>) (f ?s))"
      using r s'(2) by (cases ok) (simp_all add: emitted_def dw_finally_def too_large_def reported_def)
    then show ?thesis using False native cd by (simp add: dw_counted_def frames_full_def)
  qed
qed

lemma counted_discarded:
  assumes c: "context_ok e H lvl s" and h: "hard_error s"
    and f: "\<And>s'. context_ok e H (lvl + 1) s' \<Longrightarrow> hard_error s' \<Longrightarrow> \<not> frames_full e lvl \<Longrightarrow> dw_flags s' = dw_flags s \<Longrightarrow>
      world s' = world s \<Longrightarrow> discarded e s' E k (f s')"
  shows "discarded e s (if frames_full e lvl then [st_depth] else E) k (dw_counted e f s)"
proof (cases "native_stack_limit (runtime e)")
  case True
  then show ?thesis
    using f [of s] c h by (simp add: dw_counted_def frames_full_def context_ok_def)
next
  case native: False
  have np: "\<not> partial_output s" and cd: "call_depth s = lvl" using c native by (simp_all add: context_ok_def)
  show ?thesis
  proof (cases "frames_full e lvl")
    case True
    then show ?thesis using native cd discarded_depth [OF np] by (simp add: dw_counted_def frames_full_def)
  next
    case False
    let ?s = "s\<lparr>call_depth := call_depth s + 1\<rparr>"
    have "discarded e ?s E k (f ?s)"
      using f [of ?s] c h False native by (simp add: context_ok_def)
    then have "discarded e s E k (dw_finally (\<lambda>s. s\<lparr>call_depth := call_depth s - 1\<rparr>) (f ?s))"
      by (auto simp: discarded_def dw_finally_def frame_def split: option.splits if_splits)
    then show ?thesis using False native cd by (simp add: dw_counted_def frames_full_def)
  qed
qed

lemma full_errors: "(if frames_full e lvl then [st_depth] else jval_errors e flags G d lvl j) = jval_errors e flags G d lvl j"
  by (cases j) simp_all

lemma zval_step:
  assumes enc: "\<And>s. context_ok e H (lvl + 1) s \<Longrightarrow> fresh s \<Longrightarrow> \<not> frames_full e lvl \<Longrightarrow>
      emitted e s (jval_errors e (dw_flags s) (guards (world s)) d lvl j)
        (jval_text e (dw_style s) (serialize_precision (world s)) (indent_level s) j) (jval_slack j)
        (dw_encode_zval_inner e (dw_encode_zval e n (lvl + 1)) (dw_discard_zval e n (lvl + 1)) v d lvl s)"
    and disc: "\<And>s. context_ok e H (lvl + 1) s \<Longrightarrow> hard_error s \<Longrightarrow> \<not> frames_full e lvl \<Longrightarrow>
      discarded e s (jval_errors e (dw_flags s) (guards (world s)) d lvl j) (jval_slack j)
        (dw_discard_zval_inner e (dw_discard_zval e n (lvl + 1)) v d lvl s)"
  shows "enc_correct e H lvl d v j (dw_encode_zval e (Suc n) lvl) \<and> disc_correct e H lvl d v j (dw_discard_zval e (Suc n) lvl)"
proof
  show "enc_correct e H lvl d v j (dw_encode_zval e (Suc n) lvl)"
    unfolding enc_correct_def
  proof (intro allI impI)
    fix s assume s: "context_ok e H lvl s \<and> fresh s"
    show "emitted e s (jval_errors e (dw_flags s) (guards (world s)) d lvl j)
        (jval_text e (dw_style s) (serialize_precision (world s)) (indent_level s) j) (jval_slack j)
        (dw_encode_zval e (Suc n) lvl v d s)"
      unfolding dw_encode_zval.simps
    proof (subst full_errors [symmetric], rule counted_emitted [OF s [THEN conjunct1] s [THEN conjunct2]])
      fix s' assume s': "context_ok e H (lvl + 1) s'" "fresh s'" "\<not> frames_full e lvl" "dw_flags s' = dw_flags s"
        "dw_style s' = dw_style s" "world s' = world s" "indent_level s' = indent_level s"
      show "emitted e s' (jval_errors e (dw_flags s) (guards (world s)) d lvl j)
          (jval_text e (dw_style s) (serialize_precision (world s)) (indent_level s) j) (jval_slack j)
          (dw_encode_zval_inner e (dw_encode_zval e n (lvl + 1)) (dw_discard_zval e n (lvl + 1)) v d lvl s')"
        using enc [OF s'(1-3)] unfolding s'(4-7) .
    qed
  qed
  show "disc_correct e H lvl d v j (dw_discard_zval e (Suc n) lvl)"
    unfolding disc_correct_def
  proof (intro allI impI)
    fix s assume s: "context_ok e H lvl s \<and> hard_error s"
    show "discarded e s (jval_errors e (dw_flags s) (guards (world s)) d lvl j) (jval_slack j) (dw_discard_zval e (Suc n) lvl v d s)"
      unfolding dw_discard_zval.simps
    proof (subst full_errors [symmetric], rule counted_discarded [OF s [THEN conjunct1] s [THEN conjunct2]])
      fix s' assume s': "context_ok e H (lvl + 1) s'" "hard_error s'" "\<not> frames_full e lvl" "dw_flags s' = dw_flags s" "world s' = world s"
      show "discarded e s' (jval_errors e (dw_flags s) (guards (world s)) d lvl j) (jval_slack j)
          (dw_discard_zval_inner e (dw_discard_zval e n (lvl + 1)) v d lvl s')"
        using disc [OF s'(1-3)] unfolding s'(4-5) .
    qed
  qed
qed

subsection \<open>All values\<close>

lemma string_right: "engine_ok e \<Longrightarrow>
    enc_correct e H lvl d (PString x) (JString x) (dw_encode_zval e (Suc n) lvl) \<and> disc_correct e H lvl d (PString x) (JString x) (dw_discard_zval e (Suc n) lvl)"
proof (rule zval_step)
  fix s :: fastjson_dw_ctx
  assume e: "engine_ok e" and s: "context_ok e H (lvl + 1) s" "fresh s" "\<not> frames_full e lvl"
  show "emitted e s (jval_errors e (dw_flags s) (guards (world s)) d lvl (JString x))
      (jval_text e (dw_style s) (serialize_precision (world s)) (indent_level s) (JString x)) (jval_slack (JString x))
      (dw_encode_zval_inner e (dw_encode_zval e n (lvl + 1)) (dw_discard_zval e n (lvl + 1)) (PString x) d lvl s)"
    using emit_string_value [OF e s(1,2), of x] s(3) by (simp add: dw_encode_zval_inner_def)
next
  fix s :: fastjson_dw_ctx
  assume s: "context_ok e H (lvl + 1) s" "hard_error s" "\<not> frames_full e lvl"
  show "discarded e s (jval_errors e (dw_flags s) (guards (world s)) d lvl (JString x)) (jval_slack (JString x))
      (dw_discard_zval_inner e (dw_discard_zval e n (lvl + 1)) (PString x) d lvl s)"
    unfolding dw_discard_zval_inner_def pval.case
  proof (rule back_subst [where a = "Some (if numeric_value e (dw_flags s) x = NotNumeric then dw_discard_string e x s else (True, s))"])
    show "discarded e s (jval_errors e (dw_flags s) (guards (world s)) d lvl (JString x)) (jval_slack (JString x))
        (Some (if numeric_value e (dw_flags s) x = NotNumeric then dw_discard_string e x s else (True, s)))"
      using discard_string [OF s(1), of x] s(3) by (cases "numeric_value e (dw_flags s) x") (simp_all add: discarded_def)
  qed (auto simp: numeric_value_def split: numeric_string.splits)
qed

lemma array_right:
  assumes e: "engine_ok e"
    and el: "array_flag i \<inter> cell_held H = {} \<Longrightarrow>
      items_ok e (hold (array_flag i) H) (lvl + 1) (d - 1) (dw_encode_zval e n (lvl + 1)) (dw_discard_zval e n (lvl + 1)) ht js"
  shows "enc_correct e H lvl d (PArray i ht) (JArray i js) (dw_encode_zval e (Suc n) lvl) \<and>
    disc_correct e H lvl d (PArray i ht) (JArray i js) (dw_discard_zval e (Suc n) lvl)"
proof (rule zval_step)
  have rel: "dw_release e (PArray i ht) = (\<lambda>s. s)" using e by (intro ext) (simp add: dw_release_def engine_ok_def)
  fix s :: fastjson_dw_ctx
  assume c: "context_ok e H (lvl + 1) s" and f: "\<not> frames_full e lvl"
  show "emitted e s (jval_errors e (dw_flags s) (guards (world s)) d lvl (JArray i js))
      (jval_text e (dw_style s) (serialize_precision (world s)) (indent_level s) (JArray i js)) (jval_slack (JArray i js))
      (dw_encode_zval_inner e (dw_encode_zval e n (lvl + 1)) (dw_discard_zval e n (lvl + 1)) (PArray i ht) d lvl s)" if "fresh s"
    unfolding dw_encode_zval_inner_def pval.case rel finally_id jval_slack.simps by (rule emit_array [OF e el c that f])
  show "discarded e s (jval_errors e (dw_flags s) (guards (world s)) d lvl (JArray i js)) (jval_slack (JArray i js))
      (dw_discard_zval_inner e (dw_discard_zval e n (lvl + 1)) (PArray i ht) d lvl s)" if "hard_error s"
    unfolding dw_discard_zval_inner_def pval.case rel finally_id jval_slack.simps by (rule discard_array [OF el c that f])
qed

lemma object_right:
  assumes "engine_ok e" and "quiet_object e obj t"
    and "set_option (props_guard e obj t) \<inter> cell_held H = {} \<Longrightarrow>
      items_ok e (hold (set_option (props_guard e obj t)) H) (lvl + 1) (d - 1) (dw_encode_zval e n (lvl + 1)) (dw_discard_zval e n (lvl + 1))
        (visible_props H (pt_entries t)) js"
  shows "enc_correct e H lvl d (PObject obj) (JObject (props_guard e obj t) js) (dw_encode_zval e (Suc n) lvl) \<and>
    disc_correct e H lvl d (PObject obj) (JObject (props_guard e obj t) js) (dw_discard_zval e (Suc n) lvl)"
  using emit_object [OF assms] discard_object [OF assms(2,3)]
  by (intro zval_step) (simp_all add: dw_encode_zval_inner_def dw_discard_zval_inner_def del: jval_text.simps jval_errors.simps)

lemma enum_right:
  assumes c: "\<not> json_serializable (class_of e obj)" "enum_case (class_of e obj) = Some (Some v)"
    and v: "enc_correct e H (lvl + 1) d v j (dw_encode_zval e n (lvl + 1)) \<and> disc_correct e H (lvl + 1) d v j (dw_discard_zval e n (lvl + 1))"
  shows "enc_correct e H lvl d (PObject obj) (JEnum j) (dw_encode_zval e (Suc n) lvl) \<and>
    disc_correct e H lvl d (PObject obj) (JEnum j) (dw_discard_zval e (Suc n) lvl)"
proof (rule zval_step)
  fix s :: fastjson_dw_ctx
  assume s: "context_ok e H (lvl + 1) s" "fresh s" "\<not> frames_full e lvl"
  then have np: "\<not> partial_output s" by (simp add: context_ok_def)
  show "emitted e s (jval_errors e (dw_flags s) (guards (world s)) d lvl (JEnum j))
      (jval_text e (dw_style s) (serialize_precision (world s)) (indent_level s) (JEnum j)) (jval_slack (JEnum j))
      (dw_encode_zval_inner e (dw_encode_zval e n (lvl + 1)) (dw_discard_zval e n (lvl + 1)) (PObject obj) d lvl s)"
    using v s emitted_depth [OF np s(2)] c
    by (simp add: dw_encode_zval_inner_def dw_emit_object_def enc_correct_def)
next
  fix s :: fastjson_dw_ctx
  assume s: "context_ok e H (lvl + 1) s" "hard_error s" "\<not> frames_full e lvl"
  then have np: "\<not> partial_output s" by (simp add: context_ok_def)
  show "discarded e s (jval_errors e (dw_flags s) (guards (world s)) d lvl (JEnum j)) (jval_slack (JEnum j))
      (dw_discard_zval_inner e (dw_discard_zval e n (lvl + 1)) (PObject obj) d lvl s)"
    using v s discarded_depth [OF np] c
    by (simp add: dw_discard_zval_inner_def dw_discard_object_def disc_correct_def)
qed

lemma bare_enum_right:
  assumes c: "\<not> json_serializable (class_of e obj)" "enum_case (class_of e obj) = Some None"
  shows "enc_correct e H lvl d (PObject obj) JBareEnum (dw_encode_zval e (Suc n) lvl) \<and>
    disc_correct e H lvl d (PObject obj) JBareEnum (dw_discard_zval e (Suc n) lvl)"
proof (rule zval_step)
  fix s :: fastjson_dw_ctx
  assume s: "context_ok e H (lvl + 1) s" "fresh s" "\<not> frames_full e lvl"
  then have np: "\<not> partial_output s" by (simp add: context_ok_def)
  show "emitted e s (jval_errors e (dw_flags s) (guards (world s)) d lvl JBareEnum)
      (jval_text e (dw_style s) (serialize_precision (world s)) (indent_level s) JBareEnum) (jval_slack JBareEnum)
      (dw_encode_zval_inner e (dw_encode_zval e n (lvl + 1)) (dw_discard_zval e n (lvl + 1)) (PObject obj) d lvl s)"
    using s(3) c emitted_depth [OF np s(2)] emitted_partial [OF np s(2), of FASTJSON_ERROR_NON_BACKED_ENUM
        "''Non-backed enums have no default serialization''"]
    by (simp add: dw_encode_zval_inner_def dw_emit_object_def dw_enum_fail_def st_enum_def [symmetric])
next
  fix s :: fastjson_dw_ctx
  assume s: "context_ok e H (lvl + 1) s" "hard_error s" "\<not> frames_full e lvl"
  then have np: "\<not> partial_output s" by (simp add: context_ok_def)
  show "discarded e s (jval_errors e (dw_flags s) (guards (world s)) d lvl JBareEnum) (jval_slack JBareEnum)
      (dw_discard_zval_inner e (dw_discard_zval e n (lvl + 1)) (PObject obj) d lvl s)"
    using s(3) c discarded_depth [OF np] discarded_partial [OF np, of FASTJSON_ERROR_NON_BACKED_ENUM
        "''Non-backed enums have no default serialization''"]
    by (simp add: dw_discard_zval_inner_def dw_discard_object_def dw_enum_fail_def st_enum_def [symmetric])
qed

lemma unsupported_right:
  "enc_correct e H lvl d PUnsupported JUnsupported (dw_encode_zval e (Suc n) lvl) \<and>
    disc_correct e H lvl d PUnsupported JUnsupported (dw_discard_zval e (Suc n) lvl)"
  using emitted_partial [of _ FASTJSON_ERROR_UNSUPPORTED_TYPE "''Type is not supported''"]
    discarded_partial [of _ FASTJSON_ERROR_UNSUPPORTED_TYPE "''Type is not supported''"]
  by (intro zval_step) (simp_all add: dw_encode_zval_inner_def dw_discard_zval_inner_def st_type_def [symmetric] context_ok_def)

lemma scalar_right:
  assumes e: "engine_ok e"
  shows "enc_correct e H lvl d PNull JNull (dw_encode_zval e (Suc n) lvl) \<and> disc_correct e H lvl d PNull JNull (dw_discard_zval e (Suc n) lvl)"
    and "enc_correct e H lvl d (PBool b) (JBool b) (dw_encode_zval e (Suc n) lvl) \<and> disc_correct e H lvl d (PBool b) (JBool b) (dw_discard_zval e (Suc n) lvl)"
    and "enc_correct e H lvl d (PLong i) (JLong i) (dw_encode_zval e (Suc n) lvl) \<and> disc_correct e H lvl d (PLong i) (JLong i) (dw_discard_zval e (Suc n) lvl)"
    and "enc_correct e H lvl d (PDouble x) (JDouble x) (dw_encode_zval e (Suc n) lvl) \<and> disc_correct e H lvl d (PDouble x) (JDouble x) (dw_discard_zval e (Suc n) lvl)"
proof -
  show "enc_correct e H lvl d (PDouble x) (JDouble x) (dw_encode_zval e (Suc n) lvl) \<and> disc_correct e H lvl d (PDouble x) (JDouble x) (dw_discard_zval e (Suc n) lvl)"
    using emit_double [OF e] by (intro zval_step) (simp_all add: dw_encode_zval_inner_def dw_discard_zval_inner_def discarded_def)
qed (intro zval_step; simp add: dw_encode_zval_inner_def dw_discard_zval_inner_def discarded_def emitted_ok emit_long [OF e])+

lemma height_item: "kj \<in> set js \<Longrightarrow> Suc (foldr max (map (\<lambda>kv. jval_height (snd kv)) js) 0) \<le> Suc n \<Longrightarrow> jval_height (snd kj) \<le> n"
proof -
  assume "kj \<in> set js"
  then have "jval_height (snd kj) \<le> foldr max (map (\<lambda>kv. jval_height (snd kv)) js) 0" by (induction js) auto
  then show "Suc (foldr max (map (\<lambda>kv. jval_height (snd kv)) js) 0) \<le> Suc n \<Longrightarrow> ?thesis" by simp
qed

lemma height_pos: "0 < jval_height j"
  by (induction j) auto

text \<open>With fuel for its height, a resolved value is printed or its errors are reported.\<close>

lemma zval_correct:
  assumes e: "engine_ok e"
  shows "resolves e H v j \<Longrightarrow> jval_height j \<le> n \<Longrightarrow>
      enc_correct e H lvl d v j (dw_encode_zval e n lvl) \<and> disc_correct e H lvl d v j (dw_discard_zval e n lvl)"
    and "resolves_items e H ht js \<Longrightarrow> list_all (\<lambda>kj. jval_height (snd kj) \<le> n) js \<Longrightarrow>
      items_ok e H lvl d (dw_encode_zval e n lvl) (dw_discard_zval e n lvl) ht js"
proof (induction arbitrary: n lvl d and n lvl d rule: resolves_resolves_items.inducts)
  case (array i H ht js)
  then obtain m where n: "n = Suc m" by (cases n) auto
  have "list_all (\<lambda>kj. jval_height (snd kj) \<le> m) js" using array.prems height_item [of _ js m] by (auto simp: list_all_iff n)
  from array_right [OF e array(2) [OF this]] show ?case unfolding n .
next
  case (cyclic_array i H ht)
  then obtain m where n: "n = Suc m" by (cases n) auto
  show ?case unfolding n by (rule array_right [OF e]) (use cyclic_array in simp)
next
  case (object obj t H js)
  then obtain m where n: "n = Suc m" by (cases n) auto
  have "list_all (\<lambda>kj. jval_height (snd kj) \<le> m) js" using object.prems height_item [of _ js m] by (auto simp: list_all_iff n)
  from object_right [OF e object(1) object(3) [OF this]] show ?case unfolding n .
next
  case (cyclic_object obj t H)
  then obtain m where n: "n = Suc m" by (cases n) auto
  show ?case unfolding n by (rule object_right [OF e cyclic_object(1)]) (use cyclic_object in simp)
next
  case (enum obj v H j)
  then obtain m where n: "n = Suc m" by (cases n) auto
  have "jval_height j \<le> m" using enum.prems by (simp add: n)
  from enum_right [OF enum(1,2) enum(4) [OF this]] show ?case unfolding n .
next
  case (item H v j ht js k)
  then show ?case by (simp add: item_ok_def)
next
  case (string H s)
  then obtain m where n: "n = Suc m" by (cases n) auto
  show ?case unfolding n by (rule string_right [OF e])
next
  case (bare_enum obj H)
  then obtain m where n: "n = Suc m" by (cases n) auto
  show ?case unfolding n by (rule bare_enum_right [OF bare_enum(1,2)])
next
  case unsupported
  then obtain m where n: "n = Suc m" by (cases n) auto
  show ?case unfolding n by (rule unsupported_right)
next
  case null
  then obtain m where n: "n = Suc m" by (cases n) auto
  show ?case unfolding n by (rule scalar_right(1) [OF e])
next
  case (bool H b)
  then obtain m where n: "n = Suc m" by (cases n) auto
  show ?case unfolding n by (rule scalar_right(2) [OF e])
next
  case (long H i)
  then obtain m where n: "n = Suc m" by (cases n) auto
  show ?case unfolding n by (rule scalar_right(3) [OF e])
next
  case (double H x)
  then obtain m where n: "n = Suc m" by (cases n) auto
  show ?case unfolding n by (rule scalar_right(4) [OF e])
next
  case no_items
  then show ?case by simp
qed

end
