(* ===== verification/EncodeTotal.thy ===== *)
theory EncodeTotal
  imports EncodeRel
begin

text \<open>
  The encoder returns. The locale \<open>encoder_total\<close> adds to \<open>encoder_relation\<close> an invariant under which the recursive
  call returns; then every function around it does. It is interpreted for the counted frames
  (without a native stack limit) and for the reference cells (with one).
\<close>

definition returned :: "dw_res \<Rightarrow> bool" where
  "returned r \<longleftrightarrow> r \<noteq> None"

lemma returned_simps [simp]: "returned (Some p)" "returned (dw_finally f r) = returned r" "\<not> returned None"
  by (simp_all add: returned_def dw_finally_def)

locale encoder_total = encoder_relation +
  fixes I :: "fastjson_dw_ctx \<Rightarrow> bool"
  assumes I_Q: "Q ok s s' \<Longrightarrow> I s \<Longrightarrow> I s'"
    and I_D: "D ok s s' \<Longrightarrow> I s \<Longrightarrow> I s'"
    and I_protect: "I s \<Longrightarrow> I (dw_protect f s)"
    and I_indent: "I s \<Longrightarrow> I (s\<lparr>indent_level := i\<rparr>)"
begin

lemma I_buf: "I s \<Longrightarrow> I (s\<lparr>dw_buf := b\<rparr>)"
  by (rule I_Q [OF Q_buf])

lemma I_append: "I s \<Longrightarrow> I (dw_append t s)"
  by (simp add: dw_append_def I_buf)

lemma I_separator: "I s \<Longrightarrow> I (dw_separator e first s)"
  by (rule I_Q [OF separator_rel])

lemma I_release: "I s \<Longrightarrow> I (dw_release e v s)"
  by (rule I_Q [OF Q_release [OF Q_refl]])

lemma then_returned:
  assumes "I s" and "returned r" and "res_rel Q s r \<or> res_rel D s r" and "\<And>s'. I s' \<Longrightarrow> returned (f s')"
  shows "returned (dw_then r f)"
proof (cases r)
  case (Some p)
  with assms show ?thesis by (cases p) (auto simp: dw_then_def intro: I_Q I_D)
qed (use assms in simp)

lemma else_returned:
  assumes "I s" and "returned r" and "res_rel Q s r" and "\<And>s'. I s' \<Longrightarrow> returned (g s')" and "\<And>s'. I s' \<Longrightarrow> returned (h s')"
  shows "returned (dw_else r g h)"
proof (cases r)
  case (Some p)
  with assms show ?thesis by (cases p) (auto simp: dw_else_def intro: I_Q)
qed (use assms in simp)

lemma after_failure_returned: "returned (disc s) \<Longrightarrow> returned (dw_after_failure disc s)"
  by (auto simp: dw_after_failure_def returned_def split: option.splits)

subsection \<open>The discard traversal\<close>

lemma discard_range_returned:
  assumes d: "\<And>v d s. I s \<Longrightarrow> returned (disc v d s)" "\<And>v d s. res_rel D s (disc v d s)"
  shows "I s \<Longrightarrow> returned (dw_discard_array_range e disc ht d as_list s)"
proof (induction ht arbitrary: s)
  case (Cons kv ht)
  obtain k v where kv: "kv = (k, v)" by fastforce
  have key: "res_rel D s (Some (if as_list then (True, s)
      else case k of KStr k \<Rightarrow> dw_discard_string e k s | KInt _ \<Rightarrow> (True, s)))" for s
    using discard_string_rel D_refl by (simp split: zkey.split)
  show ?case
    unfolding kv dw_discard_array_range.simps
    by (rule then_returned [OF Cons.prems _ disjI2 [OF key]])
      (simp, rule then_returned [OF _ d(1) disjI2 [OF d(2)]], assumption+, rule Cons.IH)
qed simp

lemma discard_array_returned:
  assumes d: "\<And>v d s. I s \<Longrightarrow> returned (disc v d s)" "\<And>v d s. res_rel D s (disc v d s)"
  shows "I s \<Longrightarrow> returned (dw_discard_array e disc ident ht d force lvl s)"
  using discard_range_returned [where disc = disc, OF d] I_protect
  by (auto simp: dw_discard_array_def Let_def split: option.split)

lemma discard_props_range_returned:
  assumes d: "\<And>v d s. I s \<Longrightarrow> returned (disc v d s)" "\<And>v d s. res_rel D s (disc v d s)"
  shows "I s \<Longrightarrow> returned (dw_discard_object_props_range e disc props d s)"
proof (induction props arbitrary: s)
  case (Cons ki props)
  obtain key item where ki: "ki = (key, item)" by fastforce
  have key: "res_rel D s (Some (case key of KStr k \<Rightarrow> dw_discard_string e k s | KInt _ \<Rightarrow> (True, s)))" for s
    using discard_string_rel D_refl by (simp split: zkey.split)
  have "returned (dw_discard_object_property e disc key item d s)"
    unfolding dw_discard_object_property_def
    by (auto split: option.split intro!: then_returned [OF Cons.prems _ disjI2 [OF key]] d(1))
  then show ?case
    unfolding ki dw_discard_object_props_range.simps
    by (rule then_returned [OF Cons.prems _ disjI2 [OF discard_property_rel [where disc = disc, OF d(2)]]]) (rule Cons.IH)
qed simp

lemma discard_props_returned:
  assumes d: "\<And>v d s. I s \<Longrightarrow> returned (disc v d s)" "\<And>v d s. res_rel D s (disc v d s)"
  shows "I s \<Longrightarrow> returned (dw_discard_object_props e disc obj d s)"
proof -
  assume s: "I s"
  obtain props w where g: "get_properties e obj (world s) = (props, w)" by fastforce
  have "I (s\<lparr>world := w\<rparr>)" using I_D [OF D_properties [of s obj] s] by (simp add: g)
  then show ?thesis
    using discard_props_range_returned [where disc = disc, OF d] I_protect
    by (auto simp: dw_discard_object_props_def dw_get_properties_def g Let_def split: option.split)
qed

lemma discard_inner_returned:
  assumes d: "\<And>v d s. I s \<Longrightarrow> returned (disc v d s)" "\<And>v d s. res_rel D s (disc v d s)"
  shows "I s \<Longrightarrow> returned (dw_discard_zval_inner e disc v d lvl s)"
  using discard_array_returned [where disc = disc, OF d] discard_props_returned [where disc = disc, OF d] d(1)
  by (cases v) (auto simp: dw_discard_zval_inner_def dw_discard_object_def split: option.split)

subsection \<open>The encoder\<close>

lemma emit_elements_returned:
  assumes c: "\<And>v d s. I s \<Longrightarrow> returned (enc v d s)" "\<And>v d s. res_rel Q s (enc v d s)"
    and d: "\<And>v d s. I s \<Longrightarrow> returned (disc v d s)" "\<And>v d s. res_rel D s (disc v d s)"
  shows "I s \<Longrightarrow> returned (dw_emit_elements e enc disc as_list ht d first s)"
proof (induction ht arbitrary: s first)
  case (Cons kv ht)
  obtain k v where kv: "kv = (k, v)" by fastforce
  define s1 where "s1 = dw_separator e first s"
  have s1: "I s1" unfolding s1_def by (rule I_separator [OF Cons.prems])
  have key: "res_rel Q s1 (Some (if as_list then (True, s1) else dw_emit_object_key e k s1))"
    using key_rel Q_refl by simp
  let ?one = "dw_then (Some (if as_list then (True, s1) else dw_emit_object_key e k s1)) (enc (zval_deref (world s) v) d)"
  have one: "returned ?one" "res_rel Q s1 ?one"
    by (rule then_returned [OF s1 _ disjI1 [OF key]], simp, erule c(1)) (rule then_rel [OF key], rule c(2))
  show ?case
    unfolding kv dw_emit_elements.simps Let_def s1_def [symmetric]
    by (rule else_returned [OF s1 one], erule Cons.IH, rule after_failure_returned)
      (rule discard_range_returned [where disc = disc, OF d])
qed simp

lemma emit_array_returned:
  assumes c: "\<And>v d s. I s \<Longrightarrow> returned (enc v d s)" "\<And>v d s. res_rel Q s (enc v d s)"
    and d: "\<And>v d s. I s \<Longrightarrow> returned (disc v d s)" "\<And>v d s. res_rel D s (disc v d s)"
    and s: "I s"
  shows "returned (dw_emit_array e enc disc i ht d force lvl s)"
proof (cases "stack_overflowed e lvl \<or> d \<le> 0 \<or> array_flag i \<inter> guards (world s) \<noteq> {}")
  case True
  then show ?thesis unfolding dw_emit_array_def guarded_flag by auto
next
  case False
  have "I (flagged i s)" using s I_protect by (cases i) (simp_all add: flagged_def)
  then have s1: "I (deeper b (dw_append t (flagged i s)))" for b t
    using I_indent I_append by (cases b) (simp_all add: deeper_def)
  have el: "returned (dw_emit_elements e enc disc al ht (d - 1) True s)" if "I s" for al s
    by (rule emit_elements_returned [where enc = enc and disc = disc]) (rule c d that; assumption?)+
  have "dw_emit_array e enc disc i ht d force lvl s =
    dw_else (dw_emit_elements e enc disc (\<not> force \<and> array_is_list ht) ht (d - 1) True
        (deeper (pretty_print s \<and> ht \<noteq> []) (dw_append (if \<not> force \<and> array_is_list ht then [0x5B] else [0x7B]) (flagged i s))))
      (\<lambda>s'. Some (True, array_closed e i (\<not> force \<and> array_is_list ht) (pretty_print s \<and> ht \<noteq> []) s'))
      (\<lambda>s'. Some (False, array_left i (pretty_print s \<and> ht \<noteq> []) s'))"
    using False by (intro emit_array_walk) auto
  also have "returned \<dots>"
    by (rule else_returned [OF s1 el [OF s1] emit_elements_rel [where enc = enc and disc = disc, OF c(2) d(2)]]) simp_all
  finally show ?thesis .
qed

lemma emit_props_returned:
  assumes c: "\<And>v d s. I s \<Longrightarrow> returned (enc v d s)" "\<And>v d s. res_rel Q s (enc v d s)"
    and d: "\<And>v d s. I s \<Longrightarrow> returned (disc v d s)" "\<And>v d s. res_rel D s (disc v d s)"
  shows "I s \<Longrightarrow> returned (dw_emit_props e enc disc obj props d first body s)"
proof (induction props arbitrary: s first body)
  case (Cons ki props)
  obtain key item where ki: "ki = (key, item)" by fastforce
  obtain h s1 where rd: "dw_read_property e obj item s = (h, s1)" by fastforce
  have s1: "I s1"
    using read_property_rel [where obj = obj and item = item and s = s] rd Cons.prems by (auto split: option.splits intro: I_Q)
  define s3 where "s3 = dw_separator e first (if pretty_print s1 \<and> \<not> body then s1\<lparr>indent_level := indent_level s1 + 1\<rparr> else s1)"
  have s3: "I s3" unfolding s3_def by (rule I_separator) (simp add: s1 I_indent)
  have rel: "I s \<Longrightarrow> I (case item of PropHook _ _ \<Rightarrow> dw_release e v s | _ \<Rightarrow> s)" for v s
    by (cases item) (simp_all add: I_release)
  have one: "returned (dw_then (Some (dw_emit_object_key e key s3)) (enc v d))"
      "res_rel Q s3 (dw_then (Some (dw_emit_object_key e key s3)) (enc v d))" for v
    by (rule then_returned [OF s3 _ disjI1 [OF key_rel]], simp, erule c(1)) (rule then_rel [OF key_rel], rule c(2))
  have "returned (dw_else (dw_then (Some (dw_emit_object_key e key s3)) (enc v d))
      (\<lambda>s. dw_emit_props e enc disc obj props d False body' (case item of PropHook _ _ \<Rightarrow> dw_release e x s | _ \<Rightarrow> s))
      (\<lambda>s. dw_finally f (dw_after_failure (dw_discard_object_props_range e disc props d)
        (case item of PropHook _ _ \<Rightarrow> dw_release e x s | _ \<Rightarrow> s))))" for v x body' f
    by (rule else_returned [OF s3 one])
      (simp_all add: Cons.IH rel after_failure_returned discard_props_range_returned [where disc = disc, OF d])
  then show ?case
    using Cons.IH [OF Cons.prems] Cons.IH [OF s1]
    by (cases h; cases "the h") (simp_all add: ki rd Let_def s3_def)
qed simp

lemma emit_object_props_returned:
  assumes c: "\<And>v d s. I s \<Longrightarrow> returned (enc v d s)" "\<And>v d s. res_rel Q s (enc v d s)"
    and d: "\<And>v d s. I s \<Longrightarrow> returned (disc v d s)" "\<And>v d s. res_rel D s (disc v d s)"
  shows "I s \<Longrightarrow> returned (dw_emit_object_props e enc disc obj d s)"
proof -
  assume s: "I s"
  obtain props w where g: "get_properties e obj (world s) = (props, w)" by fastforce
  have "I (s\<lparr>world := w\<rparr>)" using I_Q [OF Q_properties [of s obj] s] by (simp add: g)
  then show ?thesis
    using emit_props_returned [where enc = enc and disc = disc, OF c d] I_protect I_append
    by (auto simp: dw_emit_object_props_def dw_get_properties_def g Let_def split: option.split)
qed

lemma emit_object_returned:
  assumes c: "\<And>v d s. I s \<Longrightarrow> returned (enc v d s)" "\<And>v d s. res_rel Q s (enc v d s)"
    and d: "\<And>v d s. I s \<Longrightarrow> returned (disc v d s)" "\<And>v d s. res_rel D s (disc v d s)"
    and s: "I s"
  shows "returned (dw_emit_object e enc disc obj d lvl s)"
proof -
  have props: "returned (dw_emit_object_props e enc disc obj d s)" if "I s" for d s
    by (rule emit_object_props_returned [where enc = enc and disc = disc]) (rule c d that; assumption?)+
  have "returned (dw_emit_jsonserializable e enc disc obj d s)"
  proof (cases "dw_guarded (GuardJson obj) s")
    case free: False
    let ?p = "dw_protect (GuardJson obj) s"
    obtain retval w where call: "json_serialize e obj (world ?p) = (retval, w)" by fastforce
    have w: "I (?p\<lparr>world := w\<rparr>)" using I_Q [OF Q_serialize [of ?p obj] I_protect [OF s]] by (simp add: call)
    have "Q True ?p (?p\<lparr>world := w\<rparr>)" using Q_serialize [of ?p obj] by (simp add: call)
    from I_Q [OF Q_flag [OF free this] s]
    have "I (dw_unprotect (GuardJson obj) (?p\<lparr>world := w\<rparr>))" .
    with w show ?thesis
      using free props c(1) by (simp add: dw_emit_jsonserializable_def call Let_def)
  qed (simp add: dw_emit_jsonserializable_def)
  then show ?thesis
    using props [OF s] c(1) [OF s] by (simp add: dw_emit_object_def split: option.split)
qed

lemma encode_inner_returned:
  assumes c: "\<And>v d s. I s \<Longrightarrow> returned (enc v d s)" "\<And>v d s. res_rel Q s (enc v d s)"
    and d: "\<And>v d s. I s \<Longrightarrow> returned (disc v d s)" "\<And>v d s. res_rel D s (disc v d s)"
    and s: "I s"
  shows "returned (dw_encode_zval_inner e enc disc v d lvl s)"
proof -
  have "returned (dw_emit_array e enc disc i ht d force lvl s)" for i ht force
    by (rule emit_array_returned [where enc = enc and disc = disc]) (rule c d s; assumption?)+
  moreover have "returned (dw_emit_object e enc disc obj d lvl s)" for obj
    by (rule emit_object_returned [where enc = enc and disc = disc]) (rule c d s; assumption?)+
  ultimately show ?thesis
    using c(1) [OF s] by (cases v) (auto simp: dw_encode_zval_inner_def)
qed

end

subsection \<open>Without a native stack limit: 1024 frames\<close>

interpretation frames: encoder_total e "\<lambda>_ s s'. call_depth s' = call_depth s" "\<lambda>_ s s'. call_depth s' = call_depth s"
    "\<lambda>s. call_depth s = c" for e c
  by unfold_locales
    (auto simp: dw_set_error_def dw_release_def dw_release_props_def dw_protect_def dw_unprotect_def dw_append_def)

lemma counted_frames: "returned (dw_counted e f s) \<longleftrightarrow>
    (if native_stack_limit (runtime e) then returned (f s)
     else 1024 \<le> call_depth s \<or> returned (f (s\<lparr>call_depth := call_depth s + 1\<rparr>)))"
  by (simp add: dw_counted_def)

lemma frames_returned:
  assumes nl: "\<not> native_stack_limit (runtime e)"
  shows "1025 \<le> n + c \<Longrightarrow> c \<le> 1024 \<Longrightarrow> call_depth s = c \<Longrightarrow>
    returned (dw_encode_zval e n lvl v d s) \<and> returned (dw_discard_zval e n lvl v d s)"
proof (induction n arbitrary: c lvl v d s)
  case (Suc n)
  show ?case
  proof (cases "1024 \<le> c")
    case True
    then show ?thesis using nl Suc.prems by (simp add: counted_frames)
  next
    case False
    let ?s = "s\<lparr>call_depth := call_depth s + 1\<rparr>"
    have ih: "returned (dw_encode_zval e n (lvl + 1) v d t)" "returned (dw_discard_zval e n (lvl + 1) v d t)"
      if "call_depth t = c + 1" for v d t
      using Suc.IH [of "c + 1" t] Suc.prems False that by simp_all
    have "returned (dw_encode_zval_inner e (dw_encode_zval e n (lvl + 1)) (dw_discard_zval e n (lvl + 1)) v d lvl ?s)"
      by (rule frames.encode_inner_returned [where c = "c + 1"], erule ih(1), rule frames.encode_rel,
        erule ih(2), rule frames.discard_rel) (simp add: Suc.prems(3))
    moreover have "returned (dw_discard_zval_inner e (dw_discard_zval e n (lvl + 1)) v d lvl ?s)"
      by (rule frames.discard_inner_returned [where c = "c + 1"], erule ih(2), rule frames.discard_rel) (simp add: Suc.prems(3))
    ultimately show ?thesis using nl by (simp add: counted_frames)
  qed
qed simp

subsection \<open>With a native stack limit\<close>

text \<open>A reference cell never holds a reference, and user code keeps it so.\<close>

definition refs_flat :: "php_world \<Rightarrow> bool" where
  "refs_flat w \<longleftrightarrow> (\<forall>r r'. ref_cells w r \<noteq> PReference r')"

definition user_keeps_cells :: "engine \<Rightarrow> bool" where
  "user_keeps_cells e \<longleftrightarrow> (\<forall>w obj info v props. refs_flat w \<longrightarrow>
    refs_flat (snd (json_serialize e obj w)) \<and> refs_flat (snd (get_properties e obj w)) \<and>
    refs_flat (snd (read_hook e obj info w)) \<and> refs_flat (zval_ptr_dtor e v w) \<and> refs_flat (zend_release_properties e props w))"

interpretation cells: encoder_total e
    "\<lambda>_ s s'. user_keeps_cells e \<longrightarrow> refs_flat (world s) \<longrightarrow> refs_flat (world s')"
    "\<lambda>_ s s'. user_keeps_cells e \<longrightarrow> refs_flat (world s) \<longrightarrow> refs_flat (world s')"
    "\<lambda>s. user_keeps_cells e \<and> refs_flat (world s)" for e
  by unfold_locales
    (auto simp: user_keeps_cells_def refs_flat_def dw_set_error_def dw_release_def dw_release_props_def
      dw_protect_def dw_unprotect_def dw_append_def)

lemma overflowed_returned:
  "stack_overflowed e lvl \<Longrightarrow> returned (dw_emit_array e enc disc i ht d force lvl s)"
  "stack_overflowed e lvl \<Longrightarrow> returned (dw_emit_object e enc disc obj d lvl s)"
  "stack_overflowed e lvl \<Longrightarrow> returned (dw_discard_array e disc i ht d force lvl s)"
  "stack_overflowed e lvl \<Longrightarrow> returned (dw_discard_object e disc obj d lvl s)"
  by (simp_all add: dw_emit_array_def dw_emit_object_def dw_discard_array_def dw_discard_object_def)

lemma stack_returned:
  assumes nl: "native_stack_limit (runtime e)" and L: "\<And>l. L \<le> l \<Longrightarrow> \<not> stack_ok (plat e) l" and u: "user_keeps_cells e"
  shows "2 * (L - lvl) + (case v of PReference _ \<Rightarrow> 2 | _ \<Rightarrow> 1) \<le> n \<Longrightarrow> refs_flat (world s) \<Longrightarrow>
    returned (dw_encode_zval e n lvl v d s) \<and> returned (dw_discard_zval e n lvl v d s)"
proof (induction n arbitrary: lvl v d s)
  case 0
  then show ?case by (cases v) simp_all
next
  case (Suc n)
  have "returned (dw_encode_zval_inner e (dw_encode_zval e n (lvl + 1)) (dw_discard_zval e n (lvl + 1)) v d lvl s) \<and>
      returned (dw_discard_zval_inner e (dw_discard_zval e n (lvl + 1)) v d lvl s)"
  proof (cases "\<exists>r. v = PReference r")
    case True
    then obtain r where r: "v = PReference r" by blast
    have "\<forall>r'. ref_cells (world s) r \<noteq> PReference r'" using Suc.prems(2) by (simp add: refs_flat_def)
    then have one: "(case ref_cells (world s) r of PReference _ \<Rightarrow> 2 | _ \<Rightarrow> 1) = (1 :: nat)" by (simp split: pval.split)
    show ?thesis
      using Suc.IH [of "lvl + 1" "ref_cells (world s) r" s d] Suc.prems r one
      by (simp add: dw_encode_zval_inner_def dw_discard_zval_inner_def)
  next
    case False
    then have n: "2 * (L - lvl) \<le> n" using Suc.prems(1) by (cases v) simp_all
    show ?thesis
    proof (cases "L \<le> lvl")
      case True
      then have "stack_overflowed e lvl" using nl L by (simp add: stack_overflowed_def)
      then show ?thesis
        using False overflowed_returned [of e lvl]
        by (cases v) (simp_all add: dw_encode_zval_inner_def dw_discard_zval_inner_def)
    next
      case lt: False
      have ih: "returned (dw_encode_zval e n (lvl + 1) x d t)" "returned (dw_discard_zval e n (lvl + 1) x d t)"
        if "refs_flat (world t)" for x d t
      proof -
        have "2 * (L - (lvl + 1)) + (case x of PReference _ \<Rightarrow> 2 | _ \<Rightarrow> 1) \<le> n"
          using n lt by (cases x) simp_all
        then show "returned (dw_encode_zval e n (lvl + 1) x d t)" "returned (dw_discard_zval e n (lvl + 1) x d t)"
          using Suc.IH that by blast+
      qed
      have "returned (dw_encode_zval_inner e (dw_encode_zval e n (lvl + 1)) (dw_discard_zval e n (lvl + 1)) v d lvl s)"
        by (rule cells.encode_inner_returned) (use ih u Suc.prems(2) cells.encode_rel cells.discard_rel in blast)+
      moreover have "returned (dw_discard_zval_inner e (dw_discard_zval e n (lvl + 1)) v d lvl s)"
        by (rule cells.discard_inner_returned) (use ih u Suc.prems(2) cells.discard_rel in blast)+
      ultimately show ?thesis ..
    qed
  qed
  then show ?case using nl by (simp add: counted_frames)
qed

definition enough_fuel :: "engine \<Rightarrow> nat \<Rightarrow> bool" where
  "enough_fuel e n \<longleftrightarrow>
    (if native_stack_limit (runtime e) then \<exists>L. (\<forall>l. L \<le> l \<longrightarrow> \<not> stack_ok (plat e) l) \<and> 2 * L + 2 \<le> n
     else 1025 \<le> n)"

lemma encode_returned:
  assumes "enough_fuel e n" and "native_stack_limit (runtime e) \<Longrightarrow> user_keeps_cells e \<and> refs_flat (world s)" and "call_depth s = 0"
  shows "returned (dw_encode_zval e n 0 v d s)"
proof (cases "native_stack_limit (runtime e)")
  case True
  then obtain L where "\<forall>l. L \<le> l \<longrightarrow> \<not> stack_ok (plat e) l" "2 * L + 2 \<le> n" using assms(1) by (auto simp: enough_fuel_def)
  then show ?thesis
    using stack_returned [OF True, of L 0 v n s d] assms(2) True by (cases v) auto
next
  case False
  then show ?thesis using frames_returned [OF False, of n 0 s 0 v d] assms by (simp add: enough_fuel_def)
qed

end
