(* ===== verification/DecodeCorrect.thy ===== *)
theory DecodeCorrect
  imports Decode
begin

text \<open>
  What the entry points of Decode return and leave behind: the outcome of decoding in both error modes, and
  the other entry points reduced to it.
\<close>

definition depth_state :: fastjson_error_state where
  "depth_state = fastjson_error_state_set FASTJSON_ERROR_DEPTH (Some ''Maximum stack depth exceeded'')"

definition name_state :: fastjson_error_state where
  "name_state = fastjson_error_state_set FASTJSON_ERROR_INVALID_PROPERTY_NAME (Some ''The decoded property name is invalid'')"

lemma error_state_sel [simp]:
  "es_code (fastjson_error_state_set c m) = c" "es_msg (fastjson_error_state_set c m) = m"
  by (simp_all add: fastjson_error_state_set_def)

text \<open>A value that can be decoded with the given arguments, and how decoding it fails otherwise.\<close>

definition decodable :: "php \<Rightarrow> bool \<Rightarrow> int \<Rightarrow> zend_long \<Rightarrow> yyval \<Rightarrow> bool" where
  "decodable p use_assoc depth flags v \<longleftrightarrow>
    \<not> too_deep p 0 (fastjson_effective_walk_depth p depth) v \<and>
    (use_assoc \<or> names_ok (FASTJSON_HAS_UTF8_HANDLING_FLAG flags) flags v)"

definition decode_failure :: "php \<Rightarrow> bool \<Rightarrow> int \<Rightarrow> zend_long \<Rightarrow> yyval \<Rightarrow> fastjson_error_state \<Rightarrow> bool" where
  "decode_failure p use_assoc depth flags v e \<longleftrightarrow>
    too_deep p 0 (fastjson_effective_walk_depth p depth) v \<and> e = depth_state \<or>
    \<not> use_assoc \<and> \<not> names_ok (FASTJSON_HAS_UTF8_HANDLING_FLAG flags) flags v \<and> e = name_state"

definition decoded :: "php \<Rightarrow> bool \<Rightarrow> zend_long \<Rightarrow> yyval \<Rightarrow> zval" where
  "decoded p use_assoc flags v = zval_of p (FASTJSON_HAS_UTF8_HANDLING_FLAG flags) use_assoc flags v"

lemma push_state [simp]:
  "fst (fj_key_share_push n g) = key_share g" "last_err (snd (fj_key_share_push n g)) = last_err g"
  by (simp_all add: fj_key_share_push_def)

lemma pop_state [simp]:
  "key_share (snd (fj_key_share_pop prev g)) = prev" "last_err (snd (fj_key_share_pop prev g)) = last_err g"
  by (simp_all add: fj_key_share_pop_def split: option.split)

lemma error_setters [simp]:
  "key_share (fastjson_clear_error g) = key_share (g :: fj_request_globals)"
  "key_share (fastjson_set_error_code c m g) = key_share g"
  "key_share (fastjson_set_read_error j e g) = key_share g"
  "last_err (fastjson_clear_error g) = fastjson_error_state_clear"
  "last_err (fastjson_set_error_code c m g) = fastjson_error_state_set c (Some m)"
  by (simp_all add: clear_is_state set_code_is_state fastjson_set_read_error_def Let_def)

lemma throw_current [simp]:
  "es_msg (last_err g) = Some m \<Longrightarrow> fastjson_throw_current_error fb (Some s) g =
    (JsonException m (es_code (last_err g)), g\<lparr>last_err := s\<rparr>)"
  by (simp add: fastjson_throw_current_error_def)

lemma throw_read [simp]:
  "fastjson_throw_read_error err (Some s) g =
    (JsonException (re_msg err) (fastjson_translate_read_code (re_code err)), g\<lparr>last_err := s\<rparr>)"
  by (simp add: fastjson_throw_read_error_def)

lemma walk_globals:
  obtains (ok) z g' where "fastjson_yyval_to_zval p san assoc flags v lvl d g = Inr (z, g')"
      "\<not> too_deep p lvl d v" "assoc \<or> names_ok san flags v" "z = zval_of p san assoc flags v" "last_err g' = last_err g"
  | (fail) g' where "fastjson_yyval_to_zval p san assoc flags v lvl d g = Inl g'"
      "too_deep p lvl d v \<and> last_err g' = depth_state \<or> \<not> assoc \<and> \<not> names_ok san flags v \<and> last_err g' = name_state"
  using walk_cases [where p = p and san = san and assoc = assoc and flags = flags and v = v and lvl = lvl and d = d and g = g]
  by (auto simp: walk_error_states depth_state_def name_state_def split: sum.splits prod.splits)

text \<open>The outcome of a walk does not depend on the globals it starts from.\<close>

definition same_outcome :: "fj_request_globals + 'r \<times> fj_request_globals
    \<Rightarrow> fj_request_globals + 'r \<times> fj_request_globals \<Rightarrow> bool" where
  "same_outcome r r' \<longleftrightarrow>
    (case (r, r') of (Inl g, Inl g') \<Rightarrow> last_err g = last_err g' | (Inr (x, _), Inr (y, _)) \<Rightarrow> x = y | _ \<Rightarrow> False)"

lemma same_outcome_simps [simp]:
  "same_outcome (Inl g) (Inl g') \<longleftrightarrow> last_err g = last_err g'"
  "same_outcome (Inr (x, g)) (Inr (y, g')) \<longleftrightarrow> x = y"
  by (simp_all add: same_outcome_def)

lemma same_outcome_bind:
  assumes "same_outcome r r'" "\<And>x g g'. r = Inr (x, g) \<Longrightarrow> same_outcome (f (x, g)) (f' (x, g'))"
  shows "same_outcome (bind_res r f) (bind_res r' f')"
proof (cases r)
  case (Inl g)
  then show ?thesis using assms(1) by (cases r') (auto simp: same_outcome_def)
next
  case (Inr q)
  then obtain x g g' where "r = Inr (x, g)" "r' = Inr (x, g')"
    using assms(1) by (cases q; cases r') (auto simp: same_outcome_def)
  then show ?thesis using assms(2) by simp
qed

lemma insert_array_member_step:
  obtains c c' where "insert_array_member p k child ht g = (hash_update (array_key p k) child ht, g\<lparr>key_share := c\<rparr>)"
    "insert_array_member p k child ht g' = (hash_update (array_key p k) child ht, g'\<lparr>key_share := c'\<rparr>)"
  using insert_array_member_eq by metis

lemma walk_independent:
  "same_outcome (fastjson_yyval_to_zval p san assoc flags v lvl d g) (fastjson_yyval_to_zval p san assoc flags v lvl d g')"
  "same_outcome (walk_items p san assoc flags items lvl d zs g) (walk_items p san assoc flags items lvl d zs g')"
  "same_outcome (walk_assoc p san flags ms lvl d ht g) (walk_assoc p san flags ms lvl d ht g')"
  "same_outcome (walk_props p san flags ms lvl d ht' g) (walk_props p san flags ms lvl d ht' g')"
proof (induction p san assoc flags v lvl d g and p san assoc flags items lvl d zs g and p san flags ms lvl d ht g
    and p san flags ms lvl d ht' g arbitrary: g' and g' and g' and g'
    rule: fastjson_yyval_to_zval_walk_items_walk_assoc_walk_props.induct)
  case (1 p san assoc flags v lvl d g)
  show ?case
    by (subst (1 2) fastjson_yyval_to_zval.simps)
      (auto simp: walk_error_states split: yyval.split intro!: same_outcome_bind 1 [simplified])
next
  case (3 p san assoc flags item items lvl d zs g)
  show ?case unfolding walk_items.simps by (rule same_outcome_bind [OF 3(1)]) (use 3(2) in auto)
next
  case (5 p san flags key vval members lvl d ht g)
  show ?case unfolding walk_assoc.simps Let_def
  proof (rule same_outcome_bind [OF 5(1) [OF refl]])
    fix x h h' assume r: "fastjson_yyval_to_zval p san True flags vval lvl d g = Inr (x, h)"
    let ?k = "walk_string san flags (fst key) (snd key)"
    obtain c c' where c: "insert_array_member p ?k x ht h = (hash_update (array_key p ?k) x ht, h\<lparr>key_share := c\<rparr>)"
      "insert_array_member p ?k x ht h' = (hash_update (array_key p ?k) x ht, h'\<lparr>key_share := c'\<rparr>)"
      by (rule insert_array_member_step)
    from 5(2) [OF refl r refl c(1) [symmetric] refl, of "h'\<lparr>key_share := c'\<rparr>"] c
    show "same_outcome
        (case (x, h) of (child, g) \<Rightarrow> case insert_array_member p ?k child ht g of (ht, g) \<Rightarrow> walk_assoc p san flags members lvl d ht g)
        (case (x, h') of (child, g) \<Rightarrow> case insert_array_member p ?k child ht g of (ht, g) \<Rightarrow> walk_assoc p san flags members lvl d ht g)"
      by simp
  qed
next
  case (7 p san flags key vval members lvl d ht g)
  let ?k = "walk_string san flags (fst key) (snd key)"
  show ?case
  proof (cases "?k \<noteq> [] \<and> hd ?k = 0")
    case False
    show ?thesis unfolding walk_props.simps Let_def if_not_P [OF False]
    proof (rule same_outcome_bind [OF 7(1) [OF refl False]])
      fix x h h' assume r: "fastjson_yyval_to_zval p san False flags vval lvl d g = Inr (x, h)"
      obtain c c' where c: "insert_property p ?k x ht h = (hash_update ?k x ht, h\<lparr>key_share := c\<rparr>)"
        "insert_property p ?k x ht h' = (hash_update ?k x ht, h'\<lparr>key_share := c'\<rparr>)"
        using insert_property_eq by metis
      from 7(2) [OF refl False r refl c(1) [symmetric] refl, of "h'\<lparr>key_share := c'\<rparr>"] c
      show "same_outcome
          (case (x, h) of (child, g) \<Rightarrow> case insert_property p ?k child ht g of (ht, g) \<Rightarrow> walk_props p san flags members lvl d ht g)
          (case (x, h') of (child, g) \<Rightarrow> case insert_property p ?k child ht g of (ht, g) \<Rightarrow> walk_props p san flags members lvl d ht g)"
        by simp
    qed
  qed (simp add: walk_error_states)
qed simp_all

text \<open>The error of a failing decode: the first failure in document order.\<close>

definition decode_error :: "php \<Rightarrow> bool \<Rightarrow> int \<Rightarrow> zend_long \<Rightarrow> yyval \<Rightarrow> fastjson_error_state" where
  "decode_error p use_assoc depth flags v =
    (case fastjson_yyval_to_zval p (FASTJSON_HAS_UTF8_HANDLING_FLAG flags) use_assoc flags v 0
        (fastjson_effective_walk_depth p depth) \<lparr>last_err = fastjson_error_state_clear, key_share = None\<rparr> of
       Inl g \<Rightarrow> last_err g | Inr _ \<Rightarrow> fastjson_error_state_clear)"

lemma walk_doc_into_outcome:
  obtains (ok) g' where "fastjson_walk_doc_into p doc root use_assoc depth flags throw_mode saved g =
        (True, Returned (decoded p use_assoc flags root), g')"
      "decodable p use_assoc depth flags root" "last_err g' = last_err g" "key_share g' = key_share g"
  | (null) e g' where "fastjson_walk_doc_into p doc root use_assoc depth flags throw_mode saved g = (False, Returned ZNull, g')"
      "\<not> throw_mode" "decode_failure p use_assoc depth flags root e" "e = decode_error p use_assoc depth flags root" "last_err g' = e" "key_share g' = key_share g"
  | (thrown) e m g' where "fastjson_walk_doc_into p doc root use_assoc depth flags throw_mode saved g =
        (False, JsonException m (es_code e), g')"
      "throw_mode" "decode_failure p use_assoc depth flags root e" "e = decode_error p use_assoc depth flags root" "es_msg e = Some m" "last_err g' = saved"
      "key_share g' = key_share g"
proof -
  let ?g = "snd (fj_key_share_push (doc_dat_read doc) g)"
  let ?san = "FASTJSON_HAS_UTF8_HANDLING_FLAG flags" and ?d = "fastjson_effective_walk_depth p depth"
  have unf: "fastjson_walk_doc_into p doc root use_assoc depth flags throw_mode saved g =
      (case fastjson_yyval_to_zval p ?san use_assoc flags root 0 ?d ?g of
          Inl g' \<Rightarrow>
            let g' = snd (fj_key_share_pop (key_share g) g') in
            if throw_mode then
              (False, fastjson_throw_current_error (Some ''Maximum stack depth exceeded'') (Some saved) g')
            else (False, Returned ZNull, g')
        | Inr (z, g') \<Rightarrow> (True, Returned z, snd (fj_key_share_pop (key_share g) g')))"
    by (simp only: fastjson_walk_doc_into_def Let_def split_beta push_state)
  show thesis
  proof (cases rule: walk_globals [where p = p and san = ?san and assoc = use_assoc and flags = flags and v = root
        and lvl = 0 and d = ?d and g = ?g])
    case (ok z g')
    show thesis
      by (rule that(1) [of "snd (fj_key_share_pop (key_share g) g')"])
        (use ok in \<open>simp_all add: unf decodable_def decoded_def\<close>)
  next
    case (fail g')
    let ?e = "last_err g'" and ?g' = "snd (fj_key_share_pop (key_share g) g')"
    have f: "decode_failure p use_assoc depth flags root ?e" using fail(2) by (auto simp: decode_failure_def)
    have e: "?e = decode_error p use_assoc depth flags root"
      using walk_independent(1) [where p = p and san = ?san and assoc = use_assoc and flags = flags and v = root
          and lvl = 0 and d = ?d and g = ?g and g' = "\<lparr>last_err = fastjson_error_state_clear, key_share = None\<rparr>"] fail(1)
      by (simp add: decode_error_def same_outcome_def split: sum.splits)
    from f obtain m where m: "es_msg ?e = Some m"
      by (auto simp: decode_failure_def depth_state_def name_state_def)
    show thesis
    proof (cases throw_mode)
      case True
      have "fastjson_walk_doc_into p doc root use_assoc depth flags throw_mode saved g =
          (False, JsonException m (es_code ?e), ?g'\<lparr>last_err := saved\<rparr>)"
        unfolding unf using True m fail(1) by simp
      from that(3) [OF this True f e m] show thesis by simp
    next
      case False
      have "fastjson_walk_doc_into p doc root use_assoc depth flags throw_mode saved g = (False, Returned ZNull, ?g')"
        unfolding unf using False fail(1) by simp
      from that(2) [OF this False f e] show thesis by simp
    qed
  qed
qed

subsection \<open>The shared ends of the entry points\<close>

text \<open>How a parsed value ends: \<open>saved\<close> is the state put back by an exception.\<close>

definition value_outcome :: "php \<Rightarrow> bool \<Rightarrow> int \<Rightarrow> zend_long \<Rightarrow> bool \<Rightarrow> fastjson_error_state \<Rightarrow> fj_request_globals \<Rightarrow> yyval
    \<Rightarrow> zval php_result \<times> fj_request_globals \<Rightarrow> bool" where
  "value_outcome p use_assoc depth flags throw_mode saved g v q \<longleftrightarrow>
    (case q of (r, g') \<Rightarrow> key_share g' = key_share g \<and>
      (if decodable p use_assoc depth flags v then
         r = Returned (decoded p use_assoc flags v) \<and>
         last_err g' = (if throw_mode then last_err g else fastjson_error_state_clear)
       else if throw_mode then
         r = JsonException (the (es_msg (decode_error p use_assoc depth flags v))) (es_code (decode_error p use_assoc depth flags v)) \<and>
         last_err g' = saved
       else r = Returned ZNull \<and> last_err g' = decode_error p use_assoc depth flags v))"

text \<open>How a document that cannot be read ends.\<close>

definition read_outcome :: "bytes \<Rightarrow> yyjson_read_err \<Rightarrow> bool \<Rightarrow> fastjson_error_state \<Rightarrow> fj_request_globals
    \<Rightarrow> zval php_result \<times> fj_request_globals" where
  "read_outcome json err throw_mode saved g =
    (if throw_mode then (JsonException (re_msg err) (fastjson_translate_read_code (re_code err)), g\<lparr>last_err := saved\<rparr>)
     else (Returned ZNull, fastjson_set_read_error json err g))"

lemma decode_error_failure:
  "\<not> decodable p ua depth flags v \<Longrightarrow> decode_failure p ua depth flags v (decode_error p ua depth flags v)"
  by (cases rule: walk_globals [where p = p and san = "FASTJSON_HAS_UTF8_HANDLING_FLAG flags" and assoc = ua and flags = flags
        and v = v and lvl = 0 and d = "fastjson_effective_walk_depth p depth"
        and g = "\<lparr>last_err = fastjson_error_state_clear, key_share = None\<rparr>"])
    (auto simp: decode_error_def decodable_def decode_failure_def)

lemma failure_not_decodable: "decode_failure p ua depth flags v e \<Longrightarrow> \<not> decodable p ua depth flags v"
  by (auto simp: decode_failure_def decodable_def)

lemma finish_outcome:
  "value_outcome p use_assoc depth flags throw_mode saved g (doc_root doc)
    (fastjson_finish_decode p doc use_assoc depth flags throw_mode saved g)"
proof (cases rule: walk_doc_into_outcome [where p = p and doc = doc and root = "doc_root doc" and use_assoc = use_assoc
      and depth = depth and flags = flags and throw_mode = throw_mode and saved = saved and g = g])
  case (ok g')
  then show ?thesis by (simp add: value_outcome_def fastjson_finish_decode_def)
next
  case (null e g')
  then show ?thesis using failure_not_decodable [OF null(3)]
    by (auto simp: value_outcome_def fastjson_finish_decode_def)
next
  case (thrown e m g')
  then have "m = the (es_msg e)" by simp
  then show ?thesis using thrown failure_not_decodable [OF thrown(3)]
    by (auto simp: value_outcome_def fastjson_finish_decode_def)
qed

lemma value_outcome_share:
  "value_outcome p ua depth flags tm saved g v (r, g') \<Longrightarrow> key_share g' = key_share g"
  by (simp add: value_outcome_def)

lemma decode_into_outcome:
  "case fastjson_read_doc reader json flags of
     (None, err) \<Rightarrow>
       fastjson_decode_into p reader json use_assoc depth flags throw_mode saved g = read_outcome json err throw_mode saved g
   | (Some doc, _) \<Rightarrow> value_outcome p use_assoc depth flags throw_mode saved g (doc_root doc)
       (fastjson_decode_into p reader json use_assoc depth flags throw_mode saved g)"
  by (auto simp: fastjson_decode_into_def read_outcome_def finish_outcome split: prod.splits option.splits)

lemma init_state [simp]:
  "fastjson_throw_mode_init tm g = (last_err g, if tm then g else fastjson_clear_error g)"
  by (simp add: fastjson_throw_mode_init_def)

lemma set_read_error_clear [simp]:
  "fastjson_set_read_error j e (fastjson_clear_error g) = fastjson_set_read_error j e g"
  by (simp add: fastjson_set_read_error_def clear_is_state Let_def)

subsection \<open>Properties\<close>

text \<open>C2: decoding a string. A bad depth is a \<open>ValueError\<close>. A document the reader refuses gives the reader's error; a
  document that is too deep or, for objects, has a property name starting with a NUL byte gives that error; any other
  document gives its value. With \<open>THROW_ON_ERROR\<close> an error is a \<open>JsonException\<close> and the last-error state is left
  as it was on entry, on success too; without it an error is \<open>null\<close> and the last error names it, and success
  clears it. The enclosing walk's key cache is back in place.\<close>

theorem decode_result:
  "case fastjson_decode p reader json assoc depth flags g of
     (r, g') \<Rightarrow>
       let throw_mode = has_flag flags FASTJSON_DECODE_THROW_ON_ERROR;
           use_assoc = decode_use_assoc assoc flags
       in key_share g' = key_share g \<and>
          (if depth \<le> 0 \<or> INT_MAX < depth then
             (\<exists>m. r = ValueError 3 m) \<and> last_err g' = (if throw_mode then last_err g else fastjson_error_state_clear)
           else case fastjson_read_doc reader json flags of
             (None, err) \<Rightarrow>
               if throw_mode
               then r = JsonException (re_msg err) (fastjson_translate_read_code (re_code err)) \<and> last_err g' = last_err g
               else r = Returned ZNull \<and> g' = fastjson_set_read_error json err g
           | (Some doc, _) \<Rightarrow>
               if decodable p use_assoc depth flags (doc_root doc) then
                 r = Returned (decoded p use_assoc flags (doc_root doc)) \<and>
                 last_err g' = (if throw_mode then last_err g else fastjson_error_state_clear)
               else \<exists>e. decode_failure p use_assoc depth flags (doc_root doc) e \<and>
                 (if throw_mode then r = JsonException (the (es_msg e)) (es_code e) \<and> last_err g' = last_err g
                  else r = Returned ZNull \<and> last_err g' = e))"
proof -
  define tm where "tm = has_flag flags FASTJSON_DECODE_THROW_ON_ERROR"
  define ua where "ua = decode_use_assoc assoc flags"
  let ?g = "if tm then g else fastjson_clear_error g"
  show ?thesis
  proof (cases "depth \<le> 0 \<or> INT_MAX < depth")
    case True
    then show ?thesis
      by (auto simp: fastjson_decode_def FASTJSON_VALIDATE_DEPTH_def Let_def)
  next
    case False
    then have d: "fastjson_decode p reader json assoc depth flags g =
        fastjson_decode_into p reader json ua depth flags tm (last_err g) ?g"
      by (simp add: fastjson_decode_def FASTJSON_VALIDATE_DEPTH_def Let_def tm_def ua_def)
    obtain r g' where rg: "fastjson_decode p reader json assoc depth flags g = (r, g')" by (cases "fastjson_decode p reader json assoc depth flags g")
    obtain od err where rd: "fastjson_read_doc reader json flags = (od, err)" by (cases "fastjson_read_doc reader json flags")
    note o = decode_into_outcome [where reader = reader and json = json and flags = flags and p = p and use_assoc = ua
        and depth = depth and throw_mode = tm and saved = "last_err g" and g = ?g, unfolded d [symmetric] rg rd]
    show ?thesis
    proof (cases od)
      case None
      then have "(r, g') = read_outcome json err tm (last_err g) ?g" using o by simp
      then show ?thesis unfolding rg rd None Let_def tm_def [symmetric] ua_def [symmetric] using False
        by (cases tm) (simp_all add: read_outcome_def)
    next
      case (Some doc)
      then have "value_outcome p ua depth flags tm (last_err g) ?g (doc_root doc) (r, g')" using o by simp
      then show ?thesis unfolding rg rd Some Let_def tm_def [symmetric] ua_def [symmetric]
        using False decode_error_failure [of p ua depth flags "doc_root doc"]
        by (cases tm; cases "decodable p ua depth flags (doc_root doc)") (auto simp: value_outcome_def)
    qed
  qed
qed

subsection \<open>Files\<close>

lemma read_chunks_prefix:
  "list_all (\<lambda>c. c \<noteq> []) cs \<Longrightarrow> read_chunks eof (map Some cs) buf = (buf @ concat cs, \<not> eof)"
  by (induction cs arbitrary: buf) simp_all

lemma file_decode_parsed:
  fixes g :: fj_request_globals and flags :: zend_long and fl :: php_file
  defines "tm \<equiv> has_flag flags FASTJSON_DECODE_THROW_ON_ERROR"
  defines "h \<equiv> (if tm then g else fastjson_clear_error g)
      \<lparr>last_err := read_callbacks fl (open_callbacks fl (last_err (if tm then g else fastjson_clear_error g)))\<rparr>"
  assumes "\<not> (depth \<le> 0 \<or> INT_MAX < depth)" "opened fl = Some stream" "\<not> read_threw fl"
    "fastjson_read_stream stream = (contents, False)"
  shows "fastjson_file_decode p reader fl assoc depth flags g =
    (case fastjson_read_doc reader contents flags of
       (None, err) \<Rightarrow> read_outcome contents err tm (last_err g) h
     | (Some doc, err) \<Rightarrow>
         let (ret, g') = fastjson_finish_decode p doc (decode_use_assoc assoc flags) depth flags tm (last_err g) h
         in (ret, if tm \<and> (case ret of Returned _ \<Rightarrow> True | _ \<Rightarrow> False) then g'\<lparr>last_err := last_err g\<rparr> else g'))"
  using assms(3-6)
  by (simp add: fastjson_file_decode_def FASTJSON_VALIDATE_DEPTH_def Let_def tm_def h_def read_outcome_def
      cong: option.case_cong if_cong)



text \<open>A file that cannot be opened or read gives \<open>null\<close> and a syntax error in both error modes, and never a
  \<open>JsonException\<close>; an exception of a stream callback passes through and leaves the last-error state as the
  function found it, or cleared without \<open>THROW_ON_ERROR\<close>.\<close>

theorem file_decode_io_errors:
  "case fastjson_file_decode p reader file assoc depth flags g of
     (r, g') \<Rightarrow>
       let entry = (if has_flag flags FASTJSON_DECODE_THROW_ON_ERROR then last_err g else fastjson_error_state_clear)
       in if depth \<le> 0 \<or> INT_MAX < depth then (\<exists>m. r = ValueError 3 m) \<and> last_err g' = entry
          else case opened file of
            None \<Rightarrow>
              if open_threw file then r = HostException \<and> last_err g' = entry
              else r = Returned ZNull \<and>
                last_err g' = fastjson_error_state_set FASTJSON_ERROR_SYNTAX (Some ''Failed to open file for reading'')
          | Some stream \<Rightarrow>
              if read_threw file then r = HostException \<and> last_err g' = entry
              else if snd (fastjson_read_stream stream) then
                r = Returned ZNull \<and>
                last_err g' = fastjson_error_state_set FASTJSON_ERROR_SYNTAX (Some ''Failed to read file'')
              else r \<noteq> HostException"
proof -
  define tm where "tm = has_flag flags FASTJSON_DECODE_THROW_ON_ERROR"
  define ua where "ua = decode_use_assoc assoc flags"
  have fin: "fst (fastjson_finish_decode p doc ua depth flags tm s h) \<noteq> HostException" for doc s h
    using finish_outcome [of p ua depth flags tm s h doc]
    by (auto simp: value_outcome_def split: if_splits prod.splits)
  show ?thesis
  proof (cases "depth \<le> 0 \<or> INT_MAX < depth")
    case True
    then show ?thesis by (auto simp: fastjson_file_decode_def FASTJSON_VALIDATE_DEPTH_def Let_def)
  next
    case False
    show ?thesis
    proof (cases "opened file")
      case None
      then show ?thesis using False
        by (auto simp: fastjson_file_decode_def FASTJSON_VALIDATE_DEPTH_def Let_def)
    next
      case (Some stream)
      obtain contents failed where c: "fastjson_read_stream stream = (contents, failed)" by (meson surj_pair)
      show ?thesis
      proof (cases "read_threw file \<or> failed")
        case True
        then show ?thesis using False Some c
          by (auto simp: fastjson_file_decode_def FASTJSON_VALIDATE_DEPTH_def Let_def)
      next
        case ok: False
        then have "fst (fastjson_file_decode p reader file assoc depth flags g) \<noteq> HostException"
          using file_decode_parsed [OF False Some, where p = p and reader = reader and assoc = assoc and g = g and flags = flags] c fin
          by (auto simp: read_outcome_def Let_def split_beta tm_def ua_def split: option.split)
        then show ?thesis using False Some c ok by (auto simp: Let_def split_beta)
      qed
    qed
  qed
qed

subsection \<open>Pointers\<close>

text \<open>C30: getting a value by pointer is decoding the value the pointer designates.\<close>

theorem pointer_get_is_decode:
  assumes "0 < depth" "depth \<le> INT_MAX" "fastjson_read_doc reader json flags = (Some doc, err)"
    "fj_pointer_nsegs_ok (length segs) (nat (fastjson_effective_walk_depth p depth))"
    "ptr_at (size_max (platform p)) flags (doc_root doc) segs target"
  shows "fastjson_pointer_get p reader json (render_pointer segs) assoc depth flags g =
    fastjson_decode p (\<lambda>_ _. (Some (doc\<lparr>doc_root := target\<rparr>), err)) json assoc depth flags g"
proof -
  define tm where "tm = has_flag flags FASTJSON_DECODE_THROW_ON_ERROR"
  have r: "fastjson_pointer_resolve_limited (size_max (platform p)) (doc_root doc) (render_pointer segs)
      (nat (fastjson_effective_walk_depth p depth)) flags = (FJ_SPLICE_OK, Some target)"
    unfolding resolve_iff using assms(4,5) by blast
  have d: "fastjson_read_doc (\<lambda>_ _. (Some (doc\<lparr>doc_root := target\<rparr>), err)) json flags = (Some (doc\<lparr>doc_root := target\<rparr>), err)"
    by (simp add: fastjson_read_doc_def fastjson_read_doc_ex_def)
  have w: "fastjson_walk_doc_into p (doc\<lparr>doc_root := target\<rparr>) target = fastjson_walk_doc_into p doc target"
    by (intro ext) (simp add: fastjson_walk_doc_into_def)
  show ?thesis
    using assms(1-3) r d w
    by (simp add: fastjson_pointer_get_def fastjson_decode_def FASTJSON_VALIDATE_DEPTH_def fastjson_entry_prologue_def
        fastjson_decode_into_def fastjson_finish_decode_def Let_def)
qed

lemma pointer_get_is_decode_witness:
  "fastjson_pointer_get demo_php (\<lambda>_ _. (Some \<lparr>doc_root = YArr [YNull], doc_dat_read = 6, doc_val_read = 2\<rparr>,
      \<lparr>re_code = 0, re_msg = ''success'', re_pos = 0\<rparr>)) [] (render_pointer []) None 512 0 fastjson_GINIT =
    fastjson_decode demo_php (\<lambda>_ _. (Some (\<lparr>doc_root = YArr [YNull], doc_dat_read = 6, doc_val_read = 2\<rparr>\<lparr>doc_root := YArr [YNull]\<rparr>),
      \<lparr>re_code = 0, re_msg = ''success'', re_pos = 0\<rparr>)) [] None 512 0 fastjson_GINIT"
  by (rule pointer_get_is_decode)
    (simp_all add: INT_MAX_def fastjson_read_doc_def fastjson_read_doc_ex_def Let_def fj_pointer_nsegs_ok_def
      fastjson_effective_walk_depth_def fastjson_effective_stack_depth_def FASTJSON_STACK_DEPTH_LIMIT_def
      FASTJSON_POINTER_MAX_SEGMENTS_def demo_php_def)

lemma walk_status: "fj_pointer_walk smax flags False v segs = Inl st \<Longrightarrow> st \<noteq> FJ_SPLICE_OK"
proof (induction segs arbitrary: v)
  case (Cons seg segs)
  have scan: "obj_scan flags seg ms acc = Inl st \<Longrightarrow> st \<noteq> FJ_SPLICE_OK" for ms acc
    by (induction ms arbitrary: acc) (auto split: if_splits option.splits)
  show ?case using Cons scan by (cases v) (auto split: sum.splits option.splits if_splits simp: Let_def)
qed simp

lemma walk_found: "fj_pointer_walk smax flags False v segs \<noteq> Inr None"
  by (induction segs arbitrary: v) (auto split: yyval.splits sum.splits option.splits if_splits simp: Let_def)

lemma resolve_status:
  assumes "fastjson_pointer_resolve_limited smax root pointer d flags = (st, t)"
  shows "t \<noteq> None \<longleftrightarrow> st = FJ_SPLICE_OK"
proof (cases "fj_pointer_parse pointer d FJ_SPLICE_SETTABLE_FAIL")
  case (Inl e)
  then have "e \<noteq> FJ_SPLICE_OK" by (auto simp: fj_pointer_parse_def Let_def split: if_splits option.splits)
  then show ?thesis using assms Inl by (auto simp: fastjson_pointer_resolve_limited_def)
next
  case (Inr segs)
  then show ?thesis using assms walk_status [of smax flags root segs] walk_found [of smax flags root segs]
    by (cases "fj_pointer_walk smax flags False root segs") (auto simp: fastjson_pointer_resolve_limited_def)
qed

text \<open>C31: a pointer exists exactly when it is the rendering of a path of the document with at most 4096 segments; the
  answer is then \<open>true\<close>.\<close>

theorem pointer_exists_iff:
  "fst (fastjson_pointer_exists p reader json pointer flags g) = Returned True \<longleftrightarrow>
    (\<exists>doc segs t. fst (fastjson_read_doc reader json flags) = Some doc \<and> pointer = render_pointer segs \<and>
      length segs \<le> FASTJSON_POINTER_MAX_SEGMENTS \<and> ptr_at (size_max (platform p)) flags (doc_root doc) segs t)"
proof -
  have n: "fj_pointer_nsegs_ok n 0 \<longleftrightarrow> n \<le> FASTJSON_POINTER_MAX_SEGMENTS" for n
    by (auto simp: fj_pointer_nsegs_ok_def)
  show ?thesis
  proof (cases "fastjson_read_doc reader json flags")
    case (Pair od err)
    show ?thesis
    proof (cases od)
      case None
      then show ?thesis using Pair by (simp add: fastjson_pointer_exists_def Let_def)
    next
      case (Some doc)
      obtain st t where r: "fastjson_pointer_resolve_limited (size_max (platform p)) (doc_root doc) pointer 0 flags = (st, t)"
        by (meson surj_pair)
      have ok: "t \<noteq> None \<longleftrightarrow> st = FJ_SPLICE_OK" using resolve_status [OF r] .
      have "fst (fastjson_pointer_exists p reader json pointer flags g) = Returned True \<longleftrightarrow> t \<noteq> None"
        using Pair Some r ok
        by (auto simp: fastjson_pointer_exists_def fj_splice_dispatch_error_def Let_def split: option.splits prod.splits)
      also have "\<dots> \<longleftrightarrow> (\<exists>x. fastjson_pointer_resolve_limited (size_max (platform p)) (doc_root doc) pointer 0 flags = (FJ_SPLICE_OK, Some x))"
        using r ok by auto
      finally show ?thesis unfolding resolve_iff n using Pair Some by auto
    qed
  qed
qed

subsection \<open>Merging\<close>

text \<open>A platform whose native stack never runs out.\<close>

definition deep_stack :: "php \<Rightarrow> php" where
  "deep_stack p = p\<lparr>platform := (platform p)\<lparr>stack_ok := (\<lambda>_. True)\<rparr>\<rparr>"

lemma vdepth_nesting: "vdepth v = Suc (nesting v)"
proof (induction v)
  case (YArr items)
  then have "foldr max (map vdepth items) (Suc 0) = Suc (foldr max (map nesting items) 0)"
    by (induction items) auto
  then show ?case by simp
next
  case (YObj ms)
  then have "foldr max (map (\<lambda>m. vdepth (snd m)) ms) (Suc 0) = Suc (foldr max (map (\<lambda>m. nesting (snd m)) ms) 0)"
    by (induction ms) force+
  then show ?case by simp
qed simp_all

lemma deep_stack_fits: "stack_fits (deep_stack p) lvl v"
  by (induction v arbitrary: lvl) (auto simp: deep_stack_def list_all_iff)

lemma deep_stack_zval: "zval_of (deep_stack p) san assoc flags v = zval_of p san assoc flags v"
proof (induction p san assoc flags v rule: zval_of.induct)
  case (9 p san assoc flags ms)
  then show ?case
    by (cases assoc) (auto simp: deep_stack_def array_key_def intro!: arg_cong [where f = last_wins])
qed (simp_all add: deep_stack_def fj_num_to_zval_def fj_raw_to_zval_def cong: map_cong)

lemma too_deep_nesting: "too_deep (deep_stack p) lvl d v \<longleftrightarrow> d \<le> int (nesting v)"
  by (auto simp: too_deep_def deep_stack_fits vdepth_nesting)

lemma effective_depth_pos: "0 < depth \<Longrightarrow> 0 < fastjson_effective_walk_depth p depth"
  by (simp add: fastjson_effective_walk_depth_def fastjson_effective_stack_depth_def FASTJSON_STACK_DEPTH_LIMIT_def)


subsection \<open>Validation\<close>

text \<open>What the reader promises of its validate-only mode: it accepts the same inputs with the same error record,
  counts the nesting, and an error has a code.\<close>

definition validate_contract :: "reader \<Rightarrow> bool" where
  "validate_contract reader \<longleftrightarrow> (\<forall>json f.
    re_code (snd (reader json f)) = re_code (snd (reader json (YYJSON_READ_VALIDATE_ONLY OR f))) \<and>
    (case (fst (reader json f), fst (reader json (YYJSON_READ_VALIDATE_ONLY OR f))) of
       (Some doc, Some stub) \<Rightarrow> doc_val_read stub = nesting (doc_root doc)
     | (None, None) \<Rightarrow> re_code (snd (reader json f)) \<noteq> YYJSON_READ_SUCCESS
     | _ \<Rightarrow> False))"

lemma validate_yflags: "decode_yflags flags YYJSON_READ_VALIDATE_ONLY = YYJSON_READ_VALIDATE_ONLY OR decode_yflags flags 0"
  by (simp add: decode_yflags_def Let_def or.assoc)

lemma validate_contract_cases:
  assumes "validate_contract reader"
  obtains doc stub e e' where "reader json f = (Some doc, e)" "reader json (YYJSON_READ_VALIDATE_ONLY OR f) = (Some stub, e')"
      "doc_val_read stub = nesting (doc_root doc)"
  | e e' where "reader json f = (None, e)" "reader json (YYJSON_READ_VALIDATE_ONLY OR f) = (None, e')"
      "re_code e' = re_code e" "re_code e \<noteq> YYJSON_READ_SUCCESS"
proof -
  obtain a e where a: "reader json f = (a, e)" by (meson surj_pair)
  obtain b e' where b: "reader json (YYJSON_READ_VALIDATE_ONLY OR f) = (b, e')" by (meson surj_pair)
  have "re_code e = re_code e' \<and> (case (a, b) of (Some doc, Some stub) \<Rightarrow> doc_val_read stub = nesting (doc_root doc)
     | (None, None) \<Rightarrow> re_code e \<noteq> YYJSON_READ_SUCCESS | _ \<Rightarrow> False)"
    using assms [unfolded validate_contract_def, rule_format, of json f] a b by (auto split: option.splits)
  with a b that show thesis by (auto split: option.splits)
qed

lemma validate_reads:
  assumes "validate_contract reader"
  obtains doc stub e e' where "fastjson_read_doc reader json flags = (Some doc, e)"
      "fastjson_read_doc_ex reader json flags YYJSON_READ_VALIDATE_ONLY = (Some stub, e')"
      "doc_val_read stub = nesting (doc_root doc)"
  | e e' where "fastjson_read_doc reader json flags = (None, e)"
      "fastjson_read_doc_ex reader json flags YYJSON_READ_VALIDATE_ONLY = (None, e')"
      "re_code e \<noteq> YYJSON_READ_SUCCESS" "re_code e' \<noteq> YYJSON_READ_SUCCESS"
proof -
  let ?f = "decode_yflags flags 0" and ?relaxed = "has_flag flags FASTJSON_DECODE_RELAXED"
  note unf = fastjson_read_doc_def fastjson_read_doc_ex_def validate_yflags Let_def
  have ne: "YYJSON_READ_ERROR_INVALID_STRING \<noteq> YYJSON_READ_SUCCESS"
    by (simp add: YYJSON_READ_ERROR_INVALID_STRING_def YYJSON_READ_SUCCESS_def)
  have flags_or: "(YYJSON_READ_VALIDATE_ONLY OR ?f) OR YYJSON_READ_ALLOW_INF_AND_NAN
      = YYJSON_READ_VALIDATE_ONLY OR (?f OR YYJSON_READ_ALLOW_INF_AND_NAN)"
    by (simp add: or.assoc)
  show thesis
  proof (cases rule: validate_contract_cases [OF assms, of json ?f])
    case (1 doc stub e e')
    show thesis by (rule that(1) [of doc e stub e']) (use 1 in \<open>simp_all add: unf\<close>)
  next
    case one: (2 e e')
    show thesis
    proof (cases "re_code e = YYJSON_READ_ERROR_INVALID_NUMBER \<and> \<not> fastjson_input_has_inf_nan_literal json ?relaxed")
      case False
      then show thesis
        using that(2) [of "snd (fastjson_read_doc reader json flags)"
            "snd (fastjson_read_doc_ex reader json flags YYJSON_READ_VALIDATE_ONLY)"] one ne
        by (auto simp: unf)
    next
      case True
      show thesis
      proof (cases rule: validate_contract_cases [OF assms, of json "?f OR YYJSON_READ_ALLOW_INF_AND_NAN"])
        case (1 doc stub d d')
        show thesis by (rule that(1) [of doc d stub d']) (use 1 one True in \<open>simp_all add: unf flags_or\<close>)
      next
        case (2 d d')
        then show thesis
          using that(2) [of "snd (fastjson_read_doc reader json flags)"
              "snd (fastjson_read_doc_ex reader json flags YYJSON_READ_VALIDATE_ONLY)"] one ne True
          by (auto simp: unf flags_or)
      qed
    qed
  qed
qed

text \<open>C33: validating a non-empty input says \<open>true\<close> exactly when decoding it to arrays with the same depth ends without an
  error, on a platform that bounds its native stack and does not run out of it.\<close>

theorem validate_agrees_with_decode:
  assumes "validate_contract reader" "native_stack_limit p" "json \<noteq> []" "0 < depth" "depth \<le> INT_MAX"
    "\<not> has_flag flags (NOT FASTJSON_INVALID_UTF8_IGNORE)"
  shows "fst (fastjson_validate reader json depth flags g) = Returned True \<longleftrightarrow>
    fastjson_last_error (snd (fastjson_decode (deep_stack p) reader json (Some True) depth flags g)) = FASTJSON_ERROR_NONE"
proof -
  have throw: "\<not> has_flag flags FASTJSON_DECODE_THROW_ON_ERROR"
  proof -
    have "FASTJSON_DECODE_THROW_ON_ERROR AND NOT FASTJSON_INVALID_UTF8_IGNORE = FASTJSON_DECODE_THROW_ON_ERROR"
      by (simp add: FASTJSON_DECODE_THROW_ON_ERROR_def FASTJSON_INVALID_UTF8_IGNORE_def)
    moreover have "flags AND NOT FASTJSON_INVALID_UTF8_IGNORE = 0" using assms(6) by (simp add: has_flag_def)
    moreover have "flags AND (FASTJSON_DECODE_THROW_ON_ERROR AND NOT FASTJSON_INVALID_UTF8_IGNORE) =
        (flags AND NOT FASTJSON_INVALID_UTF8_IGNORE) AND FASTJSON_DECODE_THROW_ON_ERROR"
      by (simp only: and.assoc and.commute [of FASTJSON_DECODE_THROW_ON_ERROR])
    ultimately have "flags AND FASTJSON_DECODE_THROW_ON_ERROR = 0" by simp
    then show ?thesis by (simp add: has_flag_def)
  qed
  have eff: "fastjson_effective_walk_depth (deep_stack p) depth = depth"
    using assms(2) by (simp add: fastjson_effective_walk_depth_def deep_stack_def)
  have code: "c \<noteq> YYJSON_READ_SUCCESS \<Longrightarrow> fastjson_translate_read_code c \<noteq> FASTJSON_ERROR_NONE" for c
    by (simp add: read_code_error)
  have d: "fastjson_decode (deep_stack p) reader json (Some True) depth flags g =
      fastjson_decode_into (deep_stack p) reader json True depth flags False (last_err g) (fastjson_clear_error g)"
    using assms(4,5) throw by (simp add: fastjson_decode_def FASTJSON_VALIDATE_DEPTH_def Let_def decode_use_assoc_def)
  show ?thesis
  proof (cases rule: validate_reads [OF assms(1), of json flags])
    case (1 doc stub e e')
    have v: "fst (fastjson_validate reader json depth flags g) = Returned True \<longleftrightarrow> int (nesting (doc_root doc)) < depth"
      using assms(3-6) 1 by (auto simp: fastjson_validate_def Let_def)
    have "fastjson_last_error (snd (fastjson_decode (deep_stack p) reader json (Some True) depth flags g)) = FASTJSON_ERROR_NONE
        \<longleftrightarrow> \<not> too_deep (deep_stack p) 0 depth (doc_root doc)"
      using decode_into_outcome [where reader = reader and json = json and flags = flags and p = "deep_stack p"
          and use_assoc = True and depth = depth and throw_mode = False and saved = "last_err g" and g = "fastjson_clear_error g"]
        1(1) d eff decode_error_failure [of "deep_stack p" True depth flags "doc_root doc"]
      by (auto simp: value_outcome_def decodable_def decode_failure_def fastjson_last_error_def depth_state_def
          fastjson_error_state_clear_def error_code_defs split: prod.splits if_splits)
    then show ?thesis using v by (auto simp: too_deep_nesting)
  next
    case (2 e e')
    have "fst (fastjson_validate reader json depth flags g) = Returned False"
      using assms(3-6) 2 by (auto simp: fastjson_validate_def Let_def)
    moreover have "fastjson_last_error (snd (fastjson_decode (deep_stack p) reader json (Some True) depth flags g)) \<noteq> FASTJSON_ERROR_NONE"
      using 2 d code by (simp add: fastjson_decode_into_def fastjson_last_error_def fastjson_set_read_error_def Let_def
          split: option.split)
    ultimately show ?thesis by simp
  qed
qed

lemma validate_agrees_with_decode_witness:
  "fst (fastjson_validate (\<lambda>_ _. (Some \<lparr>doc_root = YNull, doc_dat_read = 4, doc_val_read = 0\<rparr>,
      \<lparr>re_code = 0, re_msg = ''success'', re_pos = 0\<rparr>)) [0x6E] 512 0 fastjson_GINIT) = Returned True \<longleftrightarrow>
    fastjson_last_error (snd (fastjson_decode (deep_stack demo_php) (\<lambda>_ _. (Some \<lparr>doc_root = YNull, doc_dat_read = 4, doc_val_read = 0\<rparr>,
      \<lparr>re_code = 0, re_msg = ''success'', re_pos = 0\<rparr>)) [0x6E] (Some True) 512 0 fastjson_GINIT)) = FASTJSON_ERROR_NONE"
  by (rule validate_agrees_with_decode)
    (simp_all add: validate_contract_def demo_php_def INT_MAX_def has_flag_def)

end
