(* ===== verification/EncodeProps.thy ===== *)
theory EncodeProps
  imports EncodeCorrect EncodeTotal DecodeCorrect
begin

text \<open>
  The properties of the encoder, from the interpretations of \<open>encoder_relation\<close> and \<open>encoder_total\<close> and from the
  correctness of resolved values.
\<close>

subsection \<open>What a call keeps\<close>

definition user_keeps_flags :: "engine \<Rightarrow> bool" where
  "user_keeps_flags e \<longleftrightarrow> (\<forall>w obj info v props.
    guards (snd (json_serialize e obj w)) = guards w \<and> guards (snd (get_properties e obj w)) = guards w \<and>
    guards (snd (read_hook e obj info w)) = guards w \<and> guards (zval_ptr_dtor e v w) = guards w \<and>
    guards (zend_release_properties e props w) = guards w)"

interpretation flags: encoder_relation e
    "\<lambda>_ s s'. user_keeps_flags e \<longrightarrow> guards (world s') = guards (world s)"
    "\<lambda>_ s s'. user_keeps_flags e \<longrightarrow> guards (world s') = guards (world s)" for e
  by unfold_locales
    (auto simp: user_keeps_flags_def dw_set_error_def dw_release_def dw_release_props_def dw_protect_def dw_unprotect_def
      dw_append_def dw_guarded_def)

interpretation layout: encoder_relation e
    "\<lambda>_ s s'. indent_level s' = indent_level s \<and> partial_output s' = partial_output s \<and> pretty_print s' = pretty_print s"
    "\<lambda>_ s s'. indent_level s' = indent_level s \<and> partial_output s' = partial_output s \<and> pretty_print s' = pretty_print s" for e
  by unfold_locales
    (auto simp: dw_set_error_def dw_release_def dw_release_props_def dw_protect_def dw_unprotect_def dw_append_def)

text \<open>A failed call has an error or an exception behind it, and a hard error is never without its code.\<close>

definition explained :: "fastjson_dw_ctx \<Rightarrow> bool" where
  "explained s \<longleftrightarrow> es_code (dw_error s) \<noteq> FASTJSON_ERROR_NONE \<and> es_msg (dw_error s) \<noteq> None"

definition releases_keep_exception :: "engine \<Rightarrow> bool" where
  "releases_keep_exception e \<longleftrightarrow> (\<forall>w v props. exception w \<longrightarrow>
    exception (zval_ptr_dtor e v w) \<and> exception (zend_release_properties e props w))"

interpretation evidence: encoder_relation e
    "\<lambda>ok s s'. releases_keep_exception e \<longrightarrow> (hard_error s \<longrightarrow> explained s) \<longrightarrow>
      (hard_error s' \<longrightarrow> explained s') \<and> (explained s \<longrightarrow> explained s') \<and> (\<not> ok \<longrightarrow> explained s' \<or> exception (world s'))"
    "\<lambda>ok s s'. explained s \<longrightarrow> explained s'" for e
  by unfold_locales
    (auto simp: explained_def releases_keep_exception_def dw_set_error_def fastjson_error_state_set_def dw_release_def
      dw_release_props_def dw_protect_def dw_unprotect_def dw_append_def)

text \<open>After a hard error nothing is written any more.\<close>

interpretation hard: encoder_relation e
    "\<lambda>ok s s'. \<not> partial_output s \<and> \<not> hard_error s \<longrightarrow>
      \<not> partial_output s' \<and> (if ok then \<not> hard_error s' else hard_error s' \<longrightarrow> dw_buf s' = [])"
    "\<lambda>ok s s'. \<not> partial_output s \<and> hard_error s \<longrightarrow> \<not> partial_output s' \<and> hard_error s' \<and> dw_buf s' = dw_buf s" for e
  by unfold_locales
    (auto simp: dw_set_error_def dw_release_def dw_release_props_def dw_protect_def dw_unprotect_def dw_append_def
      split: if_splits)

text \<open>Without partial output a call that succeeds has met no error.\<close>

interpretation clean: encoder_relation e
    "\<lambda>ok s s'. \<not> partial_output s \<longrightarrow> \<not> partial_output s' \<and> (ok \<longrightarrow> dw_error s' = dw_error s)"
    "\<lambda>ok s s'. partial_output s' = partial_output s" for e
  by unfold_locales
    (auto simp: dw_set_error_def dw_release_def dw_release_props_def dw_protect_def dw_unprotect_def dw_append_def)

subsection \<open>An engine for the witnesses\<close>

text \<open>Decimal integers, no objects, no native stack limit.\<close>

definition demo_engine :: engine where
  "demo_engine = \<lparr>runtime = demo_php\<lparr>native_stack_limit := False,
      platform := (platform demo_php)\<lparr>zstr_max := 100000,
        write_number := (\<lambda>v. case v of YSint n \<Rightarrow> Some (fj_write_sint64_dec n) | _ \<Rightarrow> Some [0x30])\<rparr>\<rparr>,
    class_of = (\<lambda>_. \<lparr>json_serializable = False, enum_case = None, has_hooks = False\<rparr>),
    json_serialize = (\<lambda>_ w. (PNull, w)), get_properties = (\<lambda>_ w. (None, w)), read_hook = (\<lambda>_ _ w. (None, w)),
    zval_ptr_dtor = (\<lambda>_ w. w), zend_release_properties = (\<lambda>_ w. w), php_gcvt = (\<lambda>_ _. [0x30]),
    double_to_long = id, is_numeric_string = (\<lambda>_. NotNumeric), zend_long_to_str = fj_write_sint64_dec\<rparr>"

definition demo_world :: php_world where
  "demo_world = \<lparr>ref_cells = (\<lambda>_. PNull), prop_slots = (\<lambda>_. None), guards = {}, serialize_precision = -1,
    exception = False, globals = \<lparr>last_err = fastjson_error_state_clear, key_share = None\<rparr>\<rparr>"

lemma demo_ok: "engine_ok demo_engine" "user_keeps_flags demo_engine" "releases_keep_exception demo_engine"
    "enough_fuel demo_engine 1025" "\<not> native_stack_limit (runtime demo_engine)"
  by (simp_all add: engine_ok_def demo_engine_def demo_php_def long_text_def user_keeps_flags_def
      releases_keep_exception_def enough_fuel_def)

subsection \<open>Lemmas\<close>

definition dw_start :: "zend_long \<Rightarrow> php_world \<Rightarrow> fastjson_dw_ctx" where
  "dw_start flags w = \<lparr>dw_buf = [], dw_flags = flags, dw_yflags = fastjson_translate_write_flags flags False,
    partial_output = has_flag flags FASTJSON_ENCODE_PARTIAL_OUTPUT_ON_ERROR,
    pretty_print = has_flag flags FASTJSON_ENCODE_PRETTY_PRINT, hard_error = False, discard_aborted = False,
    dw_error = fastjson_error_state_clear, call_depth = 0, indent_level = 0, world = w\<rparr>"

definition scalar_fast :: "pval \<Rightarrow> bool" where
  "scalar_fast v \<longleftrightarrow> (case v of PNull \<Rightarrow> True | PBool _ \<Rightarrow> True | PLong _ \<Rightarrow> True | _ \<Rightarrow> False)"

lemma directwrite_slow: "\<not> scalar_fast v \<Longrightarrow> fastjson_directwrite_encode e n v flags depth w =
  (case dw_encode_zval e n 0 v depth (dw_start flags w) of
     None \<Rightarrow> None
   | Some (ok, s) \<Rightarrow> Some (if \<not> ok \<or> hard_error s then None else Some (dw_buf s), dw_error s, world s))"
  by (cases v) (simp_all add: fastjson_directwrite_encode_def dw_start_def scalar_fast_def)

lemma directwrite_fast: "scalar_fast v \<Longrightarrow>
    \<exists>t. fastjson_directwrite_encode e n v flags depth w = Some (Some t, fastjson_error_state_clear, w)"
  by (cases v) (auto simp: fastjson_directwrite_encode_def scalar_fast_def split: bool.splits)

lemma fast_text: "engine_ok e \<Longrightarrow> scalar_fast v \<Longrightarrow> resolves e H v j \<Longrightarrow>
    fastjson_directwrite_encode e n v flags depth w = Some (Some (jval_text e st p i j), fastjson_error_state_clear, w) \<and>
    jval_errors e flags' G d 0 j = []"
  by (cases v) (auto simp: fastjson_directwrite_encode_def scalar_fast_def engine_ok_def frames_full_def split: bool.splits)

text \<open>The conditions under which an encoding returns.\<close>

definition can_return :: "engine \<Rightarrow> nat \<Rightarrow> php_world \<Rightarrow> bool" where
  "can_return e n w \<longleftrightarrow> enough_fuel e n \<and> (native_stack_limit (runtime e) \<longrightarrow> user_keeps_cells e \<and> refs_flat w)"

lemma demo_returns: "can_return demo_engine 1025 w"
  by (simp add: can_return_def demo_ok)

lemma start_returns: "can_return e n w \<Longrightarrow> \<exists>ok s'. dw_encode_zval e n 0 v d (dw_start flags w) = Some (ok, s')"
  using encode_returned [of e n "dw_start flags w" v d] by (auto simp: can_return_def returned_def dw_start_def)

subsection \<open>Properties\<close>

lemma directwrite_returns:
  "can_return e n w \<Longrightarrow> \<exists>zs err w1. fastjson_directwrite_encode e n v flags depth w = Some (zs, err, w1)"
  using encode_returned [of e n "dw_start flags w" v depth] directwrite_fast [of v e n flags depth w]
  by (cases "scalar_fast v") (auto simp: directwrite_slow can_return_def returned_def dw_start_def split: option.splits)

definition encode_style :: "zend_long \<Rightarrow> style" where
  "encode_style flags = \<lparr>st_flags = flags, st_yflags = fastjson_translate_write_flags flags False,
    st_pretty = has_flag flags FASTJSON_ENCODE_PRETTY_PRINT\<rparr>"

lemma value_encode:
  assumes "engine_ok e" and "resolves e (cells_of w) v j" and "jval_height j \<le> n"
    and "\<not> has_flag flags FASTJSON_ENCODE_PARTIAL_OUTPUT_ON_ERROR"
  shows "case fastjson_directwrite_encode e n v flags depth w of
      None \<Rightarrow> False
    | Some (out, err, w') \<Rightarrow>
        let st = encode_style flags;
            t = jval_text e st (serialize_precision w) 0 j;
            E = jval_errors e flags (guards w) depth 0 j
        in guards w' = guards w \<and> exception w' = exception w \<and> ref_cells w' = ref_cells w \<and>
          (case out of
             Some b \<Rightarrow> E = [] \<and> b = t \<and> err = fastjson_error_state_clear
           | None \<Rightarrow> E \<noteq> [] \<and> err = reported_error E \<or>
               err = st_too_large \<and> zstr_max (plat e) < length t + jval_slack j)"
proof (cases "scalar_fast v")
  case True
  have "fastjson_directwrite_encode e n v flags depth w =
        Some (Some (jval_text e (encode_style flags) (serialize_precision w) 0 j), fastjson_error_state_clear, w)"
      "jval_errors e flags (guards w) depth 0 j = []"
    using fast_text [OF assms(1) True assms(2)] by blast+
  then show ?thesis by (simp add: Let_def)
next
  case False
  let ?s = "dw_start flags w"
  have "context_ok e (cells_of w) 0 ?s" "fresh ?s" using assms(4) by (simp_all add: context_ok_def fresh_def dw_start_def in_cells_of)
  moreover have "enc_correct e (cells_of w) 0 depth v j (dw_encode_zval e n 0)" using zval_correct(1) [OF assms(1-3)] by blast
  ultimately have em: "emitted e ?s (jval_errors e (dw_flags ?s) (guards (world ?s)) depth 0 j)
      (jval_text e (dw_style ?s) (serialize_precision (world ?s)) (indent_level ?s) j) (jval_slack j)
      (dw_encode_zval e n 0 v depth ?s)"
    unfolding enc_correct_def by blast
  have st: "dw_style ?s = encode_style flags"
    and s: "dw_flags ?s = flags" "world ?s = w" "indent_level ?s = 0" "dw_buf ?s = []" "hard_error ?s = False"
      "dw_error ?s = fastjson_error_state_clear"
    by (simp_all add: dw_style_def dw_start_def encode_style_def)
  obtain ok s' where r: "dw_encode_zval e n 0 v depth ?s = Some (ok, s')"
    using em by (auto simp: emitted_def split: option.splits)
  have fr: "frame s' = frame ?s" using em by (simp add: r emitted_def)
  show ?thesis
    using em frame_eq [OF fr]
    by (cases ok) (auto simp: directwrite_slow [OF False] r emitted_def st s Let_def reported_def too_large_def)
qed


text \<open>An engine whose objects have a property \<open>a\<close>, a reference, and a private one.\<close>

definition object_engine :: engine where
  "object_engine = demo_engine\<lparr>get_properties := (\<lambda>obj w. (Some \<lparr>pt_id = obj, pt_immutable = False,
    pt_entries = [(KStr (ascii ''a''), PropValue (PReference 0)), (KStr [0x00, 0x70], PropValue PNull)]\<rparr>, w))\<rparr>"

lemma object_resolves:
  "resolves object_engine (cells_of demo_world) (PObject 7) (JObject (Some (GuardProps 7)) [(KStr (ascii ''a''), JNull)])"
proof -
  let ?t = "\<lparr>pt_id = 7, pt_immutable = False,
    pt_entries = [(KStr (ascii ''a''), PropValue (PReference 0)), (KStr [0x00, 0x70], PropValue PNull)]\<rparr>"
  have "quiet_object object_engine 7 ?t"
    by (simp add: quiet_object_def object_engine_def demo_engine_def read_by_hook_def)
  moreover have "resolves_items object_engine (hold {GuardProps 7} (cells_of demo_world)) (visible_props (cells_of demo_world) (pt_entries ?t))
      [(KStr (ascii ''a''), JNull)]"
    by (simp add: mangled_def ascii_def byte_of_def deref_in_def cells_of_def demo_world_def)
  moreover have "props_guard object_engine 7 ?t = Some (GuardProps 7)"
    by (simp add: props_guard_def object_engine_def demo_engine_def)
  ultimately show ?thesis using object [of object_engine 7 ?t "cells_of demo_world"] by simp
qed




text \<open>C8: encoding returns. Without a native stack limit the 1024 counted frames bound every recursion, through
  references, serializers and enums as well; with one, the depth at which the stack check answers bounds it, given that a
  reference never holds a reference.\<close>

theorem encode_returns:
  assumes "can_return e n w"
  shows "fastjson_directwrite_encode e n v flags depth w \<noteq> None"
  using directwrite_returns [OF assms] by fastforce

lemma encode_returns_witness:
  "fastjson_directwrite_encode demo_engine 1025 (PArray (Some 0) [(KInt 0, PReference 7)]) 0 512
     (demo_world\<lparr>ref_cells := (\<lambda>_. PArray (Some 0) [(KInt 0, PReference 7)])\<rparr>) \<noteq> None"
  by (rule encode_returns [OF demo_returns])

text \<open>C7: whatever a value contains and however its encoding ends, the recursion flags, the indentation and the count
  of frames are afterwards what they were, provided user code leaves the flags as it found them.\<close>

theorem encode_restores:
  assumes "user_keeps_flags e" and "can_return e n w"
  shows "\<exists>ok s'. dw_encode_zval e n 0 v d (dw_start flags w) = Some (ok, s') \<and>
    guards (world s') = guards w \<and> indent_level s' = 0 \<and> call_depth s' = 0"
proof -
  let ?s = "dw_start flags w"
  obtain ok s' where r: "dw_encode_zval e n 0 v d ?s = Some (ok, s')" using start_returns [OF assms(2)] by blast
  have "guards (world ?s) = guards w" "indent_level ?s = 0" "call_depth ?s = 0" by (simp_all add: dw_start_def)
  then show ?thesis
    using flags.encode_rel [where e = e and n = n and lvl = 0 and v = v and d = d and s = ?s]
      layout.encode_rel [where e = e and n = n and lvl = 0 and v = v and d = d and s = ?s]
      frames.encode_rel [where e = e and n = n and lvl = 0 and v = v and d = d and s = ?s] assms(1)
    by (simp add: r)
qed

lemma encode_restores_witness:
  "\<exists>ok s'. dw_encode_zval demo_engine 1025 0 (PArray (Some 3) [(KInt 0, PDouble 0x7FF0000000000000)]) 512 (dw_start 0x80 demo_world) =
      Some (ok, s') \<and> guards (world s') = guards demo_world \<and> indent_level s' = 0 \<and> call_depth s' = 0"
  by (rule encode_restores [OF demo_ok(2) demo_returns])



lemma directwrite_explained:
  assumes "releases_keep_exception e" and "fastjson_directwrite_encode e n v flags depth w = Some (zs, err, w')"
  shows "zs = None \<Longrightarrow> exception w' \<or> es_code err \<noteq> FASTJSON_ERROR_NONE \<and> es_msg err \<noteq> None"
    and "zs \<noteq> None \<Longrightarrow> has_flag flags FASTJSON_ENCODE_PARTIAL_OUTPUT_ON_ERROR \<or> err = fastjson_error_state_clear"
proof -
  have "(zs = None \<longrightarrow> exception w' \<or> es_code err \<noteq> FASTJSON_ERROR_NONE \<and> es_msg err \<noteq> None) \<and>
    (zs \<noteq> None \<longrightarrow> has_flag flags FASTJSON_ENCODE_PARTIAL_OUTPUT_ON_ERROR \<or> err = fastjson_error_state_clear)"
  proof (cases "scalar_fast v")
    case True
    then show ?thesis using directwrite_fast [OF True, of e n flags depth w] assms(2) by auto
  next
    case False
    let ?s = "dw_start flags w"
    have s: "\<not> hard_error ?s" "partial_output ?s = has_flag flags FASTJSON_ENCODE_PARTIAL_OUTPUT_ON_ERROR"
        "dw_error ?s = fastjson_error_state_clear" by (simp_all add: dw_start_def)
    show ?thesis
      using evidence.encode_rel [where e = e and n = n and lvl = 0 and v = v and d = depth and s = ?s]
        clean.encode_rel [where e = e and n = n and lvl = 0 and v = v and d = depth and s = ?s] assms s
      by (auto simp: directwrite_slow [OF False] res_rel_def explained_def split: option.splits if_splits)
  qed
  then show "zs = None \<Longrightarrow> exception w' \<or> es_code err \<noteq> FASTJSON_ERROR_NONE \<and> es_msg err \<noteq> None"
    and "zs \<noteq> None \<Longrightarrow> has_flag flags FASTJSON_ENCODE_PARTIAL_OUTPUT_ON_ERROR \<or> err = fastjson_error_state_clear" by blast+
qed

subsection \<open>Entry points\<close>

definition INT_out_of_range :: "int \<Rightarrow> bool" where
  "INT_out_of_range depth \<longleftrightarrow> depth < INT_MIN \<or> INT_MAX < depth"

lemma depth_check: "fastjson_encode_depth_in_range depth k =
    (if INT_out_of_range depth then Some (ValueError k ''must be between -2147483648 and 2147483647'') else None)"
  by (simp add: fastjson_encode_depth_in_range_def INT_out_of_range_def)

lemma can_return_globals [simp]: "can_return e n (w\<lparr>globals := g\<rparr>) = can_return e n w"
  by (simp add: can_return_def refs_flat_def)

definition do_outcome :: "zend_long \<Rightarrow> bool \<Rightarrow> fastjson_error_state \<Rightarrow> 'v php_result option + bytes
    \<Rightarrow> fastjson_error_state \<Rightarrow> php_world \<Rightarrow> bool" where
  "do_outcome flags tm saved x err w' \<longleftrightarrow>
    (case x of
       Inl (Some r) \<Rightarrow> r = HostException \<and> exception w' \<or>
         tm \<and> (\<exists>m. r = JsonException m (es_code err)) \<and> \<not> exception w' \<and> last_err (globals w') = saved \<and>
         es_code err \<noteq> FASTJSON_ERROR_NONE
     | Inl None \<Rightarrow> \<not> tm \<and> \<not> exception w' \<and> last_err (globals w') = err \<and> es_code err \<noteq> FASTJSON_ERROR_NONE
     | Inr z \<Rightarrow> \<not> exception w' \<and> last_err (globals w') = (if tm then saved else err) \<and>
         (has_flag flags FASTJSON_ENCODE_PARTIAL_OUTPUT_ON_ERROR \<or> err = fastjson_error_state_clear))"

lemma do_encode_outcome:
  assumes ret: "can_return e n w" and ex: "releases_keep_exception e"
  shows "\<exists>x err w'. fastjson_do_encode e n v flags depth tm saved fb w = Some (x, err, w') \<and> do_outcome flags tm saved x err w'"
proof -
  obtain zs err w1 where r: "fastjson_directwrite_encode e n v flags depth w = Some (zs, err, w1)"
    using directwrite_returns [OF ret] by blast
  note x = directwrite_explained [OF ex r]
  show ?thesis
  proof (cases "exception w1 \<or> zs \<noteq> None")
    case True
    then show ?thesis using x(2) by (auto simp: fastjson_do_encode_def r Let_def do_outcome_def)
  next
    case False
    then have c: "es_code err \<noteq> FASTJSON_ERROR_NONE" "es_msg err \<noteq> None" using x(1) by simp_all
    then obtain m where "es_msg err = Some m" by blast
    then show ?thesis using False c by (cases tm) (simp_all add: fastjson_do_encode_def r Let_def do_outcome_def)
  qed
qed

text \<open>C9: the contract of \<open>fastjson_encode\<close>. With \<open>THROW_ON_ERROR\<close> the result is a string or a \<open>JsonException\<close> with an
  error code, and the last-error state is what it was before the call, whatever the calls made by nested serializers
  left in it. Without it the last-error state afterwards is that of this call: \<open>false\<close> comes with an error code, and a
  string without partial output with none. An exception of user code is passed on.\<close>

theorem encode_contract:
  assumes "can_return e n w" and "releases_keep_exception e"
  shows "\<exists>r w'. fastjson_encode e n v flags depth w = Some (r, w') \<and>
    (if INT_out_of_range depth then (\<exists>m. r = ValueError 3 m) \<and> w' = w
     else if exception w' then r = HostException
     else if encode_throw_mode flags then
       last_err (globals w') = last_err (globals w) \<and>
       (case r of Returned (Some _) \<Rightarrow> True | JsonException _ c \<Rightarrow> c \<noteq> FASTJSON_ERROR_NONE | _ \<Rightarrow> False)
     else
       (case r of
          Returned (Some _) \<Rightarrow> has_flag flags FASTJSON_ENCODE_PARTIAL_OUTPUT_ON_ERROR \<or>
            last_err (globals w') = fastjson_error_state_clear
        | Returned None \<Rightarrow> es_code (last_err (globals w')) \<noteq> FASTJSON_ERROR_NONE
        | _ \<Rightarrow> False))"
proof (cases "INT_out_of_range depth")
  case True
  then show ?thesis by (simp add: fastjson_encode_def depth_check)
next
  case False
  define tm where "tm = encode_throw_mode flags"
  define W where "W = w\<lparr>globals := if tm then globals w else fastjson_clear_error (globals w)\<rparr>"
  have ret: "can_return e n W" using assms(1) by (simp add: W_def)
  obtain x :: "bytes option php_result option + bytes" and err w' where
    r: "fastjson_do_encode e n v flags depth tm (last_err (globals w)) ''fastjson_encode failed'' W =
      Some (x, err, w')" and out: "do_outcome flags tm (last_err (globals w)) x err w'"
    using do_encode_outcome [OF ret assms(2)] by blast
  define R where "R = (case x of Inl (Some ex) \<Rightarrow> ex | Inl None \<Rightarrow> Returned None | Inr zs \<Rightarrow> Returned (Some zs))"
  have "fastjson_encode e n v flags depth w = Some (R, w')"
    using False r by (simp add: R_def fastjson_encode_def depth_check tm_def W_def split: sum.split option.split)
  moreover have "if exception w' then R = HostException
     else if tm then
       last_err (globals w') = last_err (globals w) \<and>
       (case R of Returned (Some _) \<Rightarrow> True | JsonException _ c \<Rightarrow> c \<noteq> FASTJSON_ERROR_NONE | _ \<Rightarrow> False)
     else
       (case R of
          Returned (Some _) \<Rightarrow> has_flag flags FASTJSON_ENCODE_PARTIAL_OUTPUT_ON_ERROR \<or>
            last_err (globals w') = fastjson_error_state_clear
        | Returned None \<Rightarrow> es_code (last_err (globals w')) \<noteq> FASTJSON_ERROR_NONE
        | _ \<Rightarrow> False)"
    using out by (auto simp: do_outcome_def R_def split: sum.splits option.splits)
  ultimately show ?thesis using False unfolding tm_def by (intro exI [of _ R] exI [of _ w']) simp
qed

lemma encode_contract_witness:
  "\<exists>r w'. fastjson_encode demo_engine 1025 (PDouble 0x7FF0000000000000) 0 512 demo_world = Some (r, w') \<and>
    (if INT_out_of_range 512 then (\<exists>m. r = ValueError 3 m) \<and> w' = demo_world
     else if exception w' then r = HostException
     else if encode_throw_mode 0 then
       last_err (globals w') = last_err (globals demo_world) \<and>
       (case r of Returned (Some _) \<Rightarrow> True | JsonException _ c \<Rightarrow> c \<noteq> FASTJSON_ERROR_NONE | _ \<Rightarrow> False)
     else
       (case r of
          Returned (Some _) \<Rightarrow> has_flag 0 FASTJSON_ENCODE_PARTIAL_OUTPUT_ON_ERROR \<or>
            last_err (globals w') = fastjson_error_state_clear
        | Returned None \<Rightarrow> es_code (last_err (globals w')) \<noteq> FASTJSON_ERROR_NONE
        | _ \<Rightarrow> False))"
  by (rule encode_contract [OF demo_returns demo_ok(3)])

subsection \<open>Files\<close>

lemma write_loop_taken:
  "dn \<le> length zs \<Longrightarrow> \<exists>m. dn \<le> m \<and> m \<le> length zs \<and> write_loop zs dn ns (take dn zs) = (m, take m zs)"
proof (induction zs dn ns "take dn zs" rule: write_loop.induct)
  case (1 zs dn)
  then show ?case by auto
next
  case (2 zs dn n ns)
  show ?case
  proof (cases "dn < length zs \<and> 0 < n \<and> \<not> length zs - dn \<le> nat n")
    case True
    have t: "take dn zs @ take (nat n) (drop dn zs) = take (dn + nat n) zs" by (simp add: take_add)
    have "\<exists>m. dn + nat n \<le> m \<and> m \<le> length zs \<and> write_loop zs (dn + nat n) ns (take (dn + nat n) zs) = (m, take m zs)"
      using 2 True t by (intro "2.hyps") auto
    then show ?thesis using True t by auto
  next
    case False
    then show ?thesis using 2 by (cases "dn < length zs \<and> 0 < n") (auto intro: exI [of _ dn] exI [of _ "length zs"])
  qed
qed


lemma write_loop_prefix:
  assumes "write_loop zs 0 ns [] = (m, taken)"
  shows "m \<le> length zs" and "taken = take m zs"
  using write_loop_taken [of 0 zs ns] assms by auto

lemma throw_mode_globals:
  "fastjson_throw_mode_init tm g = (last_err g, if tm then g else fastjson_clear_error g)"
  by (simp add: fastjson_throw_mode_init_def fastjson_save_error_state_def)

text \<open>C27: writing a file is encoding and then writing the text. The bytes the stream took are always a prefix of what
  \<open>fastjson_encode\<close> returns, and nothing is written when it fails; \<open>true\<close> means that all of the text was taken and
  that the request is as \<open>fastjson_encode\<close> leaves it, whatever the stream's callbacks did to the last-error state;
  \<open>false\<close> after a successful encoding comes with the syntax error code.\<close>

theorem file_encode_is_encode:
  "case fastjson_encode e n v flags depth w of
     None \<Rightarrow> fastjson_file_encode e n sink v flags depth w = None
   | Some (r, w1) \<Rightarrow>
      (case fastjson_file_encode e n sink v flags depth w of
         None \<Rightarrow> False
       | Some (q, taken, w2) \<Rightarrow>
          (case r of
             Returned (Some zs) \<Rightarrow> prefix taken zs \<and>
               (case q of
                  Returned ok \<Rightarrow> if ok then taken = zs \<and> w2 = w1
                    else es_code (last_err (globals w2)) = FASTJSON_ERROR_SYNTAX
                | _ \<Rightarrow> q = HostException \<and> w2 = w1)
           | Returned None \<Rightarrow> q = Returned False \<and> taken = [] \<and> w2 = w1
           | JsonException m c \<Rightarrow> (\<exists>m'. q = JsonException m' c) \<and> taken = [] \<and> w2 = w1
           | ValueError k m \<Rightarrow> q = ValueError 4 m \<and> taken = [] \<and> w2 = w1
           | HostException \<Rightarrow> q = HostException \<and> taken = [] \<and> w2 = w1))"
proof (cases "INT_out_of_range depth")
  case True
  then show ?thesis by (simp add: fastjson_encode_def fastjson_file_encode_def depth_check)
next
  case False
  define tm where "tm = encode_throw_mode flags"
  define W where "W = w\<lparr>globals := if tm then globals w else fastjson_clear_error (globals w)\<rparr>"
  note enc = fastjson_encode_def [of e n v flags depth w, unfolded depth_check throw_mode_globals Let_def prod.case,
      folded tm_def, folded W_def]
  note wr = fastjson_file_encode_def [of e n sink v flags depth w, unfolded depth_check throw_mode_globals Let_def prod.case,
      folded tm_def, folded W_def]
  show ?thesis
  proof (cases "fastjson_directwrite_encode e n v flags depth W")
    case None
    then show ?thesis using False by (simp add: enc wr fastjson_do_encode_def)
  next
    case (Some a)
    obtain zs err w1 where a: "a = (zs, err, w1)" by (cases a) blast
    note d = Some [unfolded a]
    show ?thesis
    proof (cases zs)
      case None
      then show ?thesis using False d
        by (cases tm) (auto simp: enc wr fastjson_do_encode_def fastjson_throw_error_def Let_def)
    next
      case (Some z)
      obtain m taken where wl: "write_loop z 0 (writes sink) [] = (m, taken)" by fastforce
      show ?thesis using False d Some wl write_loop_prefix [OF wl]
        by (simp add: enc wr fastjson_do_encode_def Let_def take_is_prefix fastjson_set_error_code_def
            fastjson_error_globals_set_def)
    qed
  qed
qed

lemma write_loop_completes:
  "dn \<le> length zs \<Longrightarrow> list_all (\<lambda>k. 0 < k) ns \<Longrightarrow> int (length zs - dn) \<le> sum_list ns \<Longrightarrow>
    write_loop zs dn ns (take dn zs) = (length zs, zs)"
proof (induction zs dn ns "take dn zs" rule: write_loop.induct)
  case (2 zs dn n ns)
  show ?case
  proof (cases "dn < length zs \<and> \<not> length zs - dn \<le> nat n")
    case True
    have t: "take dn zs @ take (nat n) (drop dn zs) = take (dn + nat n) zs" by (simp add: take_add)
    have "write_loop zs (dn + nat n) ns (take (dn + nat n) zs) = (length zs, zs)"
      using 2 True t by (intro "2.hyps") auto
    then show ?thesis using True t 2 by simp
  next
    case False
    then show ?thesis using 2 by (cases "dn < length zs") auto
  qed
qed simp

text \<open>C28: writing a file makes progress. When \<open>fastjson_encode\<close> returns a text, the stream opens and takes some bytes at each
  call until it has taken as many as the text has, and flushing and closing succeed, the call returns \<open>true\<close> with all of the text
  written.\<close>

theorem file_encode_completes:
  assumes "fastjson_encode e n v flags depth w = Some (Returned (Some zs), w1)"
    and "sink_opened sink" and "\<not> write_threw sink" and "\<not> close_threw sink"
    and "list_all (\<lambda>k. 0 < k) (writes sink)" and "int (length zs) \<le> sum_list (writes sink)"
    and "can_flush sink \<Longrightarrow> flush_res sink = 0" and "close_res sink = 0"
  shows "fastjson_file_encode e n sink v flags depth w = Some (Returned True, zs, w1)"
proof -
  define tm where "tm = encode_throw_mode flags"
  define W where "W = w\<lparr>globals := if tm then globals w else fastjson_clear_error (globals w)\<rparr>"
  have d: "\<not> INT_out_of_range depth" using assms(1) by (auto simp: fastjson_encode_def depth_check)
  note enc = fastjson_encode_def [of e n v flags depth w, unfolded depth_check throw_mode_globals Let_def prod.case,
      folded tm_def, folded W_def]
  note wr = fastjson_file_encode_def [of e n sink v flags depth w, unfolded depth_check throw_mode_globals Let_def prod.case,
      folded tm_def, folded W_def]
  have wl: "write_loop zs 0 (writes sink) [] = (length zs, zs)"
    using write_loop_completes [of 0 zs "writes sink"] assms(5,6) by simp
  obtain out err w2 where r: "fastjson_directwrite_encode e n v flags depth W = Some (out, err, w2)"
    using assms(1) d by (auto simp: enc fastjson_do_encode_def split: option.splits)
  have o: "out = Some zs" "\<not> exception w2" "w1 = restore_globals (if tm then last_err (globals w) else err) w2"
    using assms(1) d by (cases out; cases tm; auto simp: enc fastjson_do_encode_def r Let_def fastjson_throw_error_def split: if_splits)+
  show ?thesis using assms(2-4,7,8) d wl o by (simp add: wr fastjson_do_encode_def r Let_def)
qed

lemma file_encode_completes_witness:
  "fastjson_file_encode demo_engine 1 \<lparr>sink_opened = True, sink_open_threw = False, sink_open_callbacks = id, writes = [3, 1],
      can_flush = True, write_threw = False, flush_res = 0, close_res = 0, close_threw = False, sink_callbacks = id\<rparr>
      PNull 0 512 demo_world = Some (Returned True, ascii ''null'', demo_world)"
  by (rule file_encode_completes)
    (simp_all add: fastjson_encode_def depth_check INT_out_of_range_def INT_MAX_def INT_MIN_def throw_mode_globals
      fastjson_do_encode_def fastjson_directwrite_encode_def encode_throw_mode_def has_flag_def ascii_def demo_world_def
      fastjson_error_state_clear_def fastjson_clear_error_def fastjson_error_globals_set_def)

end
