(* ===== verification/SplicePath.thy ===== *)
theory SplicePath
  imports SpliceCorrect
begin

text \<open>
  The writer along a path. It prints the text of the tree \<open>ptr_put\<close> specifies, at every step of the
  path and for a replacement given as a value as well as one given as encoded text.
\<close>

lemma bind_res_assoc: "bind_res (bind_res r f) g = bind_res r (\<lambda>x. bind_res (f x) g)"
  by (cases r) simp_all

lemma bind_res_Inr_right [simp]: "bind_res r Inr = r"
  by (cases r) simp_all

declare fj_splice_write_full.simps [simp del]

subsection \<open>The replacement\<close>

text \<open>\<open>new\<close> is what the replacement stands for: the parsed value, or the value whose top-level text
  the encoded bytes are.\<close>

definition represents :: "env \<Rightarrow> style \<Rightarrow> fastjson_pointer_repl \<Rightarrow> yyval \<Rightarrow> bool" where
  "represents env st rp new =
    (case rp_encoded rp of
       None \<Rightarrow> rp_repl rp = new
     | Some src \<Rightarrow> json_text env st 0 new = Some src \<and> line_clean env new)"

text \<open>The value that stands for it in the depth budget: encoded text is not measured again.\<close>

definition measured :: "fastjson_pointer_repl \<Rightarrow> yyval" where
  "measured rp = (case rp_encoded rp of None \<Rightarrow> rp_repl rp | Some _ \<Rightarrow> YNull)"

lemma represents_text:
  assumes "json_text env st 0 new = Some src" "line_clean env new" "0 \<le> i"
  shows "json_text env st i new = Some (if st_pretty st then reindent (nat i * 4) src else src)"
  using text_reindent(1) [of st 0 i env new] text_flat(1) [of st env i new 0] assms by simp

lemma replacement_outcome:
  assumes "stack_ok env = (\<lambda>_. True)" "valid_ctx env c" "represents env (style_of c) (sp_replacement c) new"
    "0 \<le> sp_indent c" "rd \<noteq> 0"
  shows "outcome c (json_text env (style_of c) (sp_indent c) new) (rd < vdepth (measured (sp_replacement c)))
    (fj_splice_write_replacement env c rd lvl)"
proof (cases "rp_encoded (sp_replacement c)")
  case None
  with assms full_outcome(1) [OF assms(1,2), of new rd "lvl + 1"] show ?thesis
    by (simp add: fj_splice_write_replacement_def represents_def measured_def)
next
  case (Some src)
  have tx: "json_text env (style_of c) (sp_indent c) new =
      Some (if sp_pretty c then reindent (nat (sp_indent c) * 4) src else src)"
    using represents_text [of env "style_of c" new src "sp_indent c"] assms(3,4) Some
    by (simp add: represents_def style_of_def)
  show ?thesis
  proof (cases "\<not> sp_pretty c \<or> sp_indent c = 0 \<or> 0x0A \<notin> set src")
    case True
    then have "json_text env (style_of c) (sp_indent c) new = Some src"
      using tx by (auto simp: reindent_0 reindent_clean)
    with True Some assms(5) show ?thesis
      by (auto simp: fj_splice_write_replacement_def measured_def fj_splice_reserve_def sp_fail_def sp_append_ext outcome_def)
  next
    case False
    with tx reindent_loop_outcome [of "[]" c "nat (sp_indent c) * 4" src env] Some assms(5) show ?thesis
      by (simp add: fj_splice_write_replacement_def measured_def)
  qed
qed

subsection \<open>Missing members\<close>

lemma object_text_one:
  "json_text env st i (YObj [((k, t), v)]) =
     ctn_text st i 0x7B 0x7D False
       (join2 (Some (sep_text st (i + 1) True)) (join2 (string_text st k) (join2 (Some (colon_text st)) (json_text env st (i + 1) v))))"
  by simp

lemma inner_False: "sp_indent (inner c False) = (if sp_pretty c then sp_indent c + 1 else sp_indent c)"
  by (simp add: inner_def)

lemma sep_inner: "sep_text (style_of c) (sp_indent (inner c False)) first = sep_text (style_of c) (sp_indent c + 1) first"
  by (simp add: sep_text_def nl_text_def style_of_def inner_False)

lemma suffix_outcome:
  assumes "stack_ok env = (\<lambda>_. True)"
  shows "valid_ctx env c \<Longrightarrow> represents env (style_of c) (sp_replacement c) new \<Longrightarrow> 0 \<le> sp_indent c \<Longrightarrow>
    rd \<noteq> 0 \<Longrightarrow> idx < length (sp_segs c) \<Longrightarrow>
    outcome c (json_text env (style_of c) (sp_indent c) (ptr_suffix (drop (Suc idx) (sp_segs c)) new))
      (rd < vdepth (ptr_suffix (drop (Suc idx) (sp_segs c)) (measured (sp_replacement c))))
      (fj_splice_build_suffix env c idx rd lvl)"
proof (induction rd arbitrary: c idx lvl)
  case (Suc rd)
  show ?case
  proof (cases "idx = length (sp_segs c) - 1")
    case True
    then have "drop (Suc idx) (sp_segs c) = []" using Suc.prems by simp
    with True Suc.prems assms replacement_outcome [OF assms Suc.prems(1-4), of "lvl + 1"] show ?thesis
      by (subst fj_splice_build_suffix.simps) simp
  next
    case False
    let ?rest = "drop (Suc (Suc idx)) (sp_segs c)"
    have s: "drop (Suc idx) (sp_segs c) = sp_segs c ! Suc idx # ?rest" "Suc idx < length (sp_segs c)"
      using False Suc.prems(5) by (simp_all add: Cons_nth_drop_Suc)
    show ?thesis
    proof (cases "rd = 0")
      case True
      with False assms Suc.prems s show ?thesis
        by (subst fj_splice_build_suffix.simps) (simp add: sp_fail_def outcome_def less_max_iff_disj)
    next
      case rd: False
      let ?st = "style_of c" and ?c = "inner (ext c [0x7B]) False" and ?key = "sp_segs c ! Suc idx"
      let ?i = "sp_indent c + 1" and ?new = "ptr_suffix ?rest new"
      let ?deep = "rd < vdepth (ptr_suffix ?rest (measured (sp_replacement c)))"
      have o: "outcome ?c (join2 (Some (sep_text ?st ?i True)) (join2 (string_text ?st ?key)
            (join2 (Some (colon_text ?st)) (json_text env ?st ?i ?new)))) (False \<or> ?deep)
          (bind_res (fj_splice_write_string env (sp_separator env ?c True) ?key)
             (\<lambda>c. fj_splice_build_suffix env (sp_colon c) (Suc idx) rd (lvl + 1)))"
      proof (rule outcome_prepend, rule outcome_bind)
        let ?d = "ext ?c (sep_text ?st ?i True)"
        show "outcome ?d (string_text ?st ?key) False (fj_splice_write_string env (sp_separator env ?c True) ?key)"
          using string_outcome [of env ?d ?key] Suc.prems(1) sep_inner [of "ext c [0x7B]" True]
          by (simp add: sp_separator_ext)
        fix w
        have "outcome (ext (ext ?d w) (colon_text ?st)) (json_text env ?st ?i ?new) ?deep
            (fj_splice_build_suffix env (ext (ext ?d w) (colon_text ?st)) (Suc idx) rd (lvl + 1))"
          using Suc.IH [of "ext (ext ?d w) (colon_text ?st)" "Suc idx" "lvl + 1"] Suc.prems s rd
            inner_text(1) [of env "ext c [0x7B]" ?new]
          by (simp add: inner_False split: if_splits)
        from outcome_prepend [OF this]
        show "outcome (ext ?d w) (join2 (Some (colon_text ?st)) (json_text env ?st ?i ?new)) ?deep
            (fj_splice_build_suffix env (sp_colon (ext ?d w)) (Suc idx) rd (lvl + 1))"
          by (simp add: sp_colon_ext)
      qed
      have pre: "(if sp_pretty (sp_append c [0x7B])
           then fj_splice_newline_indent env ((sp_append c [0x7B])\<lparr>sp_indent := sp_indent (sp_append c [0x7B]) + 1\<rparr>)
           else sp_append c [0x7B]) = sp_separator env ?c True"
        by (simp add: sp_separator_def inner_def sp_append_ext)
      show ?thesis
        using ctn_outcome [OF o, where right = "0x7D" and env = env] False rd assms s
        by (subst fj_splice_build_suffix.simps) (simp add: Let_def pre object_text_one bind_res_assoc less_max_iff_disj)
    qed
  qed
qed simp

subsection \<open>The loops along the path\<close>

lemma items_at_outcome:
  assumes "stack_ok env = (\<lambda>_. True)"
  shows "valid_ctx env c \<Longrightarrow>
    (\<And>w. cur \<le> want \<Longrightarrow> want - cur < length vs \<Longrightarrow>
       outcome (ext c w) (json_text env (style_of c) (sp_indent c) x) (rd - 1 < vdepth d) (target (ext c w) (vs ! (want - cur)))) \<Longrightarrow>
    outcome c (items_text env (style_of c) (sp_indent c) (cur = 0) (if cur \<le> want then vs[want - cur := x] else vs))
      (list_ex (\<lambda>v. rd - 1 < vdepth v) (if cur \<le> want then vs[want - cur := d] else vs))
      (write_at_items env target want rd lvl c vs cur)"
proof (induction vs arbitrary: c cur)
  case (Cons v vs)
  let ?st = "style_of c" and ?i = "sp_indent c"
  define rest where "rest y = (if Suc cur \<le> want then vs[want - Suc cur := y] else vs)" for y
  define hdv where "hdv y = (if cur = want then y else v)" for y
  have upd: "(if cur \<le> want then (v # vs)[want - cur := y] else v # vs) = hdv y # rest y" for y
  proof (cases "cur < want")
    case True
    then have "want - cur = Suc (want - Suc cur)" by simp
    with True show ?thesis by (simp add: hdv_def rest_def)
  qed (auto simp: hdv_def rest_def)
  let ?c = "ext c (sep_text ?st ?i (cur = 0))"
  have "outcome ?c (join2 (json_text env ?st ?i (hdv x)) (items_text env ?st ?i False (rest x)))
      (rd - 1 < vdepth (hdv d) \<or> list_ex (\<lambda>v. rd - 1 < vdepth v) (rest d))
      (bind_res (if cur = want then target ?c v else fj_splice_write_full env ?c v (rd - 1) (lvl + 1))
        (\<lambda>c. write_at_items env target want rd lvl c vs (cur + 1)))"
  proof (rule outcome_bind)
    show "outcome ?c (json_text env ?st ?i (hdv x)) (rd - 1 < vdepth (hdv d))
        (if cur = want then target ?c v else fj_splice_write_full env ?c v (rd - 1) (lvl + 1))"
      using Cons.prems(2) [of "sep_text ?st ?i (cur = 0)"] full_outcome(1) [OF assms, of ?c v "rd - 1" "lvl + 1"] Cons.prems(1)
      by (cases "cur = want") (simp_all add: hdv_def)
    fix w
    have "outcome (ext (ext ?c w) u) (json_text env ?st ?i x) (rd - 1 < vdepth d) (target (ext (ext ?c w) u) (vs ! (want - Suc cur)))"
      if "Suc cur \<le> want" "want - Suc cur < length vs" for u
    proof -
      have "want - cur = Suc (want - Suc cur)" using that(1) by simp
      with Cons.prems(2) [of "sep_text ?st ?i (cur = 0) @ w @ u"] that show ?thesis by simp
    qed
    with Cons.IH [of "ext ?c w" "Suc cur"] Cons.prems(1)
    show "outcome (ext ?c w) (items_text env ?st ?i False (rest x)) (list_ex (\<lambda>v. rd - 1 < vdepth v) (rest d))
        (write_at_items env target want rd lvl (ext ?c w) vs (cur + 1))"
      by (simp add: rest_def)
  qed
  from outcome_prepend [OF this] show ?case by (simp add: upd Let_def sp_separator_ext)
qed simp

text \<open>A stretch of members without the target is printed unchanged.\<close>

lemma members_at_none:
  "matching 0 seg pre = [] \<Longrightarrow>
   write_at_members env seg is_last target rd lvl c (pre @ rest) first matched =
     bind_res (write_full_members env c pre (rd - 1) (lvl + 1) first)
       (\<lambda>c. write_at_members env seg is_last target rd lvl c rest (first \<and> pre = []) matched)"
proof (induction pre arbitrary: c first)
  case (Cons m pre)
  obtain k t v where m: "m = ((k, t), v)" by (metis prod.collapse)
  then have "k \<noteq> seg" "matching 0 seg pre = []" using Cons.prems by (auto simp: matching_def split: if_splits)
  with Cons.IH m show ?case by (simp add: Let_def bind_res_assoc)
qed simp

lemma matching_split:
  "matching 0 seg ms = m # r \<Longrightarrow>
   \<exists>pre post. ms = pre @ m # post \<and> matching 0 seg pre = [] \<and> matching 0 seg post = r \<and> fst (fst m) = seg"
proof (induction ms)
  case (Cons a ms)
  show ?case
  proof (cases "fst (fst a) = seg")
    case True
    with Cons.prems have "a # ms = [] @ m # ms \<and> matching 0 seg [] = [] \<and> matching 0 seg ms = r \<and> fst (fst m) = seg"
      by (simp add: matching_def)
    then show ?thesis by blast
  next
    case False
    with Cons obtain pre post where "ms = pre @ m # post" "matching 0 seg pre = []" "matching 0 seg post = r" "fst (fst m) = seg"
      by (auto simp: matching_def)
    then have "a # ms = (a # pre) @ m # post \<and> matching 0 seg (a # pre) = [] \<and> matching 0 seg post = r \<and> fst (fst m) = seg"
      using False by (simp add: matching_def)
    then show ?thesis by blast
  qed
qed (simp add: matching_def)

lemma members_at_hit:
  "is_last \<or> yyjson_is_ctn x \<Longrightarrow>
   write_at_members env seg is_last target rd lvl c (((seg, t), x) # post) first False =
     bind_res (fj_splice_write_string env (sp_separator env c first) seg) (\<lambda>c.
       bind_res (target (sp_colon c) x)
         (\<lambda>c. write_at_members env seg is_last target rd lvl c post False True))"
  by (auto simp: Let_def)

text \<open>A second match never succeeds.\<close>

lemma members_at_again:
  "matching 0 seg ms \<noteq> [] \<Longrightarrow> write_at_members env seg is_last target rd lvl c ms first True \<noteq> Inr r"
proof -
  assume "matching 0 seg ms \<noteq> []"
  then obtain m q where "matching 0 seg ms = m # q" by (cases "matching 0 seg ms") auto
  from matching_split [OF this] obtain pre post where ms: "ms = pre @ m # post" "matching 0 seg pre = []" "fst (fst m) = seg"
    by blast
  obtain k v where "m = (k, v)" by (cases m)
  with ms show ?thesis by (simp add: members_at_none [OF ms(2)] bind_res_Inr)
qed

lemma members_text_append:
  "members_text env st i first (pre @ rest) = join2 (members_text env st i first pre) (members_text env st i (first \<and> pre = []) rest)"
proof (induction pre arbitrary: first)
  case (Cons m pre)
  obtain k t v where m: "m = ((k, t), v)" by (metis prod.collapse)
  with Cons [of False] show ?case by (simp add: join2_assoc del: join2.simps)
qed simp

lemma update_split:
  "matching 0 seg pre = [] \<Longrightarrow> f x = Some y \<Longrightarrow>
   update_member seg f (pre @ ((seg, t), x) # post) = Some (pre @ ((seg, t), y) # post)"
  by (induction pre) (auto simp: matching_def split: if_splits)

subsection \<open>The writer along the path\<close>

text \<open>What is assumed of the step below a container: it prints \<open>x\<close> whenever it is called behind what is
  already in the buffer.\<close>

definition step_prints :: "env \<Rightarrow> fj_splice_ctx \<Rightarrow> yyval \<Rightarrow> bool \<Rightarrow> (fj_splice_ctx \<Rightarrow> splice_res) \<Rightarrow> bool" where
  "step_prints env c x deep f \<longleftrightarrow>
    (\<forall>w. outcome (ext c w) (json_text env (style_of c) (sp_indent c) x) deep (f (ext c w)))"

lemma member_outcome:
  assumes "stack_ok env = (\<lambda>_. True)" "valid_ctx env c" "step_prints env c y deep f"
    "\<And>w. outcome (ext c w) t deep' (g (ext c w))"
  shows "outcome c (join2 (Some (sep_text (style_of c) (sp_indent c) first)) (join2 (string_text (style_of c) seg)
      (join2 (Some (colon_text (style_of c))) (join2 (json_text env (style_of c) (sp_indent c) y) t))))
    (deep \<or> deep')
    (bind_res (fj_splice_write_string env (sp_separator env c first) seg) (\<lambda>c. bind_res (f (sp_colon c)) g))"
proof -
  let ?d = "ext c (sep_text (style_of c) (sp_indent c) first)"
  have inner: "outcome (ext ?d w) (join2 (Some (colon_text (style_of c))) (join2 (json_text env (style_of c) (sp_indent c) y) t))
      (deep \<or> deep') (bind_res (f (sp_colon (ext ?d w))) g)" for w
  proof (rule outcome_prepend, rule outcome_bind)
    let ?e = "ext (ext ?d w) (colon_text (style_of c))"
    show "outcome ?e (json_text env (style_of c) (sp_indent c) y) deep (f (sp_colon (ext ?d w)))"
      using assms(3) by (simp add: step_prints_def sp_colon_ext)
    fix u
    show "outcome (ext ?e u) t deep' (g (ext ?e u))" using assms(4) by simp
  qed
  have "outcome ?d (join2 (string_text (style_of c) seg)
      (join2 (Some (colon_text (style_of c))) (join2 (json_text env (style_of c) (sp_indent c) y) t)))
      (False \<or> (deep \<or> deep'))
      (bind_res (fj_splice_write_string env ?d seg) (\<lambda>c. bind_res (f (sp_colon c)) g))"
  proof (rule outcome_bind)
    show "outcome ?d (string_text (style_of c) seg) False (fj_splice_write_string env ?d seg)"
      using string_outcome [of env ?d seg] assms(2) by simp
  qed (rule inner)
  from outcome_prepend [OF this] show ?thesis by (simp add: sp_separator_ext)
qed

text \<open>An object whose target member is there: the members around it are unchanged.\<close>

lemma members_hit_outcome:
  assumes st: "stack_ok env = (\<lambda>_. True)" and v: "valid_ctx env c"
    and split: "matching 0 seg pre = []" "matching 0 seg post = []" "is_last \<or> yyjson_is_ctn x"
    and step: "step_prints env c y (rd < vdepth d) (\<lambda>c. target c x)"
  shows "outcome c (members_text env (style_of c) (sp_indent c) True (pre @ ((seg, t), y) # post))
    (list_ex (\<lambda>m. rd < vdepth (snd m)) (pre @ ((seg, t), d) # post))
    (bind_res (write_at_members env seg is_last target (Suc rd) lvl c (pre @ ((seg, t), x) # post) True False)
      (\<lambda>(c, first, matched). bind_res (if matched then Inr c else other c first) Inr))"
proof -
  have post: "write_at_members env seg is_last target (Suc rd) lvl c post False True =
      bind_res (write_full_members env c post rd (lvl + 1) False) (\<lambda>c. Inr (c, False, True))" for c
    using members_at_none [OF split(2), where rest = "[]"] by simp
  have tail: "outcome (ext c w) (members_text env (style_of c) (sp_indent c) False post)
      (list_ex (\<lambda>m. rd < vdepth (snd m)) post)
      (write_full_members env (ext c w) post rd (lvl + 1) False)" for w
    using full_outcome(3) [OF st, of "ext c w" False post "rd" "lvl + 1"] v by simp
  have "outcome c (join2 (members_text env (style_of c) (sp_indent c) True pre)
        (members_text env (style_of c) (sp_indent c) (pre = []) (((seg, t), y) # post)))
      (list_ex (\<lambda>m. rd < vdepth (snd m)) pre \<or> (rd < vdepth d \<or> list_ex (\<lambda>m. rd < vdepth (snd m)) post))
      (bind_res (write_full_members env c pre rd (lvl + 1) True) (\<lambda>c.
        bind_res (fj_splice_write_string env (sp_separator env c (pre = [])) seg) (\<lambda>c.
          bind_res (target (sp_colon c) x) (\<lambda>c. write_full_members env c post rd (lvl + 1) False))))"
  proof (rule outcome_bind)
    show "outcome c (members_text env (style_of c) (sp_indent c) True pre) (list_ex (\<lambda>m. rd < vdepth (snd m)) pre)
        (write_full_members env c pre rd (lvl + 1) True)"
      using full_outcome(3) [OF st v] .
    fix w
    show "outcome (ext c w) (members_text env (style_of c) (sp_indent c) (pre = []) (((seg, t), y) # post))
        (rd < vdepth d \<or> list_ex (\<lambda>m. rd < vdepth (snd m)) post)
        (bind_res (fj_splice_write_string env (sp_separator env (ext c w) (pre = [])) seg) (\<lambda>c.
          bind_res (target (sp_colon c) x) (\<lambda>c. write_full_members env c post rd (lvl + 1) False)))"
      using member_outcome [OF st, of "ext c w" y "rd < vdepth d" "\<lambda>c. target c x"
          "members_text env (style_of c) (sp_indent c) False post" "list_ex (\<lambda>m. rd < vdepth (snd m)) post"
          "\<lambda>c. write_full_members env c post rd (lvl + 1) False" "pre = []" seg] v step tail
      by (simp add: step_prints_def del: join2_append)
  qed
  then show ?thesis
    by (simp add: members_at_none [OF split(1)] members_at_hit [OF split(3)] members_text_append bind_res_assoc post
        del: join2_append members_text.simps write_at_members.simps)
qed

text \<open>An object without it: the member is appended.\<close>

lemma members_new_outcome:
  assumes st: "stack_ok env = (\<lambda>_. True)" and v: "valid_ctx env c" and none: "matching 0 seg ms = []"
    and step: "step_prints env c y (rd < vdepth d) f"
  shows "outcome c (members_text env (style_of c) (sp_indent c) True (ms @ [((seg, t), y)]))
    (list_ex (\<lambda>m. rd < vdepth (snd m)) (ms @ [((seg, t), d)]))
    (bind_res (write_at_members env seg is_last target (Suc rd) lvl c ms True False)
      (\<lambda>(c, first, matched). bind_res
        (if matched then Inr c
         else bind_res (fj_splice_write_string env (sp_separator env c first) seg) (\<lambda>c. f (sp_colon c))) Inr))"
proof -
  have "outcome c (join2 (members_text env (style_of c) (sp_indent c) True ms)
        (members_text env (style_of c) (sp_indent c) (ms = []) [((seg, t), y)]))
      (list_ex (\<lambda>m. rd < vdepth (snd m)) ms \<or> (rd < vdepth d \<or> False))
      (bind_res (write_full_members env c ms rd (lvl + 1) True) (\<lambda>c.
        bind_res (fj_splice_write_string env (sp_separator env c (ms = [])) seg) (\<lambda>c. bind_res (f (sp_colon c)) Inr)))"
  proof (rule outcome_bind)
    show "outcome c (members_text env (style_of c) (sp_indent c) True ms) (list_ex (\<lambda>m. rd < vdepth (snd m)) ms)
        (write_full_members env c ms rd (lvl + 1) True)"
      using full_outcome(3) [OF st v] .
    fix w
    show "outcome (ext c w) (members_text env (style_of c) (sp_indent c) (ms = []) [((seg, t), y)]) (rd < vdepth d \<or> False)
        (bind_res (fj_splice_write_string env (sp_separator env (ext c w) (ms = [])) seg) (\<lambda>c. bind_res (f (sp_colon c)) Inr))"
      using member_outcome [OF st, of "ext c w" y "rd < vdepth d" f "Some []" False Inr "ms = []" seg] v step
      by (simp add: step_prints_def del: join2_append)
  qed
  then show ?thesis
    using members_at_none [OF none, where rest = "[]"]
    by (simp add: members_text_append bind_res_assoc del: join2_append members_text.simps)
qed

text \<open>The text of a container's elements one level down.\<close>

lemma items_text_inner:
  "vs \<noteq> [] \<Longrightarrow> items_text env (style_of c) (sp_indent (inner c False)) True vs =
     items_text env (style_of c) (sp_indent c + 1) True vs"
  using inner_text(2) [of env c vs True] by simp

lemma members_text_inner:
  "ms \<noteq> [] \<Longrightarrow> members_text env (style_of c) (sp_indent (inner c False)) True ms =
     members_text env (style_of c) (sp_indent c + 1) True ms"
  using inner_text(3) [of env c ms True] by simp

lemma ctn_depth: "yyjson_is_ctn d \<Longrightarrow> 1 < vdepth d"
  using less_foldr_max [of 0 vdepth] less_foldr_max [of 0 "\<lambda>m. vdepth (snd m)"]
  by (cases d) (simp_all add: yyjson_is_ctn_def)

lemma put_ctn: "ptr_put smax new (seg # segs) v = Some d \<Longrightarrow> yyjson_is_ctn v \<and> 1 < vdepth d"
proof -
  assume p: "ptr_put smax new (seg # segs) v = Some d"
  then have "yyjson_is_ctn d" "yyjson_is_ctn v"
    by (cases v; auto simp: yyjson_is_ctn_def split: list.splits option.splits if_splits)+
  then show ?thesis using ctn_depth [of d] by simp
qed

text \<open>The steps below a container of the path: into the value of the segment, or to a new member.\<close>

definition path_step :: "env \<Rightarrow> nat \<Rightarrow> nat \<Rightarrow> nat \<Rightarrow> nat \<Rightarrow> fj_splice_ctx \<Rightarrow> yyval \<Rightarrow> splice_res" where
  "path_step env n idx rd lvl = (\<lambda>c v.
    if idx = n - 1 then fj_splice_write_replacement env c (Suc rd - 1) (lvl + 2)
    else fj_splice_write_at env c v (idx + 1) (Suc rd - 1) (lvl + 2))"

definition path_new :: "env \<Rightarrow> nat \<Rightarrow> nat \<Rightarrow> nat \<Rightarrow> nat \<Rightarrow> fj_splice_ctx \<Rightarrow> splice_res" where
  "path_new env n idx rd lvl = (\<lambda>c.
    if idx = n - 1 then fj_splice_write_replacement env c (Suc rd - 1) (lvl + 2)
    else fj_splice_build_suffix env c idx (Suc rd - 1) (lvl + 2))"

lemma write_at_leaf:
  "idx < length (sp_segs c) \<Longrightarrow> \<not> yyjson_is_ctn v \<Longrightarrow> fj_splice_write_at env c v idx rd lvl \<noteq> Inr r"
  by (subst fj_splice_write_at.simps) (cases v; simp add: sp_fail_def yyjson_is_ctn_def)

lemma write_at_array:
  assumes "stack_ok env = (\<lambda>_. True)" "idx < length (sp_segs c)"
  shows "fj_splice_write_at env c (YArr items) idx (Suc rd) lvl =
    (if rd = 0 then sp_fail c FJ_SPLICE_DEPTH_FAIL
     else case fj_seg_is_index (size_max env) (sp_segs c ! idx) of
         None \<Rightarrow> Inl (c\<lparr>sp_settable := False\<rparr>)
       | Some want \<Rightarrow>
           if length items \<le> want then Inl (c\<lparr>sp_settable := False\<rparr>)
           else bind_res (write_at_items env (path_step env (length (sp_segs c)) idx rd lvl) want (Suc rd) (lvl + 1)
               (sp_open c 0x5B False) items 0)
             (\<lambda>c. Inr (sp_close env c 0x5D False)))"
  using assms by (subst fj_splice_write_at.simps) (auto simp: Let_def path_step_def split: option.splits)

lemma bind_res_triple:
  "bind_res r (\<lambda>(c, f, m). bind_res (g c f m) h) = bind_res (bind_res r (\<lambda>(c, f, m). bind_res (g c f m) Inr)) h"
  by (cases r) auto

lemma write_at_object:
  assumes "stack_ok env = (\<lambda>_. True)" "idx < length (sp_segs c)"
  shows "fj_splice_write_at env c (YObj ms) idx (Suc rd) lvl =
    (if rd = 0 then sp_fail c FJ_SPLICE_DEPTH_FAIL
     else bind_res
       (bind_res (write_at_members env (sp_segs c ! idx) (idx = length (sp_segs c) - 1)
           (path_step env (length (sp_segs c)) idx rd lvl) (Suc rd) (lvl + 1) (sp_open c 0x7B False) ms True False)
         (\<lambda>(c', first, matched). bind_res
           (if matched then Inr c'
            else bind_res (fj_splice_write_string env (sp_separator env c' first) (sp_segs c ! idx))
              (\<lambda>c'. path_new env (length (sp_segs c)) idx rd lvl (sp_colon c'))) Inr))
       (\<lambda>c. Inr (sp_close env c 0x7D False)))"
  using assms unfolding bind_res_triple [symmetric] path_step_def path_new_def
  by (subst fj_splice_write_at.simps) (simp add: Let_def del: One_nat_def)

lemma object_done:
  assumes "outcome (inner (ext c [0x7B]) False)
      (members_text env (style_of (inner (ext c [0x7B]) False)) (sp_indent (inner (ext c [0x7B]) False)) True out)
      (list_ex (\<lambda>m. rd < vdepth (snd m)) out') r"
    and "out \<noteq> []" "rd \<noteq> 0"
  shows "outcome c (json_text env (style_of c) (sp_indent c) (YObj out)) (Suc rd < vdepth (YObj out'))
    (bind_res r (\<lambda>c. Inr (sp_close env c 0x7D False)))"
proof -
  have "outcome (inner (ext c [0x7B]) False) (members_text env (style_of c) (sp_indent c + 1) True out)
      (list_ex (\<lambda>m. rd < vdepth (snd m)) out') r"
    using assms(1) members_text_inner [OF assms(2), of env "ext c [0x7B]"] by simp
  from ctn_outcome [OF this, where right = "0x7D" and env = env] assms(2,3) show ?thesis
    by (simp add: vdepth_ctn not_le del: vdepth.simps)
qed

lemma array_done:
  assumes "outcome (inner (ext c [0x5B]) False)
      (items_text env (style_of (inner (ext c [0x5B]) False)) (sp_indent (inner (ext c [0x5B]) False)) True out)
      (list_ex (\<lambda>v. rd < vdepth v) out') r"
    and "out \<noteq> []" "rd \<noteq> 0"
  shows "outcome c (json_text env (style_of c) (sp_indent c) (YArr out)) (Suc rd < vdepth (YArr out'))
    (bind_res r (\<lambda>c. Inr (sp_close env c 0x5D False)))"
proof -
  have "outcome (inner (ext c [0x5B]) False) (items_text env (style_of c) (sp_indent c + 1) True out)
      (list_ex (\<lambda>v. rd < vdepth v) out') r"
    using assms(1) items_text_inner [OF assms(2), of env "ext c [0x5B]"] by simp
  from ctn_outcome [OF this, where right = "0x5D" and env = env] assms(2,3) show ?thesis
    by (simp add: vdepth_ctn not_le del: vdepth.simps)
qed


lemma put_single:
  assumes "ptr_put smax new (seg # segs) (YObj (pre @ ((seg, t), x) # post)) = Some r"
    "matching 0 seg pre = []" "matching 0 seg post = []"
  shows "\<exists>y. ptr_put smax new segs x = Some y \<and> r = YObj (pre @ ((seg, t), y) # post)"
proof -
  have m: "matching 0 seg (pre @ ((seg, t), x) # post) = [((seg, t), x)]" using assms(2,3) by (simp add: matching_def)
  have eq: "ptr_put smax new (seg # segs) (YObj (pre @ ((seg, t), x) # post)) =
      map_option YObj (update_member seg (ptr_put smax new segs) (pre @ ((seg, t), x) # post))"
    unfolding ptr_put.simps yyval.case m by simp
  show ?thesis
  proof (cases "ptr_put smax new segs x")
    case None
    then have "update_member seg (ptr_put smax new segs) (pre @ ((seg, t), x) # post) = None"
      by (simp add: update_member_none [OF m])
    with assms(1) show ?thesis unfolding eq by simp
  next
    case (Some y)
    with assms(1) show ?thesis
      unfolding eq update_split [OF assms(2), of "ptr_put smax new segs", OF Some] by simp
  qed
qed

lemma write_at_outcome:
  assumes st: "stack_ok env = (\<lambda>_. True)"
  shows "valid_ctx env c \<Longrightarrow> represents env (style_of c) (sp_replacement c) new \<Longrightarrow> 0 \<le> sp_indent c \<Longrightarrow>
    idx < length (sp_segs c) \<Longrightarrow>
    ptr_put (size_max env) new (drop idx (sp_segs c)) v = Some r \<Longrightarrow>
    ptr_put (size_max env) (measured (sp_replacement c)) (drop idx (sp_segs c)) v = Some d \<Longrightarrow>
    outcome c (json_text env (style_of c) (sp_indent c) r) (rd < vdepth d) (fj_splice_write_at env c v idx rd lvl)"
proof (induction rd arbitrary: c idx lvl v r d)
  case (0 c idx lvl v r d)
  then show ?case
    using vdepth_pos [of d] by (subst fj_splice_write_at.simps) (simp add: sp_fail_def outcome_def)
next
  case (Suc rd)
  let ?segs = "sp_segs c" and ?meas = "measured (sp_replacement c)"
  let ?seg = "?segs ! idx" and ?rest = "drop (Suc idx) ?segs" and ?put = "ptr_put (size_max env)"
  let ?last = "idx = length ?segs - 1" and ?n = "length ?segs"
  have seg: "drop idx ?segs = ?seg # ?rest" using Suc.prems(4) by (simp add: Cons_nth_drop_Suc)
  note put = Suc.prems(5,6) [unfolded seg]
  show ?case
  proof (cases "rd = 0")
    case True
    then show ?thesis
      using put_ctn [OF put(2)] by (subst fj_splice_write_at.simps) (simp add: sp_fail_def outcome_def)
  next
    case rd: False
    have last: "?rest = []" if ?last using that by simp
    have ctx: "valid_ctx env (inner (ext c b) False)" "0 \<le> sp_indent (inner (ext c b) False)" for b
      using Suc.prems(1,3) by (simp_all add: inner_False)
    have repl: "step_prints env (inner (ext c b) False) new (rd < vdepth ?meas)
        (\<lambda>c. fj_splice_write_replacement env c rd (lvl + 2))" for b
      using replacement_outcome [OF st, of "ext (inner (ext c b) False) _" new rd "lvl + 2"] ctx Suc.prems(2) rd
      by (simp add: step_prints_def)
    have step: "step_prints env (inner (ext c b) False) y (rd < vdepth e) (\<lambda>c. path_step env ?n idx rd lvl c x)"
      if y: "?put new ?rest x = Some y" "?put ?meas ?rest x = Some e" for b x y e
    proof (cases ?last)
      case True
      with y repl [of b] last show ?thesis by (simp add: path_step_def)
    next
      case False
      then have "Suc idx < ?n" using Suc.prems(4) by simp
      with Suc.IH [of "ext (inner (ext c b) False) _" "Suc idx" x y e "lvl + 2"] y ctx Suc.prems(2) False show ?thesis
        by (simp add: step_prints_def path_step_def)
    qed
    have new: "step_prints env (inner (ext c b) False) (ptr_suffix ?rest new) (rd < vdepth (ptr_suffix ?rest ?meas))
        (path_new env ?n idx rd lvl)" for b
    proof (cases ?last)
      case True
      with repl [of b] last show ?thesis by (simp add: path_new_def)
    next
      case False
      with suffix_outcome [OF st, of "ext (inner (ext c b) False) _" new rd idx "lvl + 2"] ctx Suc.prems(2,4) rd show ?thesis
        by (simp add: step_prints_def path_new_def)
    qed
    show ?thesis
    proof (cases v)
      case (YArr items)
      from put YArr obtain i y e where i: "fj_seg_is_index (size_max env) ?seg = Some i" "i < length items"
        "?put new ?rest (items ! i) = Some y" "r = YArr (items[i := y])"
        "?put ?meas ?rest (items ! i) = Some e" "d = YArr (items[i := e])"
        by (auto split: option.splits if_splits)
      let ?c = "inner (ext c [0x5B]) False"
      have "outcome ?c (items_text env (style_of c) (sp_indent ?c) True (items[i := y]))
          (list_ex (\<lambda>v. rd < vdepth v) (items[i := e]))
          (write_at_items env (path_step env ?n idx rd lvl) i (Suc rd) (lvl + 1) ?c items 0)"
        using items_at_outcome [OF st ctx(1) [of "[0x5B]"], of 0 i items y "Suc rd" e "path_step env ?n idx rd lvl" "lvl + 1"]
          step [OF i(3,5), of "[0x5B]"] by (simp add: step_prints_def)
      moreover have "items[i := y] \<noteq> []" using i(2) by auto
      ultimately show ?thesis
        using array_done rd i YArr by (simp add: write_at_array [OF st Suc.prems(4)] sp_open_inner not_le del: json_text.simps vdepth.simps)
    next
      case (YObj ms)
      let ?c = "inner (ext c [0x7B]) False"
      show ?thesis
      proof (cases "matching 0 ?seg ms" rule: matching_cases)
        case Nil
        with put YObj have "r = YObj (ms @ [((?seg, False), ptr_suffix ?rest new)])"
          "d = YObj (ms @ [((?seg, False), ptr_suffix ?rest ?meas)])" by simp_all
        then show ?thesis
          using object_done [OF members_new_outcome [OF st ctx(1) Nil new [of "[0x7B]"]]] rd YObj
          by (simp add: write_at_object [OF st Suc.prems(4)] sp_open_inner del: json_text.simps vdepth.simps)
      next
        case (single m)
        from matching_split [OF single] obtain pre t x post where ms: "ms = pre @ ((?seg, t), x) # post"
          "matching 0 ?seg pre = []" "matching 0 ?seg post = []" by (metis prod.collapse)
        obtain y e where y: "?put new ?rest x = Some y" "?put ?meas ?rest x = Some e"
          "r = YObj (pre @ ((?seg, t), y) # post)" "d = YObj (pre @ ((?seg, t), e) # post)"
          using put_single [OF put(1) [unfolded YObj ms(1)] ms(2,3)] put_single [OF put(2) [unfolded YObj ms(1)] ms(2,3)]
          by blast
        have leaf: "?last \<or> yyjson_is_ctn x"
        proof (cases ?rest)
          case Nil
          with Suc.prems(4) have "?last" by simp
          then show ?thesis ..
        next
          case (Cons a b)
          with put_ctn [OF y(1) [unfolded Cons]] show ?thesis by simp
        qed
        show ?thesis
          using object_done [OF members_hit_outcome [where target = "path_step env ?n idx rd lvl", OF st ctx(1) ms(2,3) leaf step [OF y(1,2), of "[0x7B]"]]] rd YObj ms(1) y
          by (simp add: write_at_object [OF st Suc.prems(4)] sp_open_inner del: json_text.simps vdepth.simps)
      next
        case (many m m' q)
        with put YObj show ?thesis by simp
      qed
    qed (use put in auto)
  qed
qed


subsection \<open>No output without a result\<close>

lemma full_Inr:
  assumes "stack_ok env = (\<lambda>_. True)" "valid_ctx env c"
  shows "fj_splice_write_full env c v rd lvl = Inr c' \<Longrightarrow> \<exists>w. c' = ext c w"
    "write_full_members env c ms rd lvl first = Inr c' \<Longrightarrow> \<exists>w. c' = ext c w"
    "fj_splice_write_string env c s = Inr c' \<Longrightarrow> \<exists>w. c' = ext c w"
  using full_outcome(1) [OF assms, of v rd lvl] full_outcome(3) [OF assms, of first ms rd lvl] string_outcome [OF assms(2), of s]
  by (auto simp: outcome_def)

lemma items_at_Inr:
  assumes st: "stack_ok env = (\<lambda>_. True)"
  shows "valid_ctx env c \<Longrightarrow> write_at_items env target want rd lvl c vs cur = Inr c' \<Longrightarrow> cur \<le> want \<Longrightarrow> want - cur < length vs \<Longrightarrow>
    \<exists>w c''. target (ext c w) (vs ! (want - cur)) = Inr c''"
proof (induction vs arbitrary: c cur)
  case (Cons v vs)
  let ?c = "ext c (sep_text (style_of c) (sp_indent c) (cur = 0))"
  show ?case
  proof (cases "cur = want")
    case True
    with Cons.prems(2) show ?thesis by (auto simp: Let_def sp_separator_ext bind_res_Inr)
  next
    case False
    with Cons.prems(2) obtain c1 where c1: "fj_splice_write_full env ?c v (rd - 1) (lvl + 1) = Inr c1"
      "write_at_items env target want rd lvl c1 vs (Suc cur) = Inr c'" by (auto simp: Let_def sp_separator_ext bind_res_Inr)
    have "valid_ctx env ?c" using Cons.prems(1) by simp
    from full_Inr(1) [OF st this c1(1)] obtain w where "c1 = ext ?c w" by blast
    moreover have "want - cur = Suc (want - Suc cur)" using False Cons.prems(3) by simp
    ultimately show ?thesis using Cons.IH [of c1 "Suc cur"] c1 Cons.prems False by auto
  qed
qed simp

lemma members_at_Inr:
  assumes st: "stack_ok env = (\<lambda>_. True)" and v: "valid_ctx env c"
    and r: "write_at_members env seg is_last target rd lvl c (pre @ ((seg, t), x) # post) True False = Inr r"
    and none: "matching 0 seg pre = []"
  shows "is_last \<or> (\<exists>w c''. target (ext c w) x = Inr c'')"
proof (cases is_last)
  case False
  from r obtain c1 where c1: "write_full_members env c pre (rd - 1) (lvl + 1) True = Inr c1"
    "write_at_members env seg is_last target rd lvl c1 (((seg, t), x) # post) (pre = []) False = Inr r"
    by (auto simp: members_at_none [OF none] bind_res_Inr simp del: write_at_members.simps)
  have ctn: "is_last \<or> yyjson_is_ctn x" using c1(2) False by (cases "yyjson_is_ctn x") (simp_all add: Let_def)
  from full_Inr(2) [OF st v c1(1)] obtain w where w: "c1 = ext c w" by blast
  let ?c = "ext c1 (sep_text (style_of c1) (sp_indent c1) (pre = []))"
  from c1(2) obtain c2 c3 where c2: "fj_splice_write_string env ?c seg = Inr c2" "target (sp_colon c2) x = Inr c3"
    by (auto simp: members_at_hit [OF ctn] bind_res_Inr sp_separator_ext simp del: write_at_members.simps)
  have "valid_ctx env ?c" using v w by simp
  from full_Inr(3) [OF st this c2(1)] obtain u where "c2 = ext ?c u" by blast
  with c2(2) w have "\<exists>w c''. target (ext c w) x = Inr c''" by (auto simp: sp_colon_ext)
  then show ?thesis ..
qed simp

lemma write_at_Inr:
  assumes st: "stack_ok env = (\<lambda>_. True)"
  shows "valid_ctx env c \<Longrightarrow> idx < length (sp_segs c) \<Longrightarrow> fj_splice_write_at env c v idx rd lvl = Inr c' \<Longrightarrow>
    ptr_put (size_max env) new (drop idx (sp_segs c)) v \<noteq> None"
proof (induction rd arbitrary: c idx lvl v c')
  case (0 c idx lvl v c')
  then show ?case by (subst (asm) fj_splice_write_at.simps) (simp add: sp_fail_def)
next
  case (Suc rd)
  let ?seg = "sp_segs c ! idx" and ?rest = "drop (Suc idx) (sp_segs c)" and ?put = "ptr_put (size_max env) new"
  let ?n = "length (sp_segs c)" and ?last = "idx = length (sp_segs c) - 1"
  have seg: "drop idx (sp_segs c) = ?seg # ?rest" using Suc.prems(2) by (simp add: Cons_nth_drop_Suc)
  have ctn: "yyjson_is_ctn v" using write_at_leaf [OF Suc.prems(2)] Suc.prems(3) by blast
  have rest: "?put ?rest x \<noteq> None"
    if "path_step env ?n idx rd lvl (ext (inner (ext c b) False) w) x = Inr c''" for b w x c''
  proof (cases ?last)
    case False
    then have "Suc idx < ?n" using Suc.prems(2) by simp
    with False that Suc.IH [of "ext (inner (ext c b) False) w" "Suc idx" x "lvl + 2" c''] Suc.prems(1) show ?thesis
      by (simp add: path_step_def)
  qed simp
  show ?case
  proof (cases v)
    case (YArr items)
    from Suc.prems(3) YArr obtain i c1 where i: "fj_seg_is_index (size_max env) ?seg = Some i" "i < length items"
      "write_at_items env (path_step env ?n idx rd lvl) i (Suc rd) (lvl + 1) (inner (ext c [0x5B]) False) items 0 = Inr c1"
      by (auto simp: write_at_array [OF st Suc.prems(2)] sp_fail_def sp_open_inner bind_res_Inr split: if_splits option.splits)
    from items_at_Inr [OF st _ i(3)] i(2) Suc.prems(1) obtain w c''
      where "path_step env ?n idx rd lvl (ext (inner (ext c [0x5B]) False) w) (items ! i) = Inr c''" by auto
    from rest [OF this] i YArr seg show ?thesis by (auto split: option.splits)
  next
    case (YObj ms)
    from Suc.prems(3) YObj obtain q where q: "write_at_members env ?seg ?last (path_step env ?n idx rd lvl) (Suc rd) (lvl + 1)
        (inner (ext c [0x7B]) False) ms True False = Inr q"
      by (auto simp: write_at_object [OF st Suc.prems(2)] sp_fail_def sp_open_inner bind_res_Inr split: if_splits)
    show ?thesis
    proof (cases "matching 0 ?seg ms" rule: matching_cases)
      case Nil
      with YObj seg show ?thesis by simp
    next
      case (single m)
      from matching_split [OF single] obtain pre t x post where ms: "ms = pre @ ((?seg, t), x) # post" "m = ((?seg, t), x)"
        "matching 0 ?seg pre = []" by (metis prod.collapse)
      from members_at_Inr [OF st _ q [unfolded ms(1)] ms(3)] Suc.prems(1)
      have "?last \<or> (\<exists>w c''. path_step env ?n idx rd lvl (ext (inner (ext c [0x7B]) False) w) x = Inr c'')" by simp
      then have "?put ?rest x \<noteq> None"
      proof
        assume ?last
        then have "?rest = []" by simp
        then show ?thesis by simp
      qed (use rest in blast)
      then have "update_member ?seg (?put ?rest) ms \<noteq> None"
        using update_member_none [OF single [unfolded ms(2)], of "?put ?rest"] by simp
      with single YObj seg show ?thesis by simp
    next
      case (many m m' rest')
      from matching_split [OF many] obtain pre post where ms: "ms = pre @ m # post" "matching 0 ?seg pre = []"
        "matching 0 ?seg post \<noteq> []" "fst (fst m) = ?seg" by auto
      obtain k x where m: "m = (k, x)" by (cases m)
      with ms q members_at_again [OF ms(3)] show ?thesis
        by (auto simp: members_at_none [OF ms(2)] bind_res_Inr Let_def sp_fail_def split: if_splits)
    qed
  qed (use ctn in \<open>simp_all add: yyjson_is_ctn_def\<close>)
qed


subsection \<open>Properties\<close>

lemma render_inj: "render_pointer a = render_pointer b \<Longrightarrow> a = b"
  using fill_segments_render [of a] fill_segments_render [of b] count_render [of a] count_render [of b] by simp

definition doc_style :: "zend_long \<Rightarrow> style" where
  "doc_style flags = \<lparr>st_flags = flags, st_yflags = fastjson_translate_write_flags flags True,
     st_pretty = has_flag flags FASTJSON_ENCODE_PRETTY_PRINT\<rparr>"

definition start_ctx :: "fj_ptr_seg list \<Rightarrow> fastjson_pointer_repl \<Rightarrow> zend_long \<Rightarrow> fj_splice_ctx" where
  "start_ctx segs rp flags =
    \<lparr>sp_buf = [], sp_flags = flags, sp_yflags = fastjson_translate_write_flags flags True,
     sp_pretty = has_flag flags FASTJSON_ENCODE_PRETTY_PRINT, sp_indent = 0,
     sp_replacement = rp, sp_segs = segs, sp_status = FJ_SPLICE_OK, sp_settable = segs \<noteq> []\<rparr>"

lemma start_ctx:
  "5 \<le> zstr_max env \<Longrightarrow> valid_ctx env (start_ctx segs rp flags)" "style_of (start_ctx segs rp flags) = doc_style flags"
  "sp_indent (start_ctx segs rp flags) = 0" "sp_replacement (start_ctx segs rp flags) = rp"
  "sp_segs (start_ctx segs rp flags) = segs" "sp_buf (start_ctx segs rp flags) = []"
  "sp_status (start_ctx segs rp flags) = FJ_SPLICE_OK" "sp_settable (start_ctx segs rp flags) = (segs \<noteq> [])"
  by (simp_all add: start_ctx_def valid_ctx_def style_of_def doc_style_def)

lemma set_write_start:
  "fastjson_imut_pointer_set_write env root segs rp flags depth_limit =
    (if segs = [] then
       case fj_splice_write_replacement env (start_ctx segs rp flags) depth_limit 1 of
         Inl c \<Rightarrow> Inl (if sp_status c = FJ_SPLICE_OK then FJ_SPLICE_WRITE_FAIL else sp_status c)
       | Inr c \<Rightarrow> Inr (sp_buf c)
     else
       case fj_splice_write_at env (start_ctx segs rp flags) root 0 depth_limit 1 of
         Inl c \<Rightarrow> Inl (if sp_status c \<noteq> FJ_SPLICE_OK then sp_status c
                      else if sp_settable c then FJ_SPLICE_WRITE_FAIL else FJ_SPLICE_SETTABLE_FAIL)
       | Inr c \<Rightarrow> Inr (sp_buf c))"
  by (simp add: fastjson_imut_pointer_set_write_def Let_def start_ctx_def)

lemma set_write_outcome:
  assumes "stack_ok env = (\<lambda>_. True)" "5 \<le> zstr_max env" "represents env (doc_style flags) rp new" "0 < depth_limit"
    "ptr_put (size_max env) new segs root = Some r" "ptr_put (size_max env) (measured rp) segs root = Some d"
  shows "case fastjson_imut_pointer_set_write env root segs rp flags depth_limit of
      Inr out \<Rightarrow> json_text env (doc_style flags) 0 r = Some out \<and> vdepth d \<le> depth_limit
    | Inl st \<Rightarrow> st = FJ_SPLICE_TOO_LARGE \<or> depth_limit < vdepth d \<and> st = FJ_SPLICE_DEPTH_FAIL \<or>
        json_text env (doc_style flags) 0 r = None \<and> st \<in> {FJ_SPLICE_INVALID_UTF8, FJ_SPLICE_INF_OR_NAN, FJ_SPLICE_WRITE_FAIL}"
proof -
  let ?c = "start_ctx segs rp flags"
  have c: "valid_ctx env ?c" using assms(2) by (rule start_ctx)
  show ?thesis
  proof (cases "segs = []")
    case True
    then have "outcome ?c (json_text env (doc_style flags) 0 r) (depth_limit < vdepth d) (fj_splice_write_replacement env ?c depth_limit 1)"
      using replacement_outcome [OF assms(1) c, of new depth_limit 1] assms(3-6) by (simp add: start_ctx)
    with True show ?thesis
      by (auto simp: set_write_start outcome_def start_ctx split: sum.splits)
  next
    case False
    then have "outcome ?c (json_text env (doc_style flags) 0 r) (depth_limit < vdepth d) (fj_splice_write_at env ?c root 0 depth_limit 1)"
      using write_at_outcome [OF assms(1) c, of new 0 root r d depth_limit 1] assms(3-6) by (simp add: start_ctx)
    with False show ?thesis
      by (auto simp: set_write_start outcome_def start_ctx split: sum.splits)
  qed
qed

lemma set_write_put:
  assumes "stack_ok env = (\<lambda>_. True)" "5 \<le> zstr_max env"
    "fastjson_imut_pointer_set_write env root segs rp flags depth_limit = Inr out"
  shows "\<exists>r. ptr_put (size_max env) new segs root = Some r"
proof (cases "segs = []")
  case False
  with assms(3) obtain c where c: "fj_splice_write_at env (start_ctx segs rp flags) root 0 depth_limit 1 = Inr c"
    by (auto simp: set_write_start split: sum.splits)
  from write_at_Inr [OF assms(1) start_ctx(1) [OF assms(2)] _ c] False show ?thesis by (simp add: start_ctx)
qed simp

definition demo_env :: env where
  "demo_env = \<lparr>zstr_max = 1000, size_max = 4294967295, buf_cap = (\<lambda>b. length b), stack_ok = (\<lambda>_. True),
     write_number = (\<lambda>v. case v of YUint n \<Rightarrow> Some (decimal (unat n)) | _ \<Rightarrow> None), strtod_finite = (\<lambda>_. True)\<rparr>"

definition demo_doc :: yyval where
  "demo_doc = YArr [YNull, YBool True]"

lemma demo_env_simps:
  "zstr_max demo_env = 1000" "size_max demo_env = 4294967295" "stack_ok demo_env = (\<lambda>_. True)"
  by (simp_all add: demo_env_def)

lemma demo_index: "fj_seg_is_index 4294967295 [0x31] = Some 1" "fj_seg_is_index 4294967295 [0x30] = Some 0"
  by (simp_all add: seg_index_iff decimal.simps byte_of_def)

lemma demo_write:
  "fastjson_imut_pointer_set_write demo_env demo_doc [ascii ''1''] \<lparr>rp_encoded = None, rp_repl = YBool False\<rparr> 0 512 =
     Inr (ascii ''[null,false]'')"
proof -
  have w: "fj_splice_write_full demo_env c v 511 l = Inr (sp_append c t)" if "(v, t) \<in> {(YNull, ascii ''null''), (YBool False, ascii ''false'')}" for c v t l
    using that by (subst fj_splice_write_full.simps) (auto simp: demo_env_simps)
  show ?thesis
    unfolding set_write_start
    by (subst fj_splice_write_at.simps) (simp add: start_ctx_def demo_doc_def demo_env_simps ascii_def byte_of_def demo_index
      sp_open_def sp_close_def sp_separator_def sp_append_def has_flag_def
      fj_splice_write_replacement_def w Let_def)
qed

lemma demo_too_deep:
  "fastjson_imut_pointer_set_write demo_env demo_doc [ascii ''1''] \<lparr>rp_encoded = None, rp_repl = YBool False\<rparr> 0 1 =
     Inl FJ_SPLICE_DEPTH_FAIL"
  unfolding set_write_start by (subst fj_splice_write_at.simps) (simp add: sp_fail_def)

lemma demo_put: "ptr_put 4294967295 new [ascii ''1''] demo_doc = Some (YArr [YNull, new])"
  by (simp add: demo_doc_def demo_index ascii_def byte_of_def)

text \<open>C4: a set that succeeds writes exactly the text, in the flags' style, of the document with the value
  put at the path: members and elements off the path keep their text and order, the existing member is
  replaced in place, missing members are appended, and encoded replacements are re-indented to their depth.\<close>

theorem set_write_refines:
  assumes "stack_ok env = (\<lambda>_. True)" "5 \<le> zstr_max env" "represents env (doc_style flags) rp new" "0 < depth_limit"
    "fastjson_imut_pointer_set_write env root segs rp flags depth_limit = Inr out"
  shows "\<exists>r. ptr_put (size_max env) new segs root = Some r \<and> json_text env (doc_style flags) 0 r = Some out"
proof -
  obtain r d where "ptr_put (size_max env) new segs root = Some r" "ptr_put (size_max env) (measured rp) segs root = Some d"
    using set_write_put [OF assms(1,2,5)] by blast
  with set_write_outcome [OF assms(1-4) this] assms(5) show ?thesis by simp
qed

lemma set_write_refines_witness:
  "\<exists>r. ptr_put 4294967295 (YBool False) [ascii ''1''] demo_doc = Some r \<and>
     json_text demo_env (doc_style 0) 0 r = Some (ascii ''[null,false]'')"
  using set_write_refines [OF _ _ _ _ demo_write, of "YBool False"] by (simp add: demo_env_simps represents_def)










end
