(* ===== verification/SetProps.thy ===== *)
theory SetProps
  imports EncodeProps SplicePath
begin

text \<open>
  \<open>fastjson_pointer_set\<close> from end to end: the text the encoder prints for a value is the text the splice
  writer's specification gives the JSON value it stands for, so that the result is the document with that value put
  at the pointer.
\<close>

subsection \<open>The JSON value of a PHP value\<close>

definition clean_string :: "zend_long \<Rightarrow> bytes \<Rightarrow> bytes" where
  "clean_string flags s =
    (if FASTJSON_HAS_UTF8_HANDLING_FLAG flags \<and> \<not> utf8_wf s then fastjson_sanitize_utf8 s flags FJ_SAN_ENCODE else s)"

text \<open>A floating-point number stands for the number its text denotes.\<close>

fun jval_json :: "engine \<Rightarrow> style \<Rightarrow> int \<Rightarrow> jval \<Rightarrow> yyval"
  and elements_json :: "engine \<Rightarrow> style \<Rightarrow> int \<Rightarrow> (zkey \<times> jval) list \<Rightarrow> ((bytes \<times> bool) \<times> yyval) list" where
  "jval_json e st p (JBool b) = YBool b"
| "jval_json e st p (JLong n) = YSint n"
| "jval_json e st p (JDouble d) = YRaw (double_text e st p d)"
| "jval_json e st p (JString s) =
    (case numeric_value e (st_flags st) s of
       NumLong n \<Rightarrow> YSint n | NumDouble d \<Rightarrow> YRaw (double_text e st p d) | NotNumeric \<Rightarrow> YStr (clean_string (st_flags st) s) False)"
| "jval_json e st p (JArray i ht) =
    (if prints_list st ht then YArr (map snd (elements_json e st p ht)) else YObj (elements_json e st p ht))"
| "jval_json e st p (JObject g ht) = YObj (elements_json e st p ht)"
| "jval_json e st p (JEnum v) = jval_json e st p v"
| "jval_json e st p _ = YNull"
| "elements_json e st p [] = []"
| "elements_json e st p ((k, v) # ht) =
    ((case k of KStr s \<Rightarrow> clean_string (st_flags st) s | KInt i \<Rightarrow> long_text e (word_of_int i), False), jval_json e st p v) #
    elements_json e st p ht"

lemma elements_json_Nil [simp]: "elements_json e st p ht = [] \<longleftrightarrow> ht = []"
  by (cases "(e, st, p, ht)" rule: elements_json.cases) auto

text \<open>Numbers print as digits, a sign, a point and an exponent, and are finite.\<close>

definition number_byte :: "byte \<Rightarrow> bool" where
  "number_byte c \<longleftrightarrow> is_digit c \<or> c \<in> {0x2B, 0x2D, 0x2E, 0x45, 0x65}"

definition numbers_ok :: "engine \<Rightarrow> int \<Rightarrow> bool" where
  "numbers_ok e p \<longleftrightarrow> (\<forall>n. list_all number_byte (long_text e n)) \<and>
    (\<forall>st d. f64_isfinite d \<longrightarrow>
      list_all number_byte (double_text e st p d) \<and> \<not> raw_overflows (plat e) (double_text e st p d))"

subsection \<open>Styles\<close>

lemma esc_body_cong: "(\<And>r. char_out f r = char_out g r) \<Longrightarrow> esc_body f s = esc_body g s"
proof (induction f s rule: esc_body.induct)
  case (1 f r)
  then show ?case by (cases "utf8_next r = 0") (simp_all add: esc_body.simps [of _ r])
qed

lemmas value_flag_defs = FASTJSON_POINTER_VALUE_ENCODE_FLAGS_def FASTJSON_ENCODE_HEX_TAG_def FASTJSON_ENCODE_HEX_AMP_def
  FASTJSON_ENCODE_HEX_APOS_def FASTJSON_ENCODE_HEX_QUOT_def FASTJSON_ENCODE_UNESCAPED_SLASHES_def
  FASTJSON_ENCODE_UNESCAPED_UNICODE_def FASTJSON_ENCODE_PRETTY_PRINT_def FASTJSON_ENCODE_FORCE_OBJECT_def
  FASTJSON_ENCODE_NUMERIC_CHECK_def FASTJSON_ENCODE_PARTIAL_OUTPUT_ON_ERROR_def
  FASTJSON_ENCODE_PRESERVE_ZERO_FRACTION_def FASTJSON_INVALID_UTF8_IGNORE_def FASTJSON_INVALID_UTF8_SUBSTITUTE_def
  FASTJSON_ENCODE_THROW_ON_ERROR_def

lemma value_flag:
  "f AND FASTJSON_POINTER_VALUE_ENCODE_FLAGS = f \<Longrightarrow>
    has_flag (flags AND FASTJSON_POINTER_VALUE_ENCODE_FLAGS) f = has_flag flags f"
  by (simp add: has_flag_def and.assoc and.commute [of f])

lemma value_flags [simp]:
  "has_flag (flags AND FASTJSON_POINTER_VALUE_ENCODE_FLAGS) FASTJSON_ENCODE_HEX_TAG = has_flag flags FASTJSON_ENCODE_HEX_TAG"
  "has_flag (flags AND FASTJSON_POINTER_VALUE_ENCODE_FLAGS) FASTJSON_ENCODE_HEX_AMP = has_flag flags FASTJSON_ENCODE_HEX_AMP"
  "has_flag (flags AND FASTJSON_POINTER_VALUE_ENCODE_FLAGS) FASTJSON_ENCODE_HEX_APOS = has_flag flags FASTJSON_ENCODE_HEX_APOS"
  "has_flag (flags AND FASTJSON_POINTER_VALUE_ENCODE_FLAGS) FASTJSON_ENCODE_HEX_QUOT = has_flag flags FASTJSON_ENCODE_HEX_QUOT"
  "has_flag (flags AND FASTJSON_POINTER_VALUE_ENCODE_FLAGS) FASTJSON_ENCODE_UNESCAPED_SLASHES =
    has_flag flags FASTJSON_ENCODE_UNESCAPED_SLASHES"
  "has_flag (flags AND FASTJSON_POINTER_VALUE_ENCODE_FLAGS) FASTJSON_ENCODE_UNESCAPED_UNICODE =
    has_flag flags FASTJSON_ENCODE_UNESCAPED_UNICODE"
  "has_flag (flags AND FASTJSON_POINTER_VALUE_ENCODE_FLAGS) FASTJSON_ENCODE_PRETTY_PRINT =
    has_flag flags FASTJSON_ENCODE_PRETTY_PRINT"
  by (rule value_flag; simp add: value_flag_defs)+

lemma esc_body_style:
  "esc_body (fastjson_translate_write_flags (flags AND FASTJSON_POINTER_VALUE_ENCODE_FLAGS) False) s =
    esc_body (fastjson_translate_write_flags flags True) s"
  by (rule esc_body_cong) (simp add: char_out_def ascii_out_def get_enc_table_flag get_hex_table_with_flag_def Let_def cong: if_cong)

lemma hex_forward_cong: "(\<And>t. hex_token f t = hex_token g t) \<Longrightarrow> hex_forward f s = hex_forward g s"
  by (induction f s rule: hex_forward.induct) auto

lemma hex_forward_style: "hex_forward (flags AND FASTJSON_POINTER_VALUE_ENCODE_FLAGS) s = hex_forward flags s"
  by (rule hex_forward_cong) (simp add: hex_token_def hex_special_def)

subsection \<open>The two printers agree\<close>

abbreviation value_style :: "zend_long \<Rightarrow> style" where
  "value_style flags \<equiv> encode_style (flags AND FASTJSON_POINTER_VALUE_ENCODE_FLAGS)"

lemma layout_style:
  "nl_text (value_style flags) = nl_text (doc_style flags)"
  "sep_text (value_style flags) = sep_text (doc_style flags)"
  "colon_text (value_style flags) = colon_text (doc_style flags)"
  by (simp_all add: fun_eq_iff nl_text_def sep_text_def colon_text_def encode_style_def doc_style_def)

lemma quoted_text:
  assumes "\<not> bad_string (st_flags (value_style flags)) s"
  shows "string_text (doc_style flags) (clean_string (st_flags (value_style flags)) s) = Some (quoted (value_style flags) s)"
  using assms
  by (auto simp: string_text_def quoted_def clean_string_def bad_string_def encode_style_def doc_style_def Let_def
      esc_body_style hex_forward_style fastjson_sanitize_utf8_def sanitize_loop_wf)

lemma number_byte_plain:
  "number_byte c \<Longrightarrow> \<not> needs flg c \<and> \<not> hex_special flags c \<and> c \<noteq> 0x5C"
  by (auto simp: number_byte_def is_digit_def needs_def fastjson_ascii_byte_needs_escape_def hex_special_def
      word_le_nat_alt word_less_nat_alt)

lemma quoted_number:
  assumes "list_all number_byte s"
  shows "string_text st s = Some (0x22 # s @ [0x22])"
proof -
  have "list_all (\<lambda>c. \<not> needs (st_yflags st) c) s" "list_all (\<lambda>c. \<not> hex_special (st_flags st) c \<and> c \<noteq> 0x5C) s"
    using assms number_byte_plain by (auto simp: list_all_iff)
  then show ?thesis
    using esc_body_plain [of "st_yflags st" s] hex_forward_inert [of "st_flags st" s "[]"] by (simp add: string_text_def)
qed

lemma number_texts:
  assumes "numbers_ok e p"
  shows "list_all number_byte (long_text e n)"
    and "f64_isfinite d \<Longrightarrow> list_all number_byte (double_text e st p d) \<and> \<not> raw_overflows (plat e) (double_text e st p d)"
  using assms by (simp_all add: numbers_ok_def)

lemma long_number: "engine_ok e \<Longrightarrow> number_text (plat e) (YSint n) = Some (long_text e n)"
  by (auto simp: number_text_def long_text_def engine_ok_def split: option.splits)

lemma jval_json_text:
  assumes e: "engine_ok e" and num: "numbers_ok e p" and st: "st = value_style flags"
  shows "jval_errors e (st_flags st) G d lvl v = [] \<Longrightarrow>
      json_text (plat e) (doc_style flags) i (jval_json e st p v) = Some (jval_text e st p i v)"
    and "elements_errors e (st_flags st) G d lvl as_list ht = [] \<Longrightarrow>
      (if as_list then items_text (plat e) (doc_style flags) i first (map snd (elements_json e st p ht))
       else members_text (plat e) (doc_style flags) i first (elements_json e st p ht)) =
      Some (elements_text e st p i as_list first ht)"
  using e num st
proof (induction e st p i v and e st p i as_list first ht arbitrary: G d lvl and G d lvl
    rule: jval_text_elements_text.induct)
  case (4 e st p i x)
  then show ?case using number_texts(2) [of e p x st] by (simp split: if_splits)
next
  case (5 e st p i s)
  have E: "(case numeric_value e (st_flags st) s of NotNumeric \<Rightarrow> string_errors (st_flags st) s | _ \<Rightarrow> []) = []"
    using 5(1) by (simp split: if_splits)
  show ?case
  proof (cases "numeric_value e (st_flags st) s")
    case NotNumeric
    then show ?thesis using E 5(4) quoted_text [of flags s] by (simp add: string_errors_def split: if_splits)
  next
    case (NumDouble x)
    then have "f64_isfinite x" by (auto simp: numeric_value_def split: if_splits numeric_string.splits)
    then show ?thesis using NumDouble 5 number_texts(2) [of e p x st] by simp
  qed (use 5 long_number in simp)
next
  case (6 e st p i ident ht)
  then have "elements_errors e (st_flags st) (array_flag ident \<union> G) (d - 1) (lvl + 1) (prints_list st ht) ht = []"
    by (simp add: prints_list_def split: if_splits)
  with 6 have "(if prints_list st ht then items_text (plat e) (doc_style flags) (i + 1) True (map snd (elements_json e st p ht))
       else members_text (plat e) (doc_style flags) (i + 1) True (elements_json e st p ht)) =
      Some (elements_text e st p (i + 1) (prints_list st ht) True ht)" by simp
  then show ?case using 6(5) by (auto simp: ctn_text_def layout_style split: if_splits)
next
  case (7 e st p i g ht)
  then have "elements_errors e (st_flags st) (set_option g \<union> G) (d - 1) (lvl + 1) False ht = []"
    by (simp split: if_splits)
  with 7 have "members_text (plat e) (doc_style flags) (i + 1) True (elements_json e st p ht) =
      Some (elements_text e st p (i + 1) False True ht)" by (metis (full_types))
  then show ?case using 7 by (auto simp: ctn_text_def layout_style)
next
  case (8 e st p i v)
  then show ?case by (simp split: if_splits)
next
  case (12 e st p i as_list first k v ht)
  have kt: "as_list \<or> string_text (doc_style flags) (case k of KStr s \<Rightarrow> clean_string (st_flags st) s | KInt n \<Rightarrow> long_text e (word_of_int n))
      = Some (case k of KStr s \<Rightarrow> quoted st s | KInt n \<Rightarrow> 0x22 # long_text e (word_of_int n) @ [0x22])"
    using 12 quoted_text [of flags] quoted_number [OF number_texts(1) [of e p]]
    by (cases k) (auto simp: key_errors_def string_errors_def split: if_splits)
  then show ?case using 12
    by (cases k) (auto simp: key_text_def layout_style)
qed (auto simp: long_number)

lemma number_no_newline: "list_all number_byte s \<Longrightarrow> 0x0A \<notin> set s"
  by (auto simp: list_all_iff number_byte_def is_digit_def word_le_nat_alt)

lemma jval_json_clean:
  assumes e: "engine_ok e" and num: "numbers_ok e p"
  shows "jval_errors e (st_flags st) G d lvl v = [] \<Longrightarrow> line_clean (plat e) (jval_json e st p v)"
    and "elements_errors e (st_flags st) G d lvl as_list ht = [] \<Longrightarrow>
      list_all (\<lambda>m. line_clean (plat e) (snd m)) (elements_json e st p ht)"
  using e num
proof (induction e st p v and e st p ht arbitrary: G d lvl and G d lvl as_list rule: jval_json_elements_json.induct)
  case (3 e st p x)
  then show ?case using number_texts(2) [of e p x st] number_no_newline by (simp split: if_splits)
next
  case (4 e st p s)
  have "f64_isfinite x" if "numeric_value e (st_flags st) s = NumDouble x" for x
    using that by (auto simp: numeric_value_def split: if_splits numeric_string.splits)
  then show ?case using 4 number_texts [of e p] number_no_newline
    by (auto simp: long_number split: numeric_string.splits)
next
  case (5 e st p i ht)
  have "list_all (\<lambda>m. line_clean (plat e) (snd m)) (elements_json e st p ht)"
    using 5 by (cases "prints_list st ht") (simp_all split: if_splits)
  then show ?case by (auto simp: list_all_iff)
next
  case (6 e st p g ht)
  then show ?case by (simp split: if_splits)
next
  case (7 e st p v)
  then show ?case by (simp split: if_splits)
qed (use number_texts number_no_newline in \<open>auto simp: long_number\<close>)

subsection \<open>The replacement\<close>

lemma value_flag_utf8:
  "has_flag (flags AND FASTJSON_POINTER_VALUE_ENCODE_FLAGS) FASTJSON_ENCODE_PARTIAL_OUTPUT_ON_ERROR =
    has_flag flags FASTJSON_ENCODE_PARTIAL_OUTPUT_ON_ERROR"
  by (rule value_flag) (simp add: value_flag_defs)

text \<open>The values that are handed to the writer as they are; all others are encoded.\<close>

definition direct_value :: "zend_long \<Rightarrow> pval \<Rightarrow> yyval option" where
  "direct_value vf v =
    (if has_flag vf (FASTJSON_ENCODE_FORCE_OBJECT OR FASTJSON_ENCODE_NUMERIC_CHECK OR
        FASTJSON_ENCODE_PARTIAL_OUTPUT_ON_ERROR OR FASTJSON_ENCODE_PRESERVE_ZERO_FRACTION) then None
     else case v of PNull \<Rightarrow> Some YNull | PBool b \<Rightarrow> Some (YBool b) | PLong n \<Rightarrow> Some (YSint n)
       | PString s \<Rightarrow> Some (YStr (clean_string vf s) False) | _ \<Rightarrow> None)"

lemma build_replacement:
  "fastjson_pointer_build_replacement e n v vf d w =
    (case direct_value vf (zval_deref w v) of
       Some y \<Rightarrow> Some (Some (repl_value y), fastjson_error_state_clear, w)
     | None \<Rightarrow>
        (case fastjson_directwrite_encode e n (zval_deref w v) vf d w of
           None \<Rightarrow> None
         | Some (out, err, w1) \<Rightarrow>
             Some (if exception w1 then None else map_option (\<lambda>t. \<lparr>rp_encoded = Some t, rp_repl = YNull\<rparr>) out, err, w1)))"
  by (cases "zval_deref w v")
    (simp_all add: fastjson_pointer_build_replacement_def direct_value_def clean_string_def well_formed_wf Let_def)

lemma direct_json: "direct_value vf v = Some y \<Longrightarrow> resolves e H v j \<Longrightarrow> jval_json e (encode_style vf) p j = y"
proof -
  assume a: "direct_value vf v = Some y" and r: "resolves e H v j"
  then have "\<not> has_flag vf (FASTJSON_ENCODE_FORCE_OBJECT OR FASTJSON_ENCODE_NUMERIC_CHECK OR
      FASTJSON_ENCODE_PARTIAL_OUTPUT_ON_ERROR OR FASTJSON_ENCODE_PRESERVE_ZERO_FRACTION)"
    by (auto simp: direct_value_def split: if_splits)
  then have "\<not> has_flag vf FASTJSON_ENCODE_NUMERIC_CHECK"
    by (auto simp: has_flag_def bit_eq_iff bit_simps)
  then show ?thesis using a r
    by (cases v) (auto simp: direct_value_def numeric_value_def encode_style_def split: if_splits)
qed

text \<open>The replacement of a resolved value is one that stands for its JSON value, when it is built at all.\<close>

lemma replacement_represents:
  assumes e: "engine_ok e" and num: "numbers_ok e (serialize_precision w)"
    and v: "resolves e (cells_of w) (zval_deref w v) j" "jval_height j \<le> n"
    and part: "\<not> has_flag flags FASTJSON_ENCODE_PARTIAL_OUTPUT_ON_ERROR" and ex: "\<not> exception w"
    and b: "fastjson_pointer_build_replacement e n v (flags AND FASTJSON_POINTER_VALUE_ENCODE_FLAGS) d w = Some (Some rp, err, w')"
  shows "represents (plat e) (doc_style flags) rp (jval_json e (value_style flags) (serialize_precision w) j) \<and>
    err = fastjson_error_state_clear \<and> \<not> exception w'"
proof -
  define vf where "vf = flags AND FASTJSON_POINTER_VALUE_ENCODE_FLAGS"
  have p: "\<not> has_flag vf FASTJSON_ENCODE_PARTIAL_OUTPUT_ON_ERROR" using part by (simp add: vf_def value_flag_utf8)
  note b' = b [folded vf_def, unfolded build_replacement]
  show ?thesis
  proof (cases "direct_value vf (zval_deref w v)")
    case (Some y)
    then show ?thesis using b' ex direct_json [OF Some v(1)]
      by (auto simp: represents_def repl_value_def simp flip: vf_def)
  next
    case None
    obtain out err' w1 where r: "fastjson_directwrite_encode e n (zval_deref w v) vf d w = Some (out, err', w1)"
      using value_encode [OF e v p, where depth = d] by (auto split: option.splits)
    note pe = value_encode [OF e v p, where depth = d, unfolded r option.case prod.case Let_def]
    have o: "\<not> exception w1" "err' = err" "w1 = w'" "map_option (\<lambda>t. \<lparr>rp_encoded = Some t, rp_repl = YNull\<rparr>) out = Some rp"
      using b' None pe ex by (simp_all add: r split: if_splits)
    then obtain z where z: "out = Some z" "rp = \<lparr>rp_encoded = Some z, rp_repl = YNull\<rparr>" by auto
    have E: "jval_errors e vf (guards w) d 0 j = []" "z = jval_text e (encode_style vf) (serialize_precision w) 0 j"
        "err = fastjson_error_state_clear"
      using pe by (simp_all add: z o(2))
    have s: "st_flags (encode_style vf) = vf" by (simp add: encode_style_def)
    show ?thesis
      using jval_json_text(1) [OF e num refl, where flags = flags and i = 0 and G = "guards w" and d = d and lvl = 0]
        jval_json_clean(1) [OF e num, where st = "encode_style vf" and G = "guards w" and d = d and lvl = 0 and v = j] E o(1,3)
      by (simp add: represents_def z(2) s flip: vf_def)
  qed
qed

lemma effective_depth: "0 < depth \<Longrightarrow> 0 < nat (fastjson_effective_walk_depth p depth)"
  by (simp add: fastjson_effective_walk_depth_def fastjson_effective_stack_depth_def FASTJSON_STACK_DEPTH_LIMIT_def)

lemma set_write_text:
  assumes "stack_ok env = (\<lambda>_. True)" "5 \<le> zstr_max env" "represents env (doc_style flags) rp new" "0 < depth_limit"
    "fastjson_imut_pointer_set_write env root segs rp flags depth_limit = Inr out"
  shows "\<exists>r. ptr_put (size_max env) new segs root = Some r \<and> json_text env (doc_style flags) 0 r = Some out"
proof -
  obtain r d where "ptr_put (size_max env) new segs root = Some r" "ptr_put (size_max env) (measured rp) segs root = Some d"
    using set_write_put [OF assms(1,2,5)] by blast
  with set_write_outcome [OF assms(1-4) this] assms(5) show ?thesis by simp
qed

lemma dispatch_error:
  "\<exists>m c. c \<noteq> FASTJSON_ERROR_NONE \<and> fj_splice_dispatch_error status tm saved g =
    (if tm then (Some (JsonException m c), g\<lparr>last_err := saved\<rparr>) else (None, fastjson_set_error_code c m g))"
proof -
  obtain c m where cm: "(case map_of fj_splice_errors status of
      Some e \<Rightarrow> e | None \<Rightarrow> (FASTJSON_ERROR_SYNTAX, ''fastjson_pointer_set write failed'')) = (c, m)" by fastforce
  moreover have "c \<noteq> FASTJSON_ERROR_NONE"
    using cm by (auto simp: fj_splice_errors_def error_code_defs split: if_splits)
  ultimately show ?thesis
    by (intro exI [of _ m] exI [of _ c]) (simp add: fj_splice_dispatch_error_def fastjson_throw_error_def)
qed

text \<open>The ways through the function: it returns a text only along the last one.\<close>

lemma set_returned:
  fixes flags :: zend_long and w :: php_world and depth :: int and e :: engine
  defines "tm \<equiv> has_flag flags FASTJSON_DECODE_THROW_ON_ERROR"
  defines "W \<equiv> w\<lparr>globals := if tm then globals w else fastjson_clear_error (globals w)\<rparr>"
  defines "od \<equiv> nat (fastjson_effective_walk_depth (runtime e) depth)"
  assumes s: "fastjson_pointer_set e n reader json pointer v depth flags w = Some (Returned (Some out), w')"
  shows "0 < depth \<and> (\<exists>doc err segs rp rerr w1 d.
    fastjson_read_doc_ex reader json (flags AND FASTJSON_DECODE_RELAXED) YYJSON_READ_NUMBER_AS_RAW = (Some doc, err) \<and>
    fastjson_pointer_plan_init (size_max (plat e)) (doc_root doc) pointer od = Inr segs \<and>
    fastjson_pointer_build_replacement e n v (flags AND FASTJSON_POINTER_VALUE_ENCODE_FLAGS) d W = Some (Some rp, rerr, w1) \<and>
    fastjson_imut_pointer_set_write (plat e) (doc_root doc) segs rp flags od = Inr out \<and>
    w' = restore_globals (if tm \<and> es_code rerr = FASTJSON_ERROR_NONE then last_err (globals w) else rerr) w1)"
proof -
  note ps = s [unfolded fastjson_pointer_set_def throw_mode_globals Let_def prod.case, folded tm_def, folded W_def od_def]
  have no: "\<not> (case fj_splice_dispatch_error st b sv g of (ex, g) \<Rightarrow>
      Some (case ex of Some r \<Rightarrow> r | None \<Rightarrow> Returned None, f g)) = Some (Returned (Some out), w')" for st b sv g and f :: "fj_request_globals \<Rightarrow> php_world"
  proof -
    obtain m c where "fj_splice_dispatch_error st b sv g = (if b then (Some (JsonException m c), g\<lparr>last_err := sv\<rparr>)
        else (None :: bytes option php_result option, fastjson_set_error_code c m g))"
      using dispatch_error [of st b sv g] by blast
    then show ?thesis by (cases b) simp_all
  qed
  have d: "FASTJSON_VALIDATE_DEPTH depth 4 = (None :: bytes option php_result option)" and "0 < depth"
    using ps by (auto simp: FASTJSON_VALIDATE_DEPTH_def split: if_splits)
  note ps = ps [unfolded d option.case]
  obtain rd err where rd: "fastjson_read_doc_ex reader json (flags AND FASTJSON_DECODE_RELAXED) YYJSON_READ_NUMBER_AS_RAW =
      (rd, err)" by fastforce
  obtain doc where doc: "rd = Some doc"
    using ps by (cases rd) (auto simp: rd fastjson_throw_read_error_def fastjson_throw_error_def Let_def split: if_splits)
  note ps = ps [unfolded rd doc prod.case option.case]
  obtain segs where segs: "fastjson_pointer_plan_init (size_max (plat e)) (doc_root doc) pointer od = Inr segs"
    using ps no by (cases "fastjson_pointer_plan_init (size_max (plat e)) (doc_root doc) pointer od") auto
  note ps = ps [unfolded segs sum.case]
  define b where "b = fastjson_pointer_build_replacement e n v (flags AND FASTJSON_POINTER_VALUE_ENCODE_FLAGS)
      (if int od - int (length segs) - 1 < 0 then 0 else int od - int (length segs) - 1) W"
  note ps = ps [folded b_def]
  obtain rep rerr w1 where rep: "b = Some (rep, rerr, w1)"
    using ps by (cases b) auto
  note ps = ps [unfolded rep option.case prod.case]
  obtain rp where rp: "rep = Some rp"
    using ps by (cases rep) (auto simp: fastjson_throw_error_def Let_def split: if_splits)
  note ps = ps [unfolded rp option.case]
  obtain t where wr: "fastjson_imut_pointer_set_write (plat e) (doc_root doc) segs rp flags od = Inr t"
    using ps no by (cases "fastjson_imut_pointer_set_write (plat e) (doc_root doc) segs rp flags od") (auto split: if_splits)
  have "t = out \<and> w' = restore_globals (if tm \<and> es_code rerr = FASTJSON_ERROR_NONE then last_err (globals w) else rerr) w1"
    using ps by (auto simp: wr split: if_splits)
  then show ?thesis using \<open>0 < depth\<close> rd doc segs rep rp wr unfolding b_def by blast
qed

subsection \<open>Properties\<close>


lemma demo_numbers: "numbers_ok demo_engine p"
proof -
  have l: "list_all number_byte (fj_write_sint64_dec n)" for n
    using dec_tmp_digits by (auto simp: fj_write_sint64_dec_def fj_write_uint64_dec_def number_byte_def is_digit_def list_all_iff)
  then show ?thesis
    by (auto simp: numbers_ok_def long_text_def double_text_def demo_engine_def demo_php_def Let_def raw_overflows_def
        number_byte_def is_digit_def ascii_def byte_of_def word_le_nat_alt)
qed

lemma demo_set:
  "fastjson_pointer_set demo_engine 1 (\<lambda>_ _. (Some \<lparr>doc_root = demo_doc, doc_dat_read = 11, doc_val_read = 3\<rparr>,
      \<lparr>re_code = 0, re_msg = ''success'', re_pos = 0\<rparr>)) [] (ascii ''/1'') (PBool False) 512 0 demo_world =
    Some (Returned (Some (ascii ''[null,false]'')), demo_world)"
proof -
  let ?e = "plat demo_engine"
  have simps: "zstr_max ?e = 100000" "size_max ?e = 1000" "stack_ok ?e = (\<lambda>_. True)"
    by (simp_all add: demo_engine_def demo_php_def)
  have ix: "fj_seg_is_index 1000 [0x31] = Some 1" by (simp add: seg_index_iff decimal.simps byte_of_def)
  have plan: "fastjson_pointer_plan_init (size_max ?e) demo_doc (ascii ''/1'') 512 = Inr [ascii ''1'']"
    by (simp add: plan_iff [of _ _ _ _ _ YNull] simps demo_doc_def ix escape_byte_def render_pointer_def ascii_def
      byte_of_def fj_pointer_nsegs_ok_def FASTJSON_POINTER_MAX_SEGMENTS_def)
  have d: "nat (fastjson_effective_walk_depth (runtime demo_engine) 512) = 512"
    by (simp add: demo_engine_def demo_php_def fastjson_effective_walk_depth_def fastjson_effective_stack_depth_def
      FASTJSON_STACK_DEPTH_LIMIT_def)
  have v: "direct_value 0 (PBool False) = Some (YBool False)"
    by (simp add: direct_value_def has_flag_def)
  have w: "fj_splice_write_full ?e c v 511 l = Inr (sp_append c t)" if "(v, t) \<in> {(YNull, ascii ''null''), (YBool False, ascii ''false'')}" for c v t l
    using that by (subst fj_splice_write_full.simps) (auto simp: simps)
  have wr: "fastjson_imut_pointer_set_write ?e demo_doc [ascii ''1''] (repl_value (YBool False)) 0 512 =
      Inr (ascii ''[null,false]'')"
    unfolding set_write_start
    by (subst fj_splice_write_at.simps) (simp add: start_ctx_def demo_doc_def simps ascii_def byte_of_def ix
      sp_open_def sp_close_def sp_separator_def sp_append_def has_flag_def repl_value_def
      fj_splice_write_replacement_def w Let_def)
  show ?thesis
    using plan wr
    by (simp add: fastjson_pointer_set_def FASTJSON_VALIDATE_DEPTH_def throw_mode_globals has_flag_def INT_MAX_def
        fastjson_read_doc_ex_def d build_replacement v Let_def demo_world_def zval_deref_def fastjson_error_state_clear_def)
qed


text \<open>What the documentation of the reader says of its errors.\<close>

definition reader_explains :: "reader \<Rightarrow> bool" where
  "reader_explains reader \<longleftrightarrow> (\<forall>json yflags. case reader json yflags of
     (None, err) \<Rightarrow> re_code err \<noteq> YYJSON_READ_SUCCESS | _ \<Rightarrow> True)"

lemma read_doc_error:
  assumes "reader_explains reader" and r: "fastjson_read_doc_ex reader json flags extra = (None, err)"
  shows "re_code err \<noteq> YYJSON_READ_SUCCESS"
proof -
  have "re_code er \<noteq> YYJSON_READ_SUCCESS" if "reader json y = (None, er)" for y er
    using assms(1) that unfolding reader_explains_def by (metis (mono_tags, lifting) option.simps(4) prod.case)
  then show ?thesis using r
    by (auto simp: fastjson_read_doc_ex_def Let_def YYJSON_READ_ERROR_INVALID_STRING_def YYJSON_READ_SUCCESS_def
        split: prod.splits if_splits)
qed

lemma read_error_code: "es_code (last_err (fastjson_set_read_error json err g)) = fastjson_translate_read_code (re_code err)"
  by (simp add: fastjson_set_read_error_def Let_def split: option.split)

definition set_outcome :: "zend_long \<Rightarrow> fastjson_error_state \<Rightarrow> bytes option php_result \<Rightarrow> php_world \<Rightarrow> bool" where
  "set_outcome flags entry_err r w' \<longleftrightarrow>
    (if has_flag flags FASTJSON_DECODE_THROW_ON_ERROR then
       (case r of
          Returned (Some _) \<Rightarrow> last_err (globals w') = entry_err \<or>
            has_flag flags FASTJSON_ENCODE_PARTIAL_OUTPUT_ON_ERROR \<and> es_code (last_err (globals w')) \<noteq> FASTJSON_ERROR_NONE
        | JsonException _ c \<Rightarrow> c \<noteq> FASTJSON_ERROR_NONE \<and> last_err (globals w') = entry_err
        | _ \<Rightarrow> r = HostException \<and> exception w')
     else
       (case r of
          Returned (Some _) \<Rightarrow> last_err (globals w') = fastjson_error_state_clear \<or>
            has_flag flags FASTJSON_ENCODE_PARTIAL_OUTPUT_ON_ERROR
        | Returned None \<Rightarrow> es_code (last_err (globals w')) \<noteq> FASTJSON_ERROR_NONE
        | _ \<Rightarrow> r = HostException \<and> exception w'))"

lemma build_outcome:
  assumes "can_return e n w" and "releases_keep_exception e" and "\<not> exception w"
  shows "\<exists>rep err w1. fastjson_pointer_build_replacement e n v (flags AND FASTJSON_POINTER_VALUE_ENCODE_FLAGS) d w = Some (rep, err, w1) \<and>
    (case rep of
       None \<Rightarrow> exception w1 \<or> es_code err \<noteq> FASTJSON_ERROR_NONE \<and> es_msg err \<noteq> None
     | Some _ \<Rightarrow> has_flag flags FASTJSON_ENCODE_PARTIAL_OUTPUT_ON_ERROR \<or> err = fastjson_error_state_clear)"
proof -
  define vf where "vf = flags AND FASTJSON_POINTER_VALUE_ENCODE_FLAGS"
  obtain out err w1 where r: "fastjson_directwrite_encode e n (zval_deref w v) vf d w = Some (out, err, w1)"
    using directwrite_returns [OF assms(1)] by blast
  then show ?thesis
    using directwrite_explained [OF assms(2) r] value_flag_utf8 [of flags]
    by (cases "direct_value vf (zval_deref w v)"; cases out) (auto simp: build_replacement simp flip: vf_def)
qed

text \<open>C16: the contract of \<open>fastjson_pointer_set\<close>, for any value, user code included. It returns. With \<open>THROW_ON_ERROR\<close> an
  error of the document, the pointer, the value or the writer is a \<open>JsonException\<close> with an error code, and the last-error
  state is what it was, on success too unless partial output has an error to report. Without it \<open>false\<close> comes with an
  error code, and a text with a cleared last-error state unless partial output was asked for.\<close>

theorem pointer_set_contract:
  assumes "can_return e n w" and "releases_keep_exception e" and "reader_explains reader" and "\<not> exception w"
  shows "\<exists>r w'. fastjson_pointer_set e n reader json pointer v depth flags w = Some (r, w') \<and>
    (if depth \<le> 0 \<or> INT_MAX < depth then (\<exists>m. r = ValueError 4 m) else set_outcome flags (last_err (globals w)) r w')"
proof (cases "depth \<le> 0 \<or> INT_MAX < depth")
  case True
  then show ?thesis
    by (auto simp: fastjson_pointer_set_def throw_mode_globals FASTJSON_VALIDATE_DEPTH_def Let_def)
next
  case False
  define tm where "tm = has_flag flags FASTJSON_DECODE_THROW_ON_ERROR"
  define W where "W = w\<lparr>globals := if tm then globals w else fastjson_clear_error (globals w)\<rparr>"
  define od where "od = nat (fastjson_effective_walk_depth (runtime e) depth)"
  have d: "FASTJSON_VALIDATE_DEPTH depth 4 = (None :: bytes option php_result option)"
    using False by (simp add: FASTJSON_VALIDATE_DEPTH_def)
  note ps = fastjson_pointer_set_def [of e n reader json pointer v depth flags w, unfolded throw_mode_globals Let_def
      prod.case d option.case, folded tm_def, folded W_def od_def]
  have W: "can_return e n W" "\<not> exception W" "last_err (globals W) = (if tm then last_err (globals w) else fastjson_error_state_clear)"
    using assms(1,4) by (simp_all add: W_def clear_is_state)
  define good where "good = (\<lambda>res. \<exists>r w'. res = Some (r, w') \<and> set_outcome flags (last_err (globals w)) r w')"
  have out: "set_outcome flags (last_err (globals w)) (JsonException m c) w' \<longleftrightarrow>
        tm \<and> c \<noteq> FASTJSON_ERROR_NONE \<and> last_err (globals w') = last_err (globals w)"
      "set_outcome flags (last_err (globals w)) (Returned None) w' \<longleftrightarrow> \<not> tm \<and> es_code (last_err (globals w')) \<noteq> FASTJSON_ERROR_NONE"
      "set_outcome flags (last_err (globals w)) HostException w' \<longleftrightarrow> exception w'" for m c w'
    by (simp_all add: set_outcome_def tm_def)
  have failed: "good (case fj_splice_dispatch_error st tm (last_err (globals w)) g of (ex, g) \<Rightarrow>
      Some (case ex of Some r \<Rightarrow> r | None \<Rightarrow> Returned None, w1\<lparr>globals := g\<rparr>))" for st g w1
  proof -
    obtain m c where "c \<noteq> FASTJSON_ERROR_NONE"
      "fj_splice_dispatch_error st tm (last_err (globals w)) g = (if tm then (Some (JsonException m c), g\<lparr>last_err := last_err (globals w)\<rparr>)
        else (None :: bytes option php_result option, fastjson_set_error_code c m g))"
      using dispatch_error [of st tm "last_err (globals w)" g] by blast
    then show ?thesis
      by (cases tm) (simp_all add: good_def out fastjson_set_error_code_def fastjson_error_globals_set_def)
  qed
  obtain rd err where rd: "fastjson_read_doc_ex reader json (flags AND FASTJSON_DECODE_RELAXED) YYJSON_READ_NUMBER_AS_RAW =
      (rd, err)" by fastforce
  have "good (fastjson_pointer_set e n reader json pointer v depth flags w)"
  proof (cases rd)
    case None
    have "re_code err \<noteq> YYJSON_READ_SUCCESS" using read_doc_error [OF assms(3)] rd None by simp
    then show ?thesis
      by (cases tm) (auto simp: ps rd None good_def out fastjson_throw_read_error_def fastjson_throw_error_def Let_def
          read_code_error read_error_code)
  next
    case doc: (Some doc)
    show ?thesis
    proof (cases "fastjson_pointer_plan_init (size_max (plat e)) (doc_root doc) pointer od")
      case (Inl st)
      then show ?thesis using failed by (simp add: ps rd doc)
    next
      case segs: (Inr segs)
      obtain rep rerr w1 where b: "fastjson_pointer_build_replacement e n v (flags AND FASTJSON_POINTER_VALUE_ENCODE_FLAGS)
          (if int od - int (length segs) - 1 < 0 then 0 else int od - int (length segs) - 1) W = Some (rep, rerr, w1)"
        and bo: "case rep of
            None \<Rightarrow> exception w1 \<or> es_code rerr \<noteq> FASTJSON_ERROR_NONE \<and> es_msg rerr \<noteq> None
          | Some _ \<Rightarrow> has_flag flags FASTJSON_ENCODE_PARTIAL_OUTPUT_ON_ERROR \<or> rerr = fastjson_error_state_clear"
        using build_outcome [OF W(1) assms(2) W(2)] by blast
      note st = ps [unfolded rd doc prod.case option.case segs sum.case b]
      show ?thesis
      proof (cases rep)
        case None
        then show ?thesis using bo
          by (cases tm) (auto simp: st good_def out fastjson_throw_error_def Let_def)
      next
        case (Some rp)
        then show ?thesis using bo failed
          by (cases "fastjson_imut_pointer_set_write (plat e) (doc_root doc) segs rp flags od"; cases tm)
            (auto simp: st good_def set_outcome_def tm_def fastjson_error_state_clear_def)
      qed
    qed
  qed
  then show ?thesis using False by (auto simp: good_def)
qed

definition demo_reader :: reader where
  "demo_reader json yflags =
    (if json = [] then (None, \<lparr>re_code = YYJSON_READ_ERROR_INVALID_PARAMETER, re_msg = ''input is empty'', re_pos = 0\<rparr>)
     else (Some \<lparr>doc_root = demo_doc, doc_dat_read = 11, doc_val_read = 3\<rparr>, \<lparr>re_code = 0, re_msg = ''success'', re_pos = 0\<rparr>))"

lemma pointer_set_contract_witness:
  "\<exists>r w'. fastjson_pointer_set demo_engine 1025 demo_reader (ascii ''[null,true]'') (ascii ''/1'') (PDouble 0x7FF0000000000000)
      512 0 demo_world = Some (r, w') \<and>
    (if (512 :: int) \<le> 0 \<or> INT_MAX < 512 then (\<exists>m. r = ValueError 4 m) else set_outcome 0 (last_err (globals demo_world)) r w')"
proof (rule pointer_set_contract [OF demo_returns demo_ok(3)])
  show "reader_explains demo_reader"
    by (simp add: reader_explains_def demo_reader_def YYJSON_READ_ERROR_INVALID_PARAMETER_def YYJSON_READ_SUCCESS_def)
  show "\<not> exception demo_world" by (simp add: demo_world_def)
qed

end
