(* ===== verification/Spec2Isabelle.thy ===== *)
theory Spec2Isabelle
  imports SetProps
begin

text \<open>
  fastjson is a JSON extension of PHP written in C. It reads with the vendored yyjson library and writes without an
  intermediate tree: a PHP value is printed straight into one buffer (fastjson_directwrite.c), and a document that is
  changed at one place is printed from the parsed tree with the change spliced in (fastjson_pointer_splice.c).

  \<^bold>\<open>The parts and how they interact.\<close> An entry point clears or saves the last-error state of the module
  (fastjson.c), reads its JSON argument through \<open>fastjson_read_doc_ex\<close>, which chooses the reader's flags and runs the reader a
  second time for an overflowing number, and then does one of four things with the tree: it walks it into PHP values
  (fastjson_walk.inc, with a cache of member names), resolves a pointer in it, merges a patch into it, or writes it back with
  one value replaced. The encoder calls user code (serializers, property hooks, destructors), which may
  call the module again; the throw contract says whose error is seen afterwards.

  \<^bold>\<open>Foundations.\<close>
  \<^item> Prelude: bytes, C literals, bit masks. A C buffer is a byte list, an index a \<open>nat\<close> bounded by its length.
  \<^item> Swar: the eight-bytes-at-a-time word tests. YyVal: \<open>yyval\<close>, the reader's tree (each string with its tag for bytes
    outside ASCII), and \<open>env\<close>, the platform: the largest PHP string, \<open>SIZE_MAX\<close>, the native stack check by frame count,
    the vendored number writer and \<open>strtod\<close>.

  \<^bold>\<open>Strings\<close> (fastjson.c, vendored writer).
  \<^item> Utf8: \<open>fastjson_utf8_well_formed\<close> and \<open>fastjson_sanitize_utf8\<close> against the scalar values of Unicode. The locale
    \<open>utf8_scanner\<close> states what one turn of a scanning loop promises; the validator, the sanitiser and the vendored writer
    interpret it.
  \<^item> YyString, YyRound: \<open>yyjson_write_string_to_buf\<close> with its tables, and a reader of JSON string literals after RFC 8259
    that gives back every string it wrote.
  \<^item> StringWriter: the exact output size, the writer in chunks and the large-string writer, each the one-pass writer; the
    locale \<open>string_writer\<close> is the contract of both writers (they append the one-pass text or leave the buffer alone).
  \<^item> HexEscape: \<open>fastjson_apply_hex_escapes\<close>, the two passes, the second from the back and in place.

  \<^bold>\<open>Documents\<close> (fastjson_pointer_splice.c, fastjson_decode.c).
  \<^item> Pointer: \<open>fj_pointer_parse\<close> and \<open>fj_pointer_walk\<close> against \<open>ptr_at\<close> (an inductive relation: the value at a path) and
    \<open>ptr_put\<close> (the document with a value put at a path).
  \<^item> Splice, SpliceCorrect, SplicePath: the splice writer, every function of it, with the specification \<open>json_text\<close>, a printer
    of trees without buffer, status and budget; get-after-put and the frame of a put.
  \<^item> Merge: the iterative nesting test, the linear and the indexed merge, against RFC 7396.

  \<^bold>\<open>Errors\<close> (fastjson.c). Position: line and column of an offset. ErrorState: the globals, saving, restoring and throwing
  errors, the accessors. A PHP result is a \<open>php_result\<close>: a returned value, a \<open>JsonException\<close>, a \<open>ValueError\<close> or an
  exception of user code.

  \<^bold>\<open>Decoding.\<close> InfNan: the literal scan that allows the second parse, exact for the positions outside strings and comments.
  KeyCache: the open-addressed table of member names. Walk: the walker, one definition for its four instances.
  Decode, DecodeCorrect: \<open>fastjson_decode\<close>, \<open>fastjson_file_decode\<close>, \<open>fastjson_pointer_get\<close>, \<open>fastjson_pointer_exists\<close>,
  \<open>fastjson_merge_patch\<close>, \<open>fastjson_validate\<close>: the outcome in both error modes, and the others reduced to decoding.

  \<^bold>\<open>Encoding\<close> (fastjson_directwrite.c, fastjson_encode.c).
  \<^item> Encoder: \<open>fastjson_dw_ctx\<close> is the code's context, \<open>php_world\<close> the request: reference cells, property slots, recursion
    flags, the pending exception and the module's globals. An array is its element list, with an identity when it can be
    protected; an object is an identity whose class, properties and hooks the \<open>engine\<close> tells. Every function of the file is
    there, the discard traversal behind an infinity included.
  \<^item> EncodeApi: \<open>fastjson_encode\<close>, \<open>fastjson_file_encode\<close> and \<open>fastjson_pointer_set\<close>.
  \<^item> EncodeRel: the locale \<open>encoder_relation\<close>. Its assumptions say that a relation between the states before and after a call is
    kept by the elementary steps; its theorems are that every call keeps it, for any value and any user code. It is interpreted
    on the model seven times: for the recursion flags, the layout, the evidence of an error, the silence after a hard error and
    errors of successful calls (EncodeProps), and for the frame count and the reference cells (EncodeTotal).
  \<^item> EncodeText, EncodeCorrect: the inductive relation \<open>resolves\<close> between a value in its request and a tree, for values whose
    user code keeps no state (no serializer, no read hook); \<open>jval_text\<close> and \<open>jval_errors\<close>, a printer of trees and the list of their
    errors in document order; and the proof that the encoder prints the one or reports from the other.
  \<^item> EncodeTotal: the locale \<open>encoder_total\<close> extends \<open>encoder_relation\<close> by an invariant; under it the encoder returns.
  \<^item> EncodeProps, SetProps: the properties of the entry points, and \<open>fastjson_pointer_set\<close> as a whole: \<open>jval_json\<close> is the JSON
    value of such a tree, and the encoder's text of the one is the splice writer's text of the other.

  \<^bold>\<open>Parameters.\<close> Code outside the repository is an argument: \<open>reader\<close> (the parser of the vendored library), \<open>php\<close> and
  \<open>engine\<close> (the engine's number conversions, hash, class tables and calls of user code), the streams (\<open>php_file\<close>, \<open>php_sink\<close>: what
  their calls return, and what their callbacks do to the last-error state). What the properties need of them is named:
  \<open>engine_ok\<close>, \<open>numbers_ok\<close>, \<open>releases_keep_exception\<close>, \<open>user_keeps_flags\<close>, \<open>user_keeps_cells\<close>, \<open>reader_explains\<close>.

  \<^bold>\<open>Termination and fuel.\<close> The scanners, writers, walkers and merges are total functions. The encoder follows references and
  calls user code, so it has fuel, and \<open>None\<close> is a lack of fuel. \<open>enough_fuel\<close>: without a native stack limit 1025, because
  the code counts its frames and fails at 1024; with one, \<open>2 * L + 2\<close> when the stack check fails at \<open>L\<close> frames,
  because only every second call may pass without a check (a reference never holds a reference). \<open>encode_returns\<close>
  shows that this is enough for every value.

  \<^bold>\<open>Not modelled.\<close> The vendored parser and tree writer and the allocator; generated argument tables and the module's
  registration (MINIT, MINFO). A fatal error leaves the request: \<open>zend_try\<close> bailouts of stream callbacks, a failing allocation and the
  overflow of \<open>smart_str\<close> are not states. Reference counts are visible only as the recursion flags and
  the strings the key cache releases. A property table that user code changes while it is iterated is taken as the table at the start of the
  iteration, with the slots read when they are reached. Integers of PHP have 64 bits; builds with 32 bits are not modelled.
\<close>

end
